(* ===== verification/SGL_Prelude.thy ===== *)
theory SGL_Prelude
  imports Complex_Main "HOL-Library.Multiset"
begin

text \<open>
  What the components share: Python exceptions as values, slices of lists and tensors,
  dictionaries in insertion order, stores into a tensor, and the generic lemmas about them.
  A one-dimensional tensor is a list of its elements; the elements of an integer tensor are
  \<open>int\<close>, and \<open>//\<close> and \<open>%\<close> of Python and torch on integers are \<open>div\<close> and \<open>mod\<close> of \<open>int\<close>, which
  round towards minus infinity as they do.
\<close>

named_theorems slice_simps \<open>reading and writing slices\<close>
named_theorems page_simps \<open>arithmetic of pages and blocks\<close>

section \<open>Exceptions\<close>

datatype py_error =
    AssertionError
  | IndexError
  | KeyError
  | ValueError
  | RuntimeError
  | NotImplementedError
  | ZeroDivisionError
  | AttributeError
  | TypeError

type_synonym 'a res = "py_error + 'a"

definition rbind :: "'a res \<Rightarrow> ('a \<Rightarrow> 'b res) \<Rightarrow> 'b res" where
  "rbind r f = (case r of Inl e \<Rightarrow> Inl e | Inr x \<Rightarrow> f x)"

definition py_assert :: "bool \<Rightarrow> 'a res \<Rightarrow> 'a res" where
  "py_assert b r = (if b then r else Inl AssertionError)"

section \<open>Slices\<close>

text \<open>\<open>xs[a:b]\<close>: a bound below 0 counts from the end, and both are clipped to the list.\<close>

definition py_bound :: "nat \<Rightarrow> int \<Rightarrow> nat" where
  "py_bound n i = nat (if i < 0 then max 0 (i + int n) else min i (int n))"

definition py_slice :: "int \<Rightarrow> int \<Rightarrow> 'a list \<Rightarrow> 'a list" where
  "py_slice a b xs =
     (let n = length xs in take (py_bound n b - py_bound n a) (drop (py_bound n a) xs))"

definition py_from :: "int \<Rightarrow> 'a list \<Rightarrow> 'a list" where
  "py_from a xs = drop (py_bound (length xs) a) xs"

definition py_upto :: "int \<Rightarrow> 'a list \<Rightarrow> 'a list" where
  "py_upto b xs = take (py_bound (length xs) b) xs"

text \<open>\<open>xs[a : a + len(vs)] = vs\<close> on a tensor, which keeps its length.\<close>

definition put_slice :: "nat \<Rightarrow> 'a list \<Rightarrow> 'a list \<Rightarrow> 'a list" where
  "put_slice a vs xs = take a xs @ take (length xs - a) vs @ drop (a + length vs) xs"

text \<open>The block \<open>xs[b * n : (b + 1) * n]\<close> of a tensor of consecutive blocks of \<open>n\<close> elements.\<close>

definition block :: "nat \<Rightarrow> nat \<Rightarrow> 'a list \<Rightarrow> 'a list" where
  "block n b xs = take n (drop (b * n) xs)"

section \<open>Dictionaries\<close>

text \<open>
  A dictionary is the list of its items in insertion order. Storing under a key that is there
  keeps its place; popping a key closes the gap.
\<close>

type_synonym ('k, 'v) dict = "('k \<times> 'v) list"

fun dict_set :: "'k \<Rightarrow> 'v \<Rightarrow> ('k, 'v) dict \<Rightarrow> ('k, 'v) dict" where
  "dict_set k v [] = [(k, v)]"
| "dict_set k v ((k', v') # d) = (if k = k' then (k, v) # d else (k', v') # dict_set k v d)"

definition dict_pop :: "'k \<Rightarrow> ('k, 'v) dict \<Rightarrow> ('k, 'v) dict" where
  "dict_pop k d = filter (\<lambda>(k', v). k' \<noteq> k) d"

abbreviation dict_get :: "('k, 'v) dict \<Rightarrow> 'k \<Rightarrow> 'v option" where
  "dict_get \<equiv> map_of"

abbreviation dict_ok :: "('k, 'v) dict \<Rightarrow> bool" where
  "dict_ok d \<equiv> distinct (map fst d)"

section \<open>Tensor operations\<close>

fun cumsum_from :: "int \<Rightarrow> int list \<Rightarrow> int list" where
  "cumsum_from a [] = []"
| "cumsum_from a (x # xs) = (a + x) # cumsum_from (a + x) xs"

definition cumsum :: "int list \<Rightarrow> int list" where
  "cumsum xs = cumsum_from 0 xs"

definition torch_unique :: "int list \<Rightarrow> int list" where
  "torch_unique xs = remdups (sort xs)"

text \<open>\<open>torch.argmax\<close>: the index of the first maximal element.\<close>

fun argmax_from :: "nat \<Rightarrow> 'a::linorder \<Rightarrow> nat \<Rightarrow> 'a list \<Rightarrow> nat" where
  "argmax_from best v i [] = best"
| "argmax_from best v i (x # xs) =
     (if v < x then argmax_from i x (Suc i) xs else argmax_from best v (Suc i) xs)"

definition argmax :: "'a::linorder list \<Rightarrow> nat" where
  "argmax xs = (case xs of [] \<Rightarrow> 0 | x # xs \<Rightarrow> argmax_from 0 x 1 xs)"

section \<open>Lemmas\<close>

lemma rbind_Inr [simp]: "rbind (Inr x) f = f x"
  by (simp add: rbind_def)

lemma rbind_Inl [simp]: "rbind (Inl e) f = Inl e"
  by (simp add: rbind_def)

lemma rbind_eq_Inr: "rbind r f = Inr y \<longleftrightarrow> (\<exists>x. r = Inr x \<and> f x = Inr y)"
  by (cases r) auto

lemma py_assert_eq_Inr [simp]: "py_assert b r = Inr y \<longleftrightarrow> b \<and> r = Inr y"
  by (simp add: py_assert_def)

lemma py_assert_True [simp]: "py_assert True r = r"
  by (simp add: py_assert_def)

lemma py_bound_le [simp]: "py_bound n i \<le> n"
  by (auto simp: py_bound_def)

lemma py_bound_nat [simp]: "0 \<le> i \<Longrightarrow> py_bound n i = min (nat i) n"
  by (auto simp: py_bound_def)

lemma py_slice_nat [slice_simps]:
  "0 \<le> a \<Longrightarrow> 0 \<le> b \<Longrightarrow> py_slice a b xs = take (nat b - nat a) (drop (nat a) xs)"
  by (auto simp: py_slice_def Let_def min_def)

lemma py_from_nat [slice_simps]: "0 \<le> a \<Longrightarrow> py_from a xs = drop (nat a) xs"
  by (auto simp: py_from_def min_def)

lemma py_upto_nat [slice_simps]: "0 \<le> b \<Longrightarrow> py_upto b xs = take (nat b) xs"
  by (auto simp: py_upto_def min_def)

lemma length_put_slice [simp]: "length (put_slice a vs xs) = length xs"
  by (auto simp: put_slice_def)

lemma put_slice_Nil [simp]: "put_slice a [] xs = xs"
  by (simp add: put_slice_def)

lemma put_slice_Cons:
  "a < length xs \<Longrightarrow> put_slice a (v # vs) xs = put_slice (Suc a) vs (xs[a := v])"
  by (auto simp: put_slice_def take_Suc_conv_app_nth take_update_swap drop_update_swap
      take_Cons' upd_conv_take_nth_drop min_def add.commute)

lemma nth_put_slice:
  "i < length xs \<Longrightarrow> put_slice a vs xs ! i =
     (if a \<le> i \<and> i < a + length vs then vs ! (i - a) else xs ! i)"
  by (auto simp: put_slice_def nth_append min_def)

lemma put_slice_append:
  "put_slice a (us @ vs) xs = put_slice (a + length us) vs (put_slice a us xs)"
  by (rule nth_equalityI) (auto simp: nth_put_slice nth_append)

text \<open>A fold whose every step writes the next slice of the output writes the concatenation.\<close>

lemma foldl_put_slices:
  assumes "\<And>i out. i < k \<Longrightarrow> length out = n \<Longrightarrow>
      step i out = put_slice (length (concat (map f [0..<i]))) (f i) out"
    and "length out = n"
  shows "foldl (\<lambda>out i. step i out) out [0..<k] = put_slice 0 (concat (map f [0..<k])) out"
  using assms
proof (induction k)
  case (Suc k)
  then show ?case by (simp add: put_slice_append)
qed simp

lemma put_slice_whole: "length vs = length out \<Longrightarrow> put_slice 0 vs out = vs"
  by (intro nth_equalityI) (auto simp: nth_put_slice)

lemma length_block: "length (block n b xs) = min n (length xs - b * n)"
  by (simp add: block_def)

lemma map_of_dict_set [simp]: "dict_get (dict_set k v d) = (dict_get d)(k \<mapsto> v)"
  by (induction k v d rule: dict_set.induct) auto

lemma map_of_dict_pop [simp]: "dict_get (dict_pop k d) = (dict_get d)(k := None)"
  by (induction d) (auto simp: dict_pop_def fun_upd_twist)

lemma fst_set_dict_set [simp]: "fst ` set (dict_set k v d) = insert k (fst ` set d)"
  by (induction k v d rule: dict_set.induct) auto

lemma dict_ok_dict_set [simp]: "dict_ok d \<Longrightarrow> dict_ok (dict_set k v d)"
  by (induction k v d rule: dict_set.induct) auto

lemma dict_ok_dict_pop [simp]: "dict_ok d \<Longrightarrow> dict_ok (dict_pop k d)"
  by (induction d) (auto simp: dict_pop_def)

lemma length_cumsum_from [simp]: "length (cumsum_from a xs) = length xs"
  by (induction xs arbitrary: a) auto

lemma nth_cumsum_from:
  "i < length xs \<Longrightarrow> cumsum_from a xs ! i = a + sum_list (take (Suc i) xs)"
proof (induction xs arbitrary: a i)
  case Nil
  then show ?case by simp
next
  case (Cons x xs)
  then show ?case by (cases i) auto
qed

lemma length_cumsum [simp]: "length (cumsum xs) = length xs"
  by (simp add: cumsum_def)

lemma nth_cumsum: "i < length xs \<Longrightarrow> cumsum xs ! i = sum_list (take (Suc i) xs)"
  by (simp add: cumsum_def nth_cumsum_from)

lemma set_torch_unique [simp]: "set (torch_unique xs) = set xs"
  by (simp add: torch_unique_def)

lemma distinct_torch_unique [simp]: "distinct (torch_unique xs)"
  by (simp add: torch_unique_def)

lemma length_torch_unique_iff: "length (torch_unique xs) = length xs \<longleftrightarrow> distinct xs"
  by (metis distinct_card card_distinct distinct_torch_unique set_torch_unique)

lemma argmax_from_cases:
  "argmax_from best v i xs = best \<or>
   (i \<le> argmax_from best v i xs \<and> argmax_from best v i xs < i + length xs)"
proof (induction xs arbitrary: best v i)
  case Nil
  then show ?case by simp
next
  case (Cons x xs)
  show ?case
    using Cons.IH [of i x "Suc i"] Cons.IH [of best v "Suc i"] by auto
qed

lemma argmax_less: "xs \<noteq> [] \<Longrightarrow> argmax xs < length xs"
proof (cases xs)
  case (Cons x ys)
  then show ?thesis using argmax_from_cases [of 0 x 1 ys] by (auto simp: argmax_def)
qed simp

lemma argmax_from_ge:
  "(\<forall>x\<in>set xs. x \<le> (if argmax_from best v i xs = best then v else xs ! (argmax_from best v i xs - i)))
   \<and> v \<le> (if argmax_from best v i xs = best then v else xs ! (argmax_from best v i xs - i))"
  if "best < i"
  using that
proof (induction xs arbitrary: best v i)
  case Nil
  then show ?case by simp
next
  case (Cons x xs)
  note c = argmax_from_cases [of i x "Suc i" xs] argmax_from_cases [of best v "Suc i" xs]
  show ?case
  proof (cases "v < x")
    case True
    with Cons.IH [where best = i and v = x and i = "Suc i"] c(1) Cons.prems show ?thesis
      by (auto simp: nth_Cons' split: if_splits)
  next
    case False
    with Cons.IH [where best = best and v = v and i = "Suc i"] c(2) Cons.prems show ?thesis
      by (auto simp: nth_Cons' split: if_splits)
  qed
qed

lemma argmax_max: "x \<in> set xs \<Longrightarrow> x \<le> xs ! argmax xs"
proof (cases xs)
  case (Cons y ys)
  moreover assume "x \<in> set xs"
  ultimately show ?thesis
    using argmax_from_ge [where best = 0 and v = y and i = 1 and xs = ys] argmax_from_cases [of 0 y 1 ys]
    by (auto simp: argmax_def nth_Cons' split: if_splits)
qed simp

section \<open>Tensors of blocks\<close>

text \<open>\<open>torch.where(m, xs, ys)\<close>; it is also \<open>ys\<close> after \<open>ys[m] = xs[m]\<close>.\<close>

definition torch_where :: "bool list \<Rightarrow> 'a list \<Rightarrow> 'a list \<Rightarrow> 'a list" where
  "torch_where m xs ys = map (\<lambda>(b, x, y). if b then x else y) (zip m (zip xs ys))"

text \<open>A loop over the blocks of a tensor that rewrites each block in place.\<close>

definition for_blocks :: "nat \<Rightarrow> nat \<Rightarrow> (nat \<Rightarrow> 'a list \<Rightarrow> 'a list) \<Rightarrow> 'a list \<Rightarrow> 'a list" where
  "for_blocks n bs f xs = foldl (\<lambda>xs i. put_slice (i * n) (f i (block n i xs)) xs) xs [0..<bs]"

lemma length_torch_where [simp]:
  "length (torch_where m xs ys) = min (length m) (min (length xs) (length ys))"
  by (simp add: torch_where_def)

lemma nth_torch_where [simp]:
  "i < length m \<Longrightarrow> i < length xs \<Longrightarrow> i < length ys \<Longrightarrow> torch_where m xs ys ! i = (if m ! i then xs ! i else ys ! i)"
  by (simp add: torch_where_def)

lemma block_bound: "i < bs \<Longrightarrow> i * n + n \<le> bs * (n::nat)"
  using mult_le_mono1 [of "Suc i" bs n] by simp

lemma length_block_full [simp]: "length xs = bs * n \<Longrightarrow> i < bs \<Longrightarrow> length (block n i xs) = n"
  using block_bound [of i bs n] by (simp add: length_block)

lemma concat_blocks: "length xs = bs * n \<Longrightarrow> concat (map (\<lambda>i. block n i xs) [0..<bs]) = xs"
proof (induction bs arbitrary: xs)
  case (Suc bs)
  have "block n i xs = block n i (take (bs * n) xs)" if "i < bs" for i
    using block_bound [OF that, of n] by (simp add: block_def take_drop min_def)
  then have m: "map (\<lambda>i. block n i xs) [0..<bs] = map (\<lambda>i. block n i (take (bs * n) xs)) [0..<bs]"
    by simp
  have "concat (map (\<lambda>i. block n i xs) [0..<bs]) = take (bs * n) xs"
    unfolding m by (rule Suc.IH) (use Suc.prems in simp)
  then show ?case using Suc.prems by (simp add: block_def [of n bs])
qed simp

lemma length_concat_blocks: "(\<And>i. i < k \<Longrightarrow> length (g i) = n) \<Longrightarrow> length (concat (map g [0..<k])) = k * n"
  by (induction k) auto

lemma block_concat:
  assumes "\<And>i. i < k \<Longrightarrow> length (g i) = n" "j < k"
  shows "block n j (concat (map g [0..<k])) = g j"
  using assms
proof (induction k)
  case (Suc k)
  have l: "length (concat (map g [0..<k])) = k * n" using Suc.prems by (intro length_concat_blocks) auto
  show ?case
  proof (cases "j = k")
    case True
    then show ?thesis using l Suc.prems by (simp add: block_def)
  next
    case False
    then have "j < k" using Suc.prems by simp
    then show ?thesis
      using Suc.IH Suc.prems l block_bound [of j k n] by (simp add: block_def)
  qed
qed simp

lemma for_blocks_concat:
  assumes len: "length xs = bs * n" and f: "\<And>i. i < bs \<Longrightarrow> length (f i (block n i xs)) = n"
  shows "for_blocks n bs f xs = concat (map (\<lambda>i. f i (block n i xs)) [0..<bs])"
proof -
  let ?g = "\<lambda>i. f i (block n i xs)"
  have "foldl (\<lambda>xs i. put_slice (i * n) (f i (block n i xs)) xs) xs [0..<k]
      = concat (map ?g [0..<k]) @ drop (k * n) xs" if "k \<le> bs" for k
    using that
  proof (induction k)
    case (Suc k)
    have l: "length (concat (map ?g [0..<k])) = k * n" using f Suc.prems by (intro length_concat_blocks) auto
    have "block n k (concat (map ?g [0..<k]) @ drop (k * n) xs) = block n k xs"
      using l by (simp add: block_def)
    moreover have "put_slice (k * n) (?g k) (concat (map ?g [0..<k]) @ drop (k * n) xs)
        = concat (map ?g [0..<k]) @ ?g k @ drop (Suc k * n) xs"
      using l f [of k] Suc.prems block_bound [of k bs n] len by (simp add: put_slice_def add.commute)
    ultimately show ?case using Suc by simp
  qed simp
  from this [of bs] show ?thesis using len by (simp add: for_blocks_def)
qed

lemma block_for_blocks:
  assumes "length xs = bs * n" "\<And>i. i < bs \<Longrightarrow> length (f i (block n i xs)) = n" "j < bs"
  shows "block n j (for_blocks n bs f xs) = f j (block n j xs)"
  using for_blocks_concat [where f = f, OF assms(1,2)] block_concat [where g = "\<lambda>i. f i (block n i xs)", OF assms(2,3)]
  by simp

lemma length_for_blocks [simp]: "length (for_blocks n bs f xs) = length xs"
proof -
  have "length (foldl (\<lambda>xs i. put_slice (i * n) (f i (block n i xs)) xs) xs is) = length xs" for "is"
    by (induction "is" arbitrary: xs) auto
  then show ?thesis by (simp add: for_blocks_def)
qed

lemma in_set_blocks: "length xs = bs * n \<Longrightarrow> x \<in> set xs \<longleftrightarrow> (\<exists>i<bs. x \<in> set (block n i xs))"
  by (subst concat_blocks [symmetric, of xs bs n]) auto

lemma block_in_set: "x \<in> set (block n i xs) \<Longrightarrow> x \<in> set xs"
  by (auto simp: block_def dest: in_set_takeD in_set_dropD)

lemma nth_block: "i < bs \<Longrightarrow> length xs = bs * n \<Longrightarrow> q < n \<Longrightarrow> block n i xs ! q = xs ! (i * n + q)"
  using block_bound [of i bs n] by (simp add: block_def)

lemma block_index_neq:
  assumes "i \<noteq> j" "q < n"
  shows "\<not> (i * n \<le> j * n + q \<and> j * n + q < i * n + (n::nat))"
proof (cases "i < j")
  case True
  then have "i * n + n \<le> j * n" by (rule block_bound)
  then show ?thesis by simp
next
  case False
  then have "j < i" using assms(1) by simp
  then have "j * n + n \<le> i * n" by (rule block_bound)
  then show ?thesis using assms(2) by simp
qed

lemma block_put_slice:
  assumes "length xs = bs * n" "i < bs" "j < bs" "length v = n"
  shows "block n j (put_slice (i * n) v xs) = (if j = i then v else block n j xs)"
proof (rule nth_equalityI)
  show "length (block n j (put_slice (i * n) v xs)) = length (if j = i then v else block n j xs)"
    using assms length_block_full [of xs bs n] length_block_full [of "put_slice (i * n) v xs" bs n] by simp
  fix q assume "q < length (block n j (put_slice (i * n) v xs))"
  then have q: "q < n" using assms length_block_full [of "put_slice (i * n) v xs" bs n] by simp
  have "j * n + q < length xs" using block_bound [OF assms(3), of n] q assms(1) by simp
  then show "block n j (put_slice (i * n) v xs) ! q = (if j = i then v else block n j xs) ! q"
    using assms q block_index_neq [of i j q n] nth_block [of j bs xs n q] nth_block [of j bs "put_slice (i * n) v xs" n q]
    by (auto simp: nth_put_slice)
qed

end
