(* ===== verification/KV_Allocator.thy ===== *)
theory KV_Allocator
  imports SGL_Prelude
begin

text \<open>
  The allocators of KV cache slots of \<open>mem_cache/allocator.py\<close>: the token allocator (pages of one
  slot), the paged allocator, the Triton kernels that hand out the slots of an extend or a decode
  batch, and the torch reference \<open>alloc_extend_naive\<close>.

  A record holds what the class keeps; the paged class extends the base class, so the base
  operations are on the record scheme. A tensor of indices is a list of \<open>int\<close>. A kernel is the
  sequence of its programs over one output buffer; a masked-off lane of a load without \<open>other\<close>
  reads an arbitrary value \<open>z\<close>, and a load past the free list (possible only where the caller then
  returns \<open>None\<close>) reads 0.
\<close>

section \<open>State\<close>

record allocator =
  al_size :: int
  page_size :: int
  need_sort :: bool
  free_pages :: "int list"
  release_pages :: "int list"
  is_not_in_free_group :: bool
  free_group :: "int list list"

record paged_allocator = allocator +
  num_pages :: int
  debug_mode :: bool

section \<open>The base class\<close>

definition base_available_size :: "'z allocator_scheme \<Rightarrow> int" where
  "base_available_size s =
     (int (length (free_pages s)) + int (length (release_pages s))) * page_size s"

definition restore_state :: "int list \<times> int list \<Rightarrow> 'z allocator_scheme \<Rightarrow> 'z allocator_scheme" where
  "restore_state st s = s\<lparr>free_pages := fst st, release_pages := snd st\<rparr>"

definition backup_state :: "'z allocator_scheme \<Rightarrow> int list \<times> int list" where
  "backup_state s = (free_pages s, release_pages s)"

definition free_group_begin :: "'z allocator_scheme \<Rightarrow> 'z allocator_scheme" where
  "free_group_begin s = s\<lparr>is_not_in_free_group := False, free_group := []\<rparr>"

text \<open>\<open>self.free\<close> is the method of the subclass.\<close>

definition free_group_end ::
  "(int list \<Rightarrow> 'z allocator_scheme \<Rightarrow> 'z allocator_scheme res)
    \<Rightarrow> 'z allocator_scheme \<Rightarrow> 'z allocator_scheme res" where
  "free_group_end free s =
     (let s = s\<lparr>is_not_in_free_group := True\<rparr>
      in if free_group s \<noteq> [] then free (concat (free_group s)) s else Inr s)"

definition merge_and_sort_free :: "'z allocator_scheme \<Rightarrow> 'z allocator_scheme" where
  "merge_and_sort_free s =
     (if length (release_pages s) > 0
      then s\<lparr>free_pages := sort (free_pages s @ release_pages s), release_pages := []\<rparr>
      else s)"

section \<open>TokenToKVPoolAllocator\<close>

definition tok_clear :: "'z allocator_scheme \<Rightarrow> 'z allocator_scheme" where
  "tok_clear s = s\<lparr>free_pages := [1..al_size s], is_not_in_free_group := True,
     free_group := [], release_pages := []\<rparr>"

definition tok_init :: "int \<Rightarrow> bool \<Rightarrow> allocator" where
  "tok_init sz ns = tok_clear
     \<lparr>al_size = sz, page_size = 1, need_sort = ns, free_pages = [], release_pages = [],
      is_not_in_free_group = True, free_group = []\<rparr>"

definition tok_available_size :: "'z allocator_scheme \<Rightarrow> int" where
  "tok_available_size s = int (length (free_pages s)) + int (length (release_pages s))"

definition tok_alloc ::
  "nat \<Rightarrow> 'z allocator_scheme \<Rightarrow> int list option \<times> 'z allocator_scheme" where
  "tok_alloc need_size s =
     (let s = (if need_sort s \<and> need_size > length (free_pages s)
               then merge_and_sort_free s else s)
      in if need_size > length (free_pages s) then (None, s)
         else (Some (take need_size (free_pages s)),
               s\<lparr>free_pages := drop need_size (free_pages s)\<rparr>))"

definition tok_free :: "int list \<Rightarrow> 'z allocator_scheme \<Rightarrow> 'z allocator_scheme" where
  "tok_free free_index s =
     (if free_index = [] then s
      else if is_not_in_free_group s then
        (if need_sort s then s\<lparr>release_pages := release_pages s @ free_index\<rparr>
         else s\<lparr>free_pages := free_pages s @ free_index\<rparr>)
      else s\<lparr>free_group := free_group s @ [free_index]\<rparr>)"

section \<open>Slots of an extend batch: the torch reference\<close>

text \<open>\<open>(x + page_size - 1) // page_size\<close>.\<close>

definition ceil_div :: "int \<Rightarrow> int \<Rightarrow> int" where
  "ceil_div x y = (x + y - 1) div y"

text \<open>\<open>free_pages[i]\<close> by pointer arithmetic.\<close>

definition tl_load :: "int list \<Rightarrow> int \<Rightarrow> int" where
  "tl_load xs i = (if 0 \<le> i \<and> i < int (length xs) then xs ! nat i else 0)"

text \<open>
  One iteration of the loop over the requests: \<open>start_pos\<close>, \<open>end_pos\<close> are the request's place in
  the output, \<open>start_new_pages\<close>, \<open>end_new_pages\<close> its share of the free pages.
\<close>

definition alloc_extend_naive_step ::
  "int \<Rightarrow> int list \<Rightarrow> int \<Rightarrow> int \<Rightarrow> int \<Rightarrow> int \<Rightarrow> int \<Rightarrow> int \<Rightarrow> int \<Rightarrow> int \<Rightarrow> int list \<Rightarrow> int list" where
  "alloc_extend_naive_step ps free_pgs pre seq last_loc start_pos end_pos start_new_pages
     end_new_pages need_page out =
     (let num1 = min seq (ceil_div pre ps * ps) - pre;
          out1 = (if num1 \<noteq> 0
                  then put_slice (nat start_pos) (map (\<lambda>j. last_loc + 1 + j) [0..num1 - 1]) out
                  else out)
      in if pre + num1 = seq then out1
         else
           let num2 = (seq div ps - ceil_div pre ps) * ps;
               pages = map (\<lambda>p. p * ps) (py_slice start_new_pages (end_new_pages - need_page) free_pgs);
               out2 = (if num2 \<noteq> 0
                       then put_slice (nat (start_pos + num1))
                              (concat (map (\<lambda>p. map (\<lambda>j. p + j) [0..ps - 1]) pages)) out1
                       else out1)
           in if pre + num1 + num2 = seq then out2
              else
                let num3 = seq - seq div ps * ps
                in if num3 \<noteq> 0
                   then put_slice (nat (end_pos - num3))
                          (map (\<lambda>j. tl_load free_pgs (end_new_pages - 1) * ps + j) [0..num3 - 1]) out2
                   else out2)"

definition alloc_extend_naive ::
  "int list \<Rightarrow> int list \<Rightarrow> int list \<Rightarrow> int list \<Rightarrow> int list \<Rightarrow> int \<Rightarrow> int list" where
  "alloc_extend_naive prefix_lens seq_lens last_loc free_pgs out_indices ps =
     (let extend_lens = map2 (-) seq_lens prefix_lens;
          end_pos = cumsum extend_lens;
          start_pos = map2 (-) end_pos extend_lens;
          num_new_pages = map2 (\<lambda>s p. ceil_div s ps - ceil_div p ps) seq_lens prefix_lens;
          num_full_new_pages = map2 (\<lambda>s p. s div ps - ceil_div p ps) seq_lens prefix_lens;
          need_page = map2 (-) num_new_pages num_full_new_pages;
          end_new_pages = cumsum num_new_pages;
          start_new_pages = map2 (-) end_new_pages num_new_pages
      in foldl (\<lambda>out i. alloc_extend_naive_step ps free_pgs (prefix_lens ! i) (seq_lens ! i)
                  (last_loc ! i) (start_pos ! i) (end_pos ! i) (start_new_pages ! i)
                  (end_new_pages ! i) (need_page ! i) out)
           out_indices [0..<length prefix_lens])"

section \<open>The Triton kernels\<close>

text \<open>A masked store of one block of lanes: (index, value, mask) for each lane.\<close>

definition tl_store :: "(int \<times> int \<times> bool) list \<Rightarrow> int list \<Rightarrow> int list" where
  "tl_store lanes out =
     foldl (\<lambda>out (i, v, m). if m \<and> 0 \<le> i \<and> i < int (length out) then out[nat i := v] else out)
       out lanes"

text \<open>\<open>tl.load(ptr + load_offset, mask=load_offset <= pid)\<close>.\<close>

definition lane_load :: "int \<Rightarrow> nat \<Rightarrow> nat \<Rightarrow> int list \<Rightarrow> int list" where
  "lane_load z bs_upper pid xs = map (\<lambda>i. if i \<le> pid then tl_load xs (int i) else z) [0..<bs_upper]"

definition BLOCK_EXTEND :: int where
  "BLOCK_EXTEND = 4096"

definition alloc_extend_kernel ::
  "int \<Rightarrow> int list \<Rightarrow> int list \<Rightarrow> int list \<Rightarrow> int list \<Rightarrow> nat \<Rightarrow> int \<Rightarrow> nat \<Rightarrow> int list \<Rightarrow> int list" where
  "alloc_extend_kernel z pre_lens_ptr seq_lens_ptr last_loc_ptr free_page_ptr bs_upper ps pid out =
     (let seq_lens = lane_load z bs_upper pid seq_lens_ptr;
          pre_lens = lane_load z bs_upper pid pre_lens_ptr;
          extend_lens = map2 (-) seq_lens pre_lens;
          seq_len = tl_load seq_lens_ptr (int pid);
          pre_len = tl_load pre_lens_ptr (int pid);
          extend_len = seq_len - pre_len;
          output_start_loc = sum_list extend_lens - extend_len;
          num_pages_after = map (\<lambda>s. ceil_div s ps) seq_lens;
          num_pages_before = map (\<lambda>p. ceil_div p ps) pre_lens;
          num_new_pages = map2 (-) num_pages_after num_pages_before;
          num_page_start_loc_self = ceil_div seq_len ps - ceil_div pre_len ps;
          new_page_start_loc = sum_list num_new_pages - num_page_start_loc_self;
          last_loc = tl_load last_loc_ptr (int pid);
          num_part1 = min seq_len (ceil_div pre_len ps * ps) - pre_len;
          out1 = tl_store (map (\<lambda>j. (output_start_loc + j, last_loc + 1 + j, j < num_part1))
                             [0..ps - 1]) out
      in if pre_len + num_part1 = seq_len then out1
         else
           let num_part2 = seq_len div ps * ps - ceil_div pre_len ps * ps;
               num_blocks = ceil_div num_part2 BLOCK_EXTEND;
               out2 = foldl (\<lambda>out block_id.
                        tl_store (map (\<lambda>offset_in_block.
                          let offset = block_id * BLOCK_EXTEND + offset_in_block;
                              page_start = tl_load free_page_ptr (new_page_start_loc + offset div ps)
                          in (output_start_loc + num_part1 + offset,
                              page_start * ps + offset mod ps,
                              offset < num_part2)) [0..BLOCK_EXTEND - 1]) out)
                        out1 [0..num_blocks - 1]
           in if pre_len + num_part1 + num_part2 = seq_len then out2
              else
                let num_part3 = seq_len - seq_len div ps * ps;
                    start_loc = tl_load free_page_ptr
                                  (new_page_start_loc + num_page_start_loc_self - 1)
                in tl_store (map (\<lambda>j. (output_start_loc + num_part1 + num_part2 + j,
                                         start_loc * ps + j, j < num_part3)) [0..ps - 1]) out2)"

definition alloc_decode_kernel ::
  "int \<Rightarrow> int list \<Rightarrow> int list \<Rightarrow> int list \<Rightarrow> nat \<Rightarrow> int \<Rightarrow> nat \<Rightarrow> int list \<Rightarrow> int list" where
  "alloc_decode_kernel z seq_lens_ptr last_loc_ptr free_page_ptr bs_upper ps pid out =
     (let seq_lens = lane_load z bs_upper pid seq_lens_ptr;
          pre_lens = map (\<lambda>i. if i \<le> pid then seq_lens ! i - 1 else seq_lens ! i) [0..<bs_upper];
          seq_len = tl_load seq_lens_ptr (int pid);
          pre_len = seq_len - 1;
          num_pages_after = map (\<lambda>s. ceil_div s ps) seq_lens;
          num_pages_before = map (\<lambda>p. ceil_div p ps) pre_lens;
          num_new_pages = map2 (-) num_pages_after num_pages_before;
          num_page_start_loc_self = ceil_div seq_len ps - ceil_div pre_len ps;
          new_page_start_loc = sum_list num_new_pages - num_page_start_loc_self
      in if num_page_start_loc_self = 0
         then tl_store [(int pid, tl_load last_loc_ptr (int pid) + 1, True)] out
         else tl_store [(int pid, tl_load free_page_ptr new_page_start_loc * ps, True)] out)"

text \<open>\<open>kernel[(bs,)](...)\<close>: the programs of the grid, in some order; here by program id.\<close>

definition run_grid :: "(nat \<Rightarrow> int list \<Rightarrow> int list) \<Rightarrow> nat \<Rightarrow> int list \<Rightarrow> int list" where
  "run_grid program bs out = foldl (\<lambda>out pid. program pid out) out [0..<bs]"

section \<open>Helpers of \<open>utils/common.py\<close>\<close>

fun bit_length :: "nat \<Rightarrow> nat" where
  "bit_length n = (if n = 0 then 0 else Suc (bit_length (n div 2)))"

declare bit_length.simps [simp del]

definition next_power_of_2 :: "nat \<Rightarrow> nat" where
  "next_power_of_2 n = (if n > 0 then 2 ^ bit_length (n - 1) else 1)"

definition get_num_new_pages :: "int list \<Rightarrow> int \<Rightarrow> int list option \<Rightarrow> bool \<Rightarrow> int res" where
  "get_num_new_pages seq_lens ps prefix_lens decode =
     (case prefix_lens of
        None \<Rightarrow> py_assert decode (Inr (int (length (filter (\<lambda>s. s mod ps = 1) seq_lens))))
      | Some pre \<Rightarrow>
          if decode then Inr (int (length (filter (\<lambda>s. s mod ps = 1) seq_lens)))
          else Inr (sum_list (map2 (\<lambda>s p. ceil_div s ps - ceil_div p ps) seq_lens pre)))"

section \<open>PagedTokenToKVPoolAllocator\<close>

definition paged_clear :: "'z paged_allocator_scheme \<Rightarrow> 'z paged_allocator_scheme" where
  "paged_clear s = s\<lparr>free_pages := [1..num_pages s], is_not_in_free_group := True,
     free_group := [], release_pages := []\<rparr>"

definition paged_init :: "int \<Rightarrow> int \<Rightarrow> bool \<Rightarrow> bool \<Rightarrow> paged_allocator" where
  "paged_init sz ps ns debug = paged_clear
     \<lparr>al_size = sz, page_size = ps, need_sort = ns, free_pages = [], release_pages = [],
      is_not_in_free_group = True, free_group = [], num_pages = sz div ps, debug_mode = debug\<rparr>"

definition paged_alloc ::
  "nat \<Rightarrow> 'z paged_allocator_scheme \<Rightarrow> (int list option \<times> 'z paged_allocator_scheme) res" where
  "paged_alloc need_size s =
     py_assert (debug_mode s \<longrightarrow> int need_size mod page_size s = 0)
       (let n = nat (int need_size div page_size s);
            s = (if need_sort s \<and> n > length (free_pages s) then merge_and_sort_free s else s)
        in if n > length (free_pages s) then Inr (None, s)
           else
             let out_pages = take n (free_pages s);
                 s' = s\<lparr>free_pages := drop n (free_pages s)\<rparr>;
                 out_indices =
                   concat (map (\<lambda>p. map (\<lambda>j. p * page_size s + j) [0..page_size s - 1]) out_pages)
             in Inr (Some out_indices, s'))"

text \<open>
  \<open>torch.empty\<close> is the parameter \<open>torch_empty\<close>: a buffer of the asked length with unspecified
  contents.
\<close>

definition paged_alloc_extend ::
  "int \<Rightarrow> (nat \<Rightarrow> int list) \<Rightarrow> int list \<Rightarrow> int list \<Rightarrow> int list \<Rightarrow> int list \<Rightarrow> int list \<Rightarrow> nat
    \<Rightarrow> 'z paged_allocator_scheme \<Rightarrow> (int list option \<times> 'z paged_allocator_scheme) res" where
  "paged_alloc_extend z torch_empty prefix_lens prefix_lens_cpu seq_lens seq_lens_cpu last_loc
     extend_num_tokens s =
     py_assert (debug_mode s \<longrightarrow>
         list_all2 (\<lambda>l p. (l + 1) mod page_size s = p mod page_size s) last_loc prefix_lens)
       (let bs = length prefix_lens;
            s = (if need_sort s
                    \<and> int extend_num_tokens div page_size s + int bs + 1 > int (length (free_pages s))
                 then merge_and_sort_free s else s);
            out_indices = run_grid
              (alloc_extend_kernel z prefix_lens seq_lens last_loc (free_pages s)
                 (next_power_of_2 bs) (page_size s)) bs (torch_empty extend_num_tokens)
        in py_assert (debug_mode s \<longrightarrow> length (torch_unique out_indices) = length out_indices)
             (rbind (get_num_new_pages seq_lens_cpu (page_size s) (Some prefix_lens_cpu) False)
               (\<lambda>num_new_pages.
                 if num_new_pages > int (length (free_pages s)) then Inr (None, s)
                 else Inr (Some out_indices,
                           s\<lparr>free_pages := py_from num_new_pages (free_pages s)\<rparr>))))"

definition paged_alloc_decode ::
  "int \<Rightarrow> (nat \<Rightarrow> int list) \<Rightarrow> int list \<Rightarrow> int list \<Rightarrow> int list
    \<Rightarrow> 'z paged_allocator_scheme \<Rightarrow> (int list option \<times> 'z paged_allocator_scheme) res" where
  "paged_alloc_decode z torch_empty seq_lens seq_lens_cpu last_loc s =
     py_assert (debug_mode s \<longrightarrow>
         list_all2 (\<lambda>l q. (l + 2) mod page_size s = q mod page_size s) last_loc seq_lens)
       (let bs = length seq_lens;
            s = (if need_sort s \<and> bs > length (free_pages s) then merge_and_sort_free s else s);
            out_indices = run_grid
              (alloc_decode_kernel z seq_lens last_loc (free_pages s) (next_power_of_2 bs)
                 (page_size s)) bs (torch_empty bs)
        in py_assert (debug_mode s \<longrightarrow> length (torch_unique out_indices) = length out_indices)
             (rbind (get_num_new_pages seq_lens_cpu (page_size s) None True)
               (\<lambda>num_new_pages.
                 if num_new_pages > int (length (free_pages s)) then Inr (None, s)
                 else Inr (Some out_indices,
                           s\<lparr>free_pages := py_from num_new_pages (free_pages s)\<rparr>))))"

definition paged_free ::
  "int list \<Rightarrow> 'z paged_allocator_scheme \<Rightarrow> 'z paged_allocator_scheme res" where
  "paged_free free_index s =
     (if free_index = [] then Inr s
      else
        let s' = (if is_not_in_free_group s then
                    let free_page_indices = torch_unique (map (\<lambda>i. i div page_size s) free_index)
                    in if need_sort s
                       then s\<lparr>release_pages := free_page_indices @ release_pages s\<rparr>
                       else s\<lparr>free_pages := free_page_indices @ free_pages s\<rparr>
                  else s\<lparr>free_group := free_group s @ [free_index]\<rparr>)
        in py_assert (debug_mode s' \<longrightarrow>
             length (torch_unique (free_pages s')) = length (free_pages s')) (Inr s'))"

section \<open>Specification of the extend kernel\<close>

text \<open>
  The slots of positions \<open>pre..<seq\<close> of one request: the rest of its last page, then page by page
  the free pages from \<open>start_page\<close> on.
\<close>

definition req_slots :: "int \<Rightarrow> int list \<Rightarrow> int \<Rightarrow> int \<Rightarrow> int \<Rightarrow> int \<Rightarrow> int list" where
  "req_slots ps free_pgs start_page pre seq last_loc =
     map (\<lambda>p. if p < ceil_div pre ps * ps then last_loc + 1 + (p - pre)
               else tl_load free_pgs (start_page + (p div ps - ceil_div pre ps)) * ps + p mod ps)
       [pre..seq - 1]"

definition new_pages :: "int \<Rightarrow> int \<Rightarrow> int \<Rightarrow> int" where
  "new_pages ps pre seq = ceil_div seq ps - ceil_div pre ps"

text \<open>Where request \<open>i\<close>'s part of the output, and its share of the free pages, begin.\<close>

definition ext_off :: "int list \<Rightarrow> int list \<Rightarrow> nat \<Rightarrow> int" where
  "ext_off seqs pres i = sum_list (take i (map2 (-) seqs pres))"

definition page_off :: "int \<Rightarrow> int list \<Rightarrow> int list \<Rightarrow> nat \<Rightarrow> int" where
  "page_off ps seqs pres i = sum_list (take i (map2 (\<lambda>s p. new_pages ps p s) seqs pres))"

definition extend_slots :: "int \<Rightarrow> int list \<Rightarrow> int list \<Rightarrow> int list \<Rightarrow> int list \<Rightarrow> int list" where
  "extend_slots ps free_pgs pres seqs last_locs =
     concat (map (\<lambda>i. req_slots ps free_pgs (page_off ps seqs pres i) (pres ! i) (seqs ! i)
                        (last_locs ! i)) [0..<length pres])"

text \<open>A batch as the scheduler builds it: one entry per request, and no request shrinks.\<close>

definition extend_batch :: "int list \<Rightarrow> int list \<Rightarrow> int list \<Rightarrow> bool" where
  "extend_batch pres seqs last_locs \<longleftrightarrow>
     length seqs = length pres \<and> length last_locs = length pres
     \<and> list_all2 (\<lambda>p s. 0 \<le> p \<and> p \<le> s) pres seqs"

text \<open>The pages that requests continue to fill (their prefix ends inside a page).\<close>

definition open_pages :: "int \<Rightarrow> int list \<Rightarrow> int list \<Rightarrow> int list" where
  "open_pages ps pres last_locs =
     map (\<lambda>(p, l). l div ps) (filter (\<lambda>(p, l). p mod ps \<noteq> 0) (zip pres last_locs))"

section \<open>Stores of contiguous lanes\<close>

lemma upto_int_upt: "[0..int n - 1] = map int [0..<n]"
  by (induction n) (simp_all add: upto_rec2)

lemma upto_shift: "[a..a + int n - 1] = map (\<lambda>j. a + int j) [0..<n]"
  by (induction n) (simp_all add: upto_rec2)

lemma tl_store_append: "tl_store (xs @ ys) out = tl_store ys (tl_store xs out)"
  by (simp add: tl_store_def)

lemma length_tl_store [simp]: "length (tl_store xs out) = length out"
  by (induction xs arbitrary: out) (auto simp: tl_store_def)

lemma tl_store_masked: "\<forall>(i, v, m)\<in>set xs. \<not> m \<Longrightarrow> tl_store xs out = out"
  by (induction xs arbitrary: out) (auto simp: tl_store_def)

lemma tl_store_all:
  "a + n \<le> length out \<Longrightarrow>
   tl_store (map (\<lambda>j. (int a + int j, f j, True)) [0..<n]) out = put_slice a (map f [0..<n]) out"
proof (induction n)
  case 0
  then show ?case by (simp add: tl_store_def)
next
  case (Suc n)
  then show ?case
    by (simp add: tl_store_append put_slice_append put_slice_Cons)
       (simp add: tl_store_def nat_add_distrib)
qed

lemma tl_store_lanes:
  assumes "n \<le> L" and "a + n \<le> length out"
  shows "tl_store (map (\<lambda>j. (int a + int j, f j, j < n)) [0..<L]) out
     = put_slice a (map f [0..<n]) out"
proof -
  have L: "[0..<L] = [0..<n] @ [n..<L]"
    using assms(1) by (metis le0 le_add_diff_inverse upt_add_eq_append)
  have 1: "map (\<lambda>j. (int a + int j, f j, j < n)) [0..<n]
      = map (\<lambda>j. (int a + int j, f j, True)) [0..<n]"
    by simp
  have 2: "tl_store (map (\<lambda>j. (int a + int j, f j, j < n)) [n..<L]) out' = out'" for out'
    by (rule tl_store_masked) auto
  show ?thesis
    using tl_store_all [OF assms(2)] by (simp only: L map_append tl_store_append 1 2)
qed

lemma tl_store_int_lanes:
  assumes "0 \<le> n" "n \<le> L" "0 \<le> a" "a + n \<le> int (length out)"
  shows "tl_store (map (\<lambda>j. (a + j, f j, j < n)) [0..L - 1]) out
     = put_slice (nat a) (map f [0..n - 1]) out"
proof -
  obtain n' L' a' where eq: "n = int n'" "L = int L'" "a = int a'"
    using assms by (metis nat_0_le order_trans)
  show ?thesis
    using tl_store_lanes [of n' L' a' out "\<lambda>j. f (int j)"] assms
    unfolding eq by (simp add: upto_int_upt comp_def)
qed

lemma foldl_upto_Suc: "foldl g x [0..int (Suc m) - 1] = g (foldl g x [0..int m - 1]) (int m)"
  by (simp add: upto_rec2)

lemma upto_append:
  assumes "0 \<le> a" "0 \<le> b"
  shows "[0..a + b - 1] = [0..a - 1] @ map (\<lambda>i. a + i) [0..b - 1]"
proof -
  obtain a' b' where ab: "a = int a'" "b = int b'"
    using assms by (metis nat_0_le)
  have "map int [a'..<a' + b'] = map (\<lambda>i. int a' + int i) [0..<b']"
    by (intro nth_equalityI) auto
  then show ?thesis
    using upto_int_upt [of "a' + b'"] upto_int_upt [of a'] upto_int_upt [of b']
      upt_add_eq_append [of 0 a' b'] by (simp add: ab comp_def)
qed

lemma tl_store_blocks_upto:
  fixes K :: int
  assumes K: "0 < K" and n: "0 \<le> n" and a: "0 \<le> a" and out: "a + n \<le> int (length out)"
  shows "foldl (\<lambda>out b. tl_store (map (\<lambda>i. (a + (b * K + i), f (b * K + i), b * K + i < n))
             [0..K - 1]) out) out [0..int m - 1]
     = put_slice (nat a) (map f [0..min (int m * K) n - 1]) out" (is "?F m = _")
proof (induction m)
  case 0
  from n show ?case by (simp add: min_def)
next
  case (Suc m)
  let ?o = "put_slice (nat a) (map f [0..min (int m * K) n - 1]) out"
  let ?n = "max 0 (min K (n - int m * K))"
  have mK: "0 \<le> int m * K" using K by simp
  have step: "?F (Suc m) = tl_store (map (\<lambda>i. (a + int m * K + i, f (int m * K + i), i < ?n))
      [0..K - 1]) ?o"
  proof -
    have "map (\<lambda>i. (a + (int m * K + i), f (int m * K + i), int m * K + i < n)) [0..K - 1]
        = map (\<lambda>i. (a + int m * K + i, f (int m * K + i), i < ?n)) [0..K - 1]"
      by (auto simp: algebra_simps)
    then show ?thesis by (simp only: foldl_upto_Suc Suc.IH)
  qed
  show ?case
  proof (cases "n \<le> int m * K")
    case True
    then have "n \<le> int (Suc m) * K" using K by (simp add: algebra_simps)
    moreover have "tl_store (map (\<lambda>i. (a + int m * K + i, f (int m * K + i), i < ?n)) [0..K - 1]) ?o
        = ?o"
      using True by (intro tl_store_masked) auto
    ultimately show ?thesis using True step by (simp add: min_def)
  next
    case False
    have "tl_store (map (\<lambda>i. (a + int m * K + i, f (int m * K + i), i < ?n)) [0..K - 1]) ?o
        = put_slice (nat (a + int m * K)) (map (\<lambda>i. f (int m * K + i)) [0..?n - 1]) ?o"
      using False K n a out mK by (intro tl_store_int_lanes) auto
    also have "\<dots> = put_slice (nat a)
        (map f [0..int m * K - 1] @ map (\<lambda>i. f (int m * K + i)) [0..?n - 1]) out"
      using False a mK by (simp add: put_slice_append nat_add_distrib)
    also have "map f [0..int m * K - 1] @ map (\<lambda>i. f (int m * K + i)) [0..?n - 1]
        = map f [0..min (int (Suc m) * K) n - 1]"
    proof -
      have e: "min (int (Suc m) * K) n = int m * K + ?n"
        using False K by (auto simp: algebra_simps)
      show ?thesis
        unfolding e using upto_append [of "int m * K" ?n] mK by (simp add: comp_def)
    qed
    finally show ?thesis using step by simp
  qed
qed

section \<open>Pages\<close>

lemma ceil_div_bounds:
  fixes x y :: int
  assumes "0 < y"
  shows "x \<le> ceil_div x y * y" "ceil_div x y * y < x + y"
proof -
  have "ceil_div x y * y = x + y - 1 - (x + y - 1) mod y"
    by (simp add: ceil_div_def minus_mod_eq_div_mult)
  moreover have "0 \<le> (x + y - 1) mod y" "(x + y - 1) mod y < y"
    using assms by auto
  ultimately show "x \<le> ceil_div x y * y" "ceil_div x y * y < x + y"
    by auto
qed

lemma ceil_div_mono: "0 < y \<Longrightarrow> x \<le> x' \<Longrightarrow> ceil_div x y \<le> ceil_div x' y"
  by (simp add: ceil_div_def zdiv_mono1)

lemma ceil_div_nonneg: "0 < y \<Longrightarrow> 0 \<le> x \<Longrightarrow> 0 \<le> ceil_div x y"
  by (simp add: ceil_div_def pos_imp_zdiv_nonneg_iff)

lemma ceil_div_eq:
  fixes x y :: int
  assumes "0 < y"
  shows "ceil_div x y = x div y + (if x mod y = 0 then 0 else 1)"
proof -
  have e: "x + y - 1 = (x mod y + y - 1) + x div y * y"
    using div_mult_mod_eq [of x y] by simp
  have "ceil_div x y = x div y + (x mod y + y - 1) div y"
    unfolding ceil_div_def by (subst e) (use assms in simp)
  moreover have "(x mod y + y - 1) div y = (if x mod y = 0 then 0 else 1)"
  proof (cases "x mod y = 0")
    case True
    with assms show ?thesis by simp
  next
    case False
    then have "0 \<le> x mod y - 1" "x mod y - 1 < y"
      using assms pos_mod_sign [of y x] pos_mod_bound [of y x] by linarith+
    moreover have "x mod y + y - 1 = (x mod y - 1) + 1 * y" by simp
    ultimately have "(x mod y + y - 1) div y = (x mod y - 1) div y + 1"
      using assms by (metis div_mult_self1 less_irrefl add.commute)
    with False \<open>0 \<le> x mod y - 1\<close> \<open>x mod y - 1 < y\<close> show ?thesis by simp
  qed
  ultimately show ?thesis by simp
qed

lemma tl_store_blocks:
  fixes K :: int
  assumes "0 < K" "0 \<le> n" "0 \<le> a" "a + n \<le> int (length out)"
  shows "foldl (\<lambda>out b. tl_store (map (\<lambda>i. (a + (b * K + i), f (b * K + i), b * K + i < n))
             [0..K - 1]) out) out [0..ceil_div n K - 1]
     = put_slice (nat a) (map f [0..n - 1]) out"
proof -
  have "ceil_div n K = int (nat (ceil_div n K))"
    using ceil_div_nonneg [OF assms(1,2)] by simp
  moreover have "min (ceil_div n K * K) n = n"
    using ceil_div_bounds(1) [OF assms(1), of n] by simp
  ultimately show ?thesis
    using tl_store_blocks_upto [OF assms, of f "nat (ceil_div n K)"] by simp
qed

lemma upto_append_shift:
  assumes "0 \<le> n" "0 \<le> m"
  shows "[a..a + (n + m) - 1] = [a..a + n - 1] @ [a + n..a + n + m - 1]"
proof -
  have sh: "[b..b + k - 1] = map (\<lambda>i. b + i) [0..k - 1]" if "0 \<le> k" for b k :: int
    using upto_shift [of b "nat k"] upto_int_upt [of "nat k"] that by (simp add: comp_def)
  show ?thesis
    using upto_append [OF assms] sh [of "n + m" a] sh [of n a] sh [of m "a + n"] assms
    by (simp add: comp_def add.assoc)
qed

lemma upto_from_0: "0 \<le> k \<Longrightarrow> [b..b + k - 1] = map (\<lambda>i. b + i) [0..k - 1]" for b k :: int
  using upto_shift [of b "nat k"] upto_int_upt [of "nat k"] by (simp add: comp_def)

text \<open>The three parts the kernels write: old page, full new pages, partial new page.\<close>

lemma req_slots_old_page:
  assumes "0 \<le> pre" "pre \<le> seq" "seq \<le> ceil_div pre ps * ps"
  shows "req_slots ps F st pre seq l = map (\<lambda>j. l + 1 + j) [0..seq - pre - 1]"
proof -
  have "req_slots ps F st pre seq l = map (\<lambda>p. l + 1 + (p - pre)) [pre..pre + (seq - pre) - 1]"
    using assms(3) unfolding req_slots_def by (intro map_cong) auto
  also have "\<dots> = map (\<lambda>j. l + 1 + j) [0..seq - pre - 1]"
    using assms(2) by (subst upto_from_0) (auto simp: comp_def)
  finally show ?thesis .
qed

lemma req_slots_parts:
  assumes ps: "0 < ps" and pre: "0 \<le> pre" and seq: "ceil_div pre ps * ps < seq"
  defines "n1 \<equiv> ceil_div pre ps * ps - pre"
    and "n2 \<equiv> seq div ps * ps - ceil_div pre ps * ps"
    and "n3 \<equiv> seq - seq div ps * ps"
  shows "req_slots ps F st pre seq l =
      map (\<lambda>j. l + 1 + j) [0..n1 - 1]
      @ map (\<lambda>i. tl_load F (st + i div ps) * ps + i mod ps) [0..n2 - 1]
      @ map (\<lambda>j. tl_load F (st + new_pages ps pre seq - 1) * ps + j) [0..n3 - 1]"
    and "0 \<le> n1" "n1 < ps" "0 \<le> n2" "0 \<le> n3" "n3 < ps"
proof -
  let ?c = "ceil_div pre ps" and ?g = "\<lambda>p. if p < ceil_div pre ps * ps then l + 1 + (p - pre)
      else tl_load F (st + (p div ps - ceil_div pre ps)) * ps + p mod ps"
  show n1: "0 \<le> n1" "n1 < ps"
    using ceil_div_bounds [OF ps, of pre] by (auto simp: n1_def)
  have "?c \<le> seq div ps"
    using zdiv_mono1 [of "?c * ps" seq ps] seq ps by simp
  then show n2: "0 \<le> n2"
    using ps by (simp add: n2_def)
  have n3_mod: "n3 = seq mod ps"
    by (simp add: n3_def minus_div_mult_eq_mod)
  then show n3: "0 \<le> n3" "n3 < ps"
    using ps by auto
  have "[pre..seq - 1] = [pre..pre + n1 - 1] @ [?c * ps..?c * ps + n2 - 1]
      @ [seq div ps * ps..seq div ps * ps + n3 - 1]"
    using upto_append_shift [of n1 "n2 + n3" pre] upto_append_shift [of n2 n3 "pre + n1"] n1 n2 n3 seq
    by (simp add: n1_def n2_def n3_def)
  moreover have "map ?g [pre..pre + n1 - 1] = map (\<lambda>j. l + 1 + j) [0..n1 - 1]"
    using n1 by (subst upto_from_0) (auto simp: n1_def)
  moreover have "map ?g [?c * ps..?c * ps + n2 - 1]
      = map (\<lambda>i. tl_load F (st + i div ps) * ps + i mod ps) [0..n2 - 1]"
    using n2 ps by (subst upto_from_0) auto
  moreover have "map ?g [seq div ps * ps..seq div ps * ps + n3 - 1]
      = map (\<lambda>j. tl_load F (st + new_pages ps pre seq - 1) * ps + j) [0..n3 - 1]"
  proof (cases "n3 = 0")
    case False
    then have "ceil_div seq ps = seq div ps + 1"
      using ceil_div_eq [OF ps, of seq] n3_mod by simp
    then have "new_pages ps pre seq - 1 = seq div ps - ?c"
      by (simp add: new_pages_def)
    then have e: "st + new_pages ps pre seq - 1 = st + (seq div ps - ?c)" by simp
    have ge: "\<not> seq div ps * ps + x < ?c * ps" if "0 \<le> x" for x
      using n2 that by (simp add: n2_def)
    show ?thesis
      using n3 ps unfolding e by (subst upto_from_0) (auto simp: ge)
  qed simp
  ultimately show "req_slots ps F st pre seq l =
      map (\<lambda>j. l + 1 + j) [0..n1 - 1]
      @ map (\<lambda>i. tl_load F (st + i div ps) * ps + i mod ps) [0..n2 - 1]
      @ map (\<lambda>j. tl_load F (st + new_pages ps pre seq - 1) * ps + j) [0..n3 - 1]"
    unfolding req_slots_def by (simp only: map_append)
qed

section \<open>One request of an extend batch\<close>

lemma concat_pages:
  assumes ps: "0 < ps" and st: "0 \<le> st" and len: "st + int k \<le> int (length F)"
  shows "concat (map (\<lambda>p. map (\<lambda>j. p + j) [0..ps - 1]) (map (\<lambda>p. p * ps) (take k (drop (nat st) F))))
     = map (\<lambda>i. tl_load F (st + i div ps) * ps + i mod ps) [0..int k * ps - 1]"
  using len
proof (induction k)
  case 0
  then show ?case by simp
next
  case (Suc k)
  have "take (Suc k) (drop (nat st) F) = take k (drop (nat st) F) @ [tl_load F (st + int k)]"
    using Suc.prems st by (simp add: take_Suc_conv_app_nth tl_load_def nat_add_distrib)
  moreover have "[0..int (Suc k) * ps - 1] = [0..int k * ps - 1] @ map (\<lambda>i. int k * ps + i) [0..ps - 1]"
    using upto_append [of "int k * ps" ps] ps by (simp add: algebra_simps)
  moreover have "map (\<lambda>i. tl_load F (st + i div ps) * ps + i mod ps) (map (\<lambda>i. int k * ps + i) [0..ps - 1])
      = map (\<lambda>j. tl_load F (st + int k) * ps + j) [0..ps - 1]"
    using ps by auto
  ultimately show ?case
    using Suc by (simp add: comp_def)
qed

lemma alloc_extend_naive_step_eq:
  assumes ps: "0 < ps" and len: "0 \<le> pre" "pre \<le> seq" and st: "0 \<le> st" "0 \<le> sp"
    and out: "sp + (seq - pre) \<le> int (length out)"
    and pages: "st + new_pages ps pre seq \<le> int (length F)"
  shows "alloc_extend_naive_step ps F pre seq l sp (sp + (seq - pre)) st (st + new_pages ps pre seq)
      (new_pages ps pre seq - (seq div ps - ceil_div pre ps)) out
     = put_slice (nat sp) (req_slots ps F st pre seq l) out"
proof (cases "seq \<le> ceil_div pre ps * ps")
  case True
  then show ?thesis
    using req_slots_old_page [OF len True] len
    by (simp add: alloc_extend_naive_step_def Let_def min_absorb1)
next
  case False
  then have lt: "ceil_div pre ps * ps < seq" by simp
  let ?c = "ceil_div pre ps"
  let ?n1 = "?c * ps - pre" and ?n2 = "seq div ps * ps - ?c * ps" and ?n3 = "seq - seq div ps * ps"
  note parts = req_slots_parts(1) [OF ps len(1) lt, of F st l] req_slots_parts(2-6) [OF ps len(1) lt]
  have min: "min seq (?c * ps) = ?c * ps" using lt by simp
  have n2: "(seq div ps - ?c) * ps = ?n2" by (simp add: algebra_simps)
  have c: "?c \<le> seq div ps"
    using zdiv_mono1 [of "?c * ps" seq ps] lt ps by simp
  have slice: "py_slice st (st + new_pages ps pre seq - (new_pages ps pre seq - (seq div ps - ?c))) F
      = take (nat (seq div ps - ?c)) (drop (nat st) F)"
    using st c by (simp add: slice_simps nat_diff_distrib nat_add_distrib)
  have "seq div ps \<le> ceil_div seq ps" using ceil_div_eq [OF ps, of seq] by simp
  then have mid: "concat (map (\<lambda>p. map (\<lambda>j. p + j) [0..ps - 1])
        (map (\<lambda>p. p * ps) (take (nat (seq div ps - ?c)) (drop (nat st) F))))
      = map (\<lambda>i. tl_load F (st + i div ps) * ps + i mod ps) [0..?n2 - 1]"
    using concat_pages [OF ps st(1), of "nat (seq div ps - ?c)" F] pages c n2
    by (simp add: new_pages_def)
  let ?A = "map (\<lambda>j. l + 1 + j) [0..?n1 - 1]"
  let ?B = "map (\<lambda>i. tl_load F (st + i div ps) * ps + i mod ps) [0..?n2 - 1]"
  let ?C = "map (\<lambda>j. tl_load F (st + new_pages ps pre seq - 1) * ps + j) [0..?n3 - 1]"
  have lA: "length ?A = nat ?n1" and lB: "length ?B = nat ?n2" using parts by simp_all
  have o1: "(if ?n1 \<noteq> 0 then put_slice (nat sp) ?A out else out) = put_slice (nat sp) ?A out"
    by simp
  have o2: "(if ?n2 \<noteq> 0 then put_slice (nat (sp + ?n1)) ?B x else x) = put_slice (nat (sp + ?n1)) ?B x"
    for x :: "int list" by simp
  have "alloc_extend_naive_step ps F pre seq l sp (sp + (seq - pre)) st (st + new_pages ps pre seq)
      (new_pages ps pre seq - (seq div ps - ?c)) out
     = put_slice (nat (sp + (seq - pre) - ?n3)) ?C (put_slice (nat (sp + ?n1)) ?B (put_slice (nat sp) ?A out))"
    unfolding alloc_extend_naive_step_def Let_def min slice mid n2 o1 o2 using lt parts(5) by auto
  also have "\<dots> = put_slice (nat sp) (?A @ ?B @ ?C) out"
  proof -
    have "nat (sp + ?n1) = nat sp + length ?A" and "nat (sp + (seq - pre) - ?n3) = nat sp + length ?A + length ?B"
      using st parts by (simp_all add: lA lB nat_add_distrib flip: nat_add_distrib)
    then show ?thesis by (simp only: put_slice_append)
  qed
  finally show ?thesis using parts(1) by simp
qed

lemma lane_sum:
  fixes f :: "int \<Rightarrow> int"
  assumes "pid < n" "pid < length xs" "pid < length ys"
  shows "sum_list (map2 (-) (map f (lane_load z n pid xs)) (map f (lane_load z n pid ys)))
     = sum_list (take (Suc pid) (map2 (\<lambda>s p. f s - f p) xs ys))"
proof -
  let ?g = "\<lambda>i. f (tl_load xs (int i)) - f (tl_load ys (int i))"
  have suf: "map (\<lambda>i. if i \<le> pid then ?g i else 0) [Suc pid..<n] = map (\<lambda>_. 0) [Suc pid..<n]"
    and pre: "map (\<lambda>i. if i \<le> pid then ?g i else 0) [0..<pid] = map ?g [0..<pid]"
    by auto
  have "map2 (-) (map f (lane_load z n pid xs)) (map f (lane_load z n pid ys))
      = map (\<lambda>i. if i \<le> pid then f (tl_load xs (int i)) - f (tl_load ys (int i)) else 0) [0..<n]"
    by (intro nth_equalityI) (auto simp: lane_load_def)
  also have split: "[0..<n] = [0..<Suc pid] @ [Suc pid..<n]"
    using assms(1) by (metis Suc_leI le0 le_add_diff_inverse upt_add_eq_append)
  finally have "sum_list (map2 (-) (map f (lane_load z n pid xs)) (map f (lane_load z n pid ys)))
      = sum_list (map (\<lambda>i. f (tl_load xs (int i)) - f (tl_load ys (int i))) [0..<Suc pid])"
    by (simp add: pre suf)
  also have "map (\<lambda>i. f (tl_load xs (int i)) - f (tl_load ys (int i))) [0..<Suc pid]
      = take (Suc pid) (map2 (\<lambda>s p. f s - f p) xs ys)"
    using assms by (intro nth_equalityI) (auto simp: tl_load_def simp del: upt_Suc)
  finally show ?thesis .
qed

lemma ext_off_Suc:
  "i < length seqs \<Longrightarrow> i < length pres \<Longrightarrow>
   ext_off seqs pres (Suc i) = ext_off seqs pres i + (seqs ! i - pres ! i)"
  by (simp add: ext_off_def take_Suc_conv_app_nth)

lemma page_off_Suc:
  "i < length seqs \<Longrightarrow> i < length pres \<Longrightarrow>
   page_off ps seqs pres (Suc i) = page_off ps seqs pres i + new_pages ps (pres ! i) (seqs ! i)"
  by (simp add: page_off_def take_Suc_conv_app_nth)

lemma new_pages_nonneg: "0 < ps \<Longrightarrow> pre \<le> seq \<Longrightarrow> 0 \<le> new_pages ps pre seq"
  by (simp add: new_pages_def ceil_div_mono)

lemma tl_load_nth [simp]: "i < length xs \<Longrightarrow> tl_load xs (int i) = xs ! i"
  by (simp add: tl_load_def)

lemma alloc_extend_kernel_eq:
  assumes ps: "0 < ps" and bs: "pid < n" "pid < length pres" "pid < length seqs" "pid < length ls"
    and len: "0 \<le> pres ! pid" "pres ! pid \<le> seqs ! pid"
    and sp: "0 \<le> ext_off seqs pres pid" and out: "ext_off seqs pres (Suc pid) \<le> int (length out)"
  shows "alloc_extend_kernel z pres seqs ls F n ps pid out
     = put_slice (nat (ext_off seqs pres pid))
         (req_slots ps F (page_off ps seqs pres pid) (pres ! pid) (seqs ! pid) (ls ! pid)) out"
proof -
  define pre seq l where "pre = pres ! pid" and "seq = seqs ! pid" and "l = ls ! pid"
  define so st where "so = ext_off seqs pres pid" and "st = page_off ps seqs pres pid"
  have 1: "sum_list (map2 (-) (lane_load z n pid seqs) (lane_load z n pid pres)) - (seq - pre) = so"
    using lane_sum [OF bs(1,3,2), of "\<lambda>x. x"] ext_off_Suc [OF bs(3,2)]
    by (simp add: ext_off_def seq_def pre_def so_def)
  have 2: "sum_list (map2 (-) (map (\<lambda>s. ceil_div s ps) (lane_load z n pid seqs))
      (map (\<lambda>p. ceil_div p ps) (lane_load z n pid pres))) - (ceil_div seq ps - ceil_div pre ps) = st"
    using lane_sum [OF bs(1,3,2), of "\<lambda>x. ceil_div x ps"] page_off_Suc [OF bs(3,2), of ps]
    by (simp add: page_off_def new_pages_def seq_def pre_def st_def)
  have ld: "tl_load seqs (int pid) = seq" "tl_load pres (int pid) = pre" "tl_load ls (int pid) = l"
    using bs by (simp_all add: seq_def pre_def l_def)
  have len': "0 \<le> pre" "pre \<le> seq" and so: "0 \<le> so" and out': "so + (seq - pre) \<le> int (length out)"
    using len sp out ext_off_Suc [OF bs(3,2)] by (simp_all add: pre_def seq_def so_def)
  let ?c = "ceil_div pre ps"
  show ?thesis
  proof (cases "seq \<le> ?c * ps")
    case True
    have "seq - pre \<le> ps" using True ceil_div_bounds(2) [OF ps, of pre] by simp
    then have "tl_store (map (\<lambda>j. (so + j, l + 1 + j, j < seq - pre)) [0..ps - 1]) out
        = put_slice (nat so) (map (\<lambda>j. l + 1 + j) [0..seq - pre - 1]) out"
      using len' so out' by (intro tl_store_int_lanes) auto
    then show ?thesis
      using req_slots_old_page [OF len' True] True
      unfolding alloc_extend_kernel_def Let_def ld 1 2
      by (simp add: min_absorb1 flip: pre_def seq_def l_def so_def st_def)
  next
    case False
    then have lt: "?c * ps < seq" by simp
    let ?n1 = "?c * ps - pre" and ?n2 = "seq div ps * ps - ?c * ps" and ?n3 = "seq - seq div ps * ps"
    note parts = req_slots_parts(1) [OF ps len'(1) lt, of F st l] req_slots_parts(2-6) [OF ps len'(1) lt]
    let ?A = "map (\<lambda>j. l + 1 + j) [0..?n1 - 1]"
    let ?B = "map (\<lambda>i. tl_load F (st + i div ps) * ps + i mod ps) [0..?n2 - 1]"
    let ?C = "map (\<lambda>j. tl_load F (st + new_pages ps pre seq - 1) * ps + j) [0..?n3 - 1]"
    have n2: "0 \<le> so + ?n1 + ?n2" using parts(2,4) so by linarith
    have min: "min seq (?c * ps) = ?c * ps" using lt by simp
    have A: "tl_store (map (\<lambda>j. (so + j, l + 1 + j, j < ?n1)) [0..ps - 1]) out = put_slice (nat so) ?A out"
      using parts so out' lt by (intro tl_store_int_lanes) auto
    have B: "foldl (\<lambda>out b. tl_store (map (\<lambda>i. (so + ?n1 + (b * BLOCK_EXTEND + i),
             tl_load F (st + (b * BLOCK_EXTEND + i) div ps) * ps + (b * BLOCK_EXTEND + i) mod ps,
             b * BLOCK_EXTEND + i < ?n2)) [0..BLOCK_EXTEND - 1]) out) (put_slice (nat so) ?A out)
           [0..ceil_div ?n2 BLOCK_EXTEND - 1]
        = put_slice (nat (so + ?n1)) ?B (put_slice (nat so) ?A out)"
      using parts so out' by (intro tl_store_blocks) (auto simp: BLOCK_EXTEND_def)
    have C: "tl_store (map (\<lambda>j. (so + ?n1 + ?n2 + j,
           tl_load F (st + (ceil_div seq ps - ?c) - 1) * ps + j, j < ?n3)) [0..ps - 1]) x
        = put_slice (nat (so + ?n1 + ?n2)) ?C x" if "length x = length out" for x
      using parts n2 so out' that unfolding new_pages_def by (intro tl_store_int_lanes) auto
    have "alloc_extend_kernel z pres seqs ls F n ps pid out
        = put_slice (nat (so + ?n1 + ?n2)) ?C (put_slice (nat (so + ?n1)) ?B (put_slice (nat so) ?A out))"
      unfolding alloc_extend_kernel_def Let_def ld 1 2 min A B using C lt parts(5) by auto
    also have "\<dots> = put_slice (nat so) (?A @ ?B @ ?C) out"
    proof -
      have "nat (so + ?n1) = nat so + length ?A" and "nat (so + ?n1 + ?n2) = nat so + length ?A + length ?B"
        using so parts by (simp_all add: nat_add_distrib flip: nat_add_distrib)
      then show ?thesis by (simp only: put_slice_append)
    qed
    finally show ?thesis using parts(1) by (simp flip: pre_def seq_def l_def so_def st_def)
  qed
qed

section \<open>The whole batch\<close>

lemma extend_batchD:
  assumes "extend_batch pres seqs ls" "i < length pres"
  shows "i < length seqs" "i < length ls" "0 \<le> pres ! i" "pres ! i \<le> seqs ! i"
  using assms list_all2_nthD [of "\<lambda>p s. 0 \<le> p \<and> p \<le> s" pres seqs i]
  by (simp_all add: extend_batch_def)

lemma ext_off_step:
  assumes "extend_batch pres seqs ls" "i < length pres"
  shows "ext_off seqs pres (Suc i) = ext_off seqs pres i + (seqs ! i - pres ! i)"
    and "0 < ps \<Longrightarrow> page_off ps seqs pres (Suc i) = page_off ps seqs pres i + new_pages ps (pres ! i) (seqs ! i)"
    and "0 < ps \<Longrightarrow> 0 \<le> new_pages ps (pres ! i) (seqs ! i)"
  using extend_batchD [OF assms] assms(2) by (simp_all add: ext_off_Suc page_off_Suc new_pages_nonneg)

lemma off_mono:
  assumes b: "extend_batch pres seqs ls" and ij: "i \<le> j" "j \<le> length pres"
  shows "ext_off seqs pres i \<le> ext_off seqs pres j"
    and "0 < ps \<Longrightarrow> page_off ps seqs pres i \<le> page_off ps seqs pres j"
proof -
  show "ext_off seqs pres i \<le> ext_off seqs pres j"
    using ij
  proof (induction j rule: dec_induct)
    case (step n)
    then show ?case using ext_off_step(1) [OF b, of n] extend_batchD(4) [OF b, of n] by simp
  qed simp
  show "page_off ps seqs pres i \<le> page_off ps seqs pres j" if "0 < ps"
    using ij
  proof (induction j rule: dec_induct)
    case (step n)
    then show ?case using ext_off_step(2,3) [OF b, of n ps] that by simp
  qed simp
qed

lemma off_0 [simp]: "ext_off seqs pres 0 = 0" "page_off ps seqs pres 0 = 0"
  by (simp_all add: ext_off_def page_off_def)

lemma off_nonneg:
  assumes "extend_batch pres seqs ls" "i \<le> length pres"
  shows "0 \<le> ext_off seqs pres i" "0 < ps \<Longrightarrow> 0 \<le> page_off ps seqs pres i"
  using off_mono [OF assms(1) _ assms(2), of 0] by simp_all

lemma length_req_slots: "length (req_slots ps F st pre seq l) = nat (seq - pre)"
  by (simp add: req_slots_def)

lemma length_slots_upto:
  assumes b: "extend_batch pres seqs ls" and "k \<le> length pres"
  shows "length (concat (map (\<lambda>i. req_slots ps F (g i) (pres ! i) (seqs ! i) (ls ! i)) [0..<k]))
     = nat (ext_off seqs pres k)"
  using assms(2)
proof (induction k)
  case (Suc k)
  then show ?case
    using ext_off_step(1) [OF b, of k] extend_batchD [OF b, of k] off_nonneg [OF b, of k]
    by (simp add: length_req_slots nat_add_distrib)
qed simp

lemma run_grid_extend:
  assumes b: "extend_batch pres seqs ls" and ps: "0 < ps" and n: "length pres \<le> n"
    and out: "int (length out) = ext_off seqs pres (length pres)"
  shows "run_grid (alloc_extend_kernel z pres seqs ls F n ps) (length pres) out
     = extend_slots ps F pres seqs ls"
proof -
  let ?f = "\<lambda>i. req_slots ps F (page_off ps seqs pres i) (pres ! i) (seqs ! i) (ls ! i)"
  have "alloc_extend_kernel z pres seqs ls F n ps i x
      = put_slice (length (concat (map ?f [0..<i]))) (?f i) x"
    if "i < length pres" "length x = length out" for i x
  proof -
    have "alloc_extend_kernel z pres seqs ls F n ps i x = put_slice (nat (ext_off seqs pres i)) (?f i) x"
      using that n out extend_batchD [OF b that(1)] off_nonneg(1) [OF b, of i] off_mono(1) [OF b, of "Suc i" "length pres"]
      by (intro alloc_extend_kernel_eq [OF ps]) auto
    then show ?thesis using length_slots_upto [OF b, of i ps F] that(1) by simp
  qed
  then have "run_grid (alloc_extend_kernel z pres seqs ls F n ps) (length pres) out
      = put_slice 0 (extend_slots ps F pres seqs ls) out"
    unfolding run_grid_def extend_slots_def by (intro foldl_put_slices) auto
  moreover have "length (extend_slots ps F pres seqs ls) = length out"
    using length_slots_upto [OF b order_refl] out off_nonneg(1) [OF b order_refl]
    by (simp add: extend_slots_def)
  ultimately show ?thesis by (simp add: put_slice_whole)
qed

lemma bit_length_upper: "n < 2 ^ bit_length n"
proof (induction n rule: bit_length.induct)
  case (1 n)
  then show ?case by (cases "n = 0") (auto simp: bit_length.simps [of n])
qed

lemma next_power_of_2_ge: "n \<le> next_power_of_2 n"
  using bit_length_upper [of "n - 1"] by (auto simp: next_power_of_2_def)

end
