(* ===== verification/KV_Alloc_Correct.thy ===== *)
theory KV_Alloc_Correct
  imports KV_Allocator
begin

text \<open>
  Correctness of the paged KV allocator: the torch reference and the two Triton kernels compute the
  same slots (\<open>extend_slots\<close>), the slots keep the position inside a page, no slot is handed out twice,
  and the pages taken from the free list are exactly the pages the new slots lie in.
\<close>

section \<open>The torch reference\<close>

lemma cumsum_take:
  "i < length xs \<Longrightarrow> cumsum xs ! i = sum_list (take (Suc i) xs)"
  by (simp add: nth_cumsum)

lemma naive_eq_extend_slots:
  assumes b: "extend_batch pres seqs ls" and ps: "0 < ps"
    and out: "int (length out) = ext_off seqs pres (length pres)"
    and pages: "page_off ps seqs pres (length pres) \<le> int (length F)"
  shows "alloc_extend_naive pres seqs ls F out ps = extend_slots ps F pres seqs ls"
proof -
  let ?f = "\<lambda>i. req_slots ps F (page_off ps seqs pres i) (pres ! i) (seqs ! i) (ls ! i)"
  let ?el = "map2 (-) seqs pres" and ?np = "map2 (\<lambda>s p. ceil_div s ps - ceil_div p ps) seqs pres"
  let ?nf = "map2 (\<lambda>s p. s div ps - ceil_div p ps) seqs pres"
  have len: "length seqs = length pres" using b by (simp add: extend_batch_def)
  have "alloc_extend_naive_step ps F (pres ! i) (seqs ! i) (ls ! i)
        (map2 (-) (cumsum ?el) ?el ! i) (cumsum ?el ! i) (map2 (-) (cumsum ?np) ?np ! i)
        (cumsum ?np ! i) (map2 (-) ?np ?nf ! i) x
      = put_slice (length (concat (map ?f [0..<i]))) (?f i) x"
    if i: "i < length pres" and x: "length x = length out" for i x
  proof -
    note d = extend_batchD [OF b i] and st = ext_off_step [OF b i]
    have e: "cumsum ?el ! i = ext_off seqs pres i + (seqs ! i - pres ! i)"
      using st(1) i d by (simp add: cumsum_take ext_off_def)
    have p: "cumsum ?np ! i = page_off ps seqs pres i + new_pages ps (pres ! i) (seqs ! i)"
      using st(2) [OF ps] i d by (simp add: cumsum_take page_off_def new_pages_def)
    have "map2 (-) (cumsum ?el) ?el ! i = ext_off seqs pres i"
      "map2 (-) (cumsum ?np) ?np ! i = page_off ps seqs pres i"
      "map2 (-) ?np ?nf ! i = new_pages ps (pres ! i) (seqs ! i) - (seqs ! i div ps - ceil_div (pres ! i) ps)"
      using e p i d by (simp_all add: new_pages_def)
    moreover have "ext_off seqs pres i + (seqs ! i - pres ! i) \<le> int (length x)"
      "page_off ps seqs pres i + new_pages ps (pres ! i) (seqs ! i) \<le> int (length F)"
      using off_mono(1) [OF b, of "Suc i" "length pres"] off_mono(2) [OF b, of "Suc i" "length pres" ps]
        st ps i x out pages by auto
    ultimately show ?thesis
      using alloc_extend_naive_step_eq [OF ps d(3,4) off_nonneg(2) [OF b _ ps] off_nonneg(1) [OF b]]
        e p i length_slots_upto [OF b, of i ps F] by simp
  qed
  then have "alloc_extend_naive pres seqs ls F out ps = put_slice 0 (extend_slots ps F pres seqs ls) out"
    unfolding alloc_extend_naive_def Let_def extend_slots_def by (intro foldl_put_slices) auto
  moreover have "length (extend_slots ps F pres seqs ls) = length out"
    using length_slots_upto [OF b order_refl] out off_nonneg(1) [OF b order_refl]
    by (simp add: extend_slots_def)
  ultimately show ?thesis by (simp add: put_slice_whole)
qed

section \<open>The decode kernel\<close>

lemma req_slots_one:
  assumes "0 < ps" "1 \<le> seq"
  shows "req_slots ps F st (seq - 1) seq l =
     (if ceil_div seq ps - ceil_div (seq - 1) ps = 0 then [l + 1] else [tl_load F st * ps])"
proof -
  have c: "ceil_div seq ps = (seq - 1) div ps + 1"
    using div_add_self2 [of ps "seq - 1"] assms by (simp add: ceil_div_def algebra_simps)
  show ?thesis
  proof (cases "(seq - 1) mod ps = 0")
    case True
    then have "ceil_div (seq - 1) ps = (seq - 1) div ps" "(seq - 1) div ps * ps = seq - 1"
      using ceil_div_eq [OF assms(1), of "seq - 1"] by auto
    then show ?thesis using True c by (simp add: req_slots_def)
  next
    case False
    then have "ceil_div (seq - 1) ps = (seq - 1) div ps + 1"
      using ceil_div_eq [OF assms(1), of "seq - 1"] by simp
    moreover have "seq - 1 < ((seq - 1) div ps + 1) * ps"
      using div_mult_mod_eq [of "seq - 1" ps] pos_mod_bound [OF assms(1), of "seq - 1"]
      unfolding distrib_right by linarith
    ultimately show ?thesis using c by (simp add: req_slots_def)
  qed
qed

lemma decode_lanes:
  assumes "pid < n" "pid < length seqs"
  shows "map2 (-) (map (\<lambda>s. ceil_div s ps) (lane_load z n pid seqs))
      (map (\<lambda>p. ceil_div p ps)
         (map (\<lambda>i. if i \<le> pid then lane_load z n pid seqs ! i - 1 else lane_load z n pid seqs ! i) [0..<n]))
     = map2 (-) (map (\<lambda>s. ceil_div s ps) (lane_load z n pid seqs))
      (map (\<lambda>p. ceil_div p ps) (lane_load z n pid (map (\<lambda>s. s - 1) seqs)))"
  using assms by (intro nth_equalityI) (auto simp: lane_load_def tl_load_def)

lemma alloc_decode_kernel_eq:
  assumes ps: "0 < ps" and bs: "pid < n" "pid < length seqs" "pid < length ls"
    and seq: "1 \<le> seqs ! pid" and out: "length out = length seqs"
  shows "alloc_decode_kernel z seqs ls F n ps pid out
     = put_slice pid (req_slots ps F (page_off ps seqs (map (\<lambda>s. s - 1) seqs) pid)
          (seqs ! pid - 1) (seqs ! pid) (ls ! pid)) out"
proof -
  let ?pres = "map (\<lambda>s. s - 1) seqs"
  have 1: "sum_list (map2 (-) (map (\<lambda>s. ceil_div s ps) (lane_load z n pid seqs))
      (map (\<lambda>p. ceil_div p ps) (lane_load z n pid ?pres)))
      - (ceil_div (seqs ! pid) ps - ceil_div (seqs ! pid - 1) ps) = page_off ps seqs ?pres pid"
    using lane_sum [OF bs(1,2), of ?pres "\<lambda>x. ceil_div x ps"] page_off_Suc [OF bs(2), of ?pres ps] bs(2)
    by (simp add: page_off_def new_pages_def)
  have st: "tl_store [(int pid, v, True)] out = put_slice pid [v] out" for v
    using out bs(2) by (simp add: tl_store_def put_slice_Cons)
  show ?thesis
    unfolding alloc_decode_kernel_def Let_def decode_lanes [OF bs(1,2)] req_slots_one [OF ps seq]
    using bs 1 by (simp add: st)
qed

lemma run_grid_decode:
  assumes ps: "0 < ps" and len: "length ls = length seqs" and pos: "\<forall>s\<in>set seqs. 1 \<le> s"
    and n: "length seqs \<le> n" and out: "length out = length seqs"
  shows "run_grid (alloc_decode_kernel z seqs ls F n ps) (length seqs) out
     = extend_slots ps F (map (\<lambda>s. s - 1) seqs) seqs ls"
proof -
  let ?pres = "map (\<lambda>s. s - 1) seqs"
  let ?f = "\<lambda>i. req_slots ps F (page_off ps seqs ?pres i) (?pres ! i) (seqs ! i) (ls ! i)"
  have l: "length (concat (map ?f [0..<i])) = i" if "i \<le> length seqs" for i
    using that by (induction i) (auto simp: length_req_slots)
  have "run_grid (alloc_decode_kernel z seqs ls F n ps) (length seqs) out
      = put_slice 0 (extend_slots ps F ?pres seqs ls) out"
    unfolding run_grid_def extend_slots_def length_map
  proof (rule foldl_put_slices [OF _ out])
    fix i x assume i: "i < length seqs" and "length (x :: int list) = length seqs"
    then show "alloc_decode_kernel z seqs ls F n ps i x
        = put_slice (length (concat (map ?f [0..<i]))) (?f i) x"
      using alloc_decode_kernel_eq [OF ps, of i n seqs ls x z F] n len pos l [of i] by simp
  qed
  moreover have "length (extend_slots ps F ?pres seqs ls) = length out"
    using l [of "length seqs"] out by (simp add: extend_slots_def)
  ultimately show ?thesis by (simp add: put_slice_whole)
qed

section \<open>Pages of the slots\<close>

definition slot_at :: "int \<Rightarrow> int list \<Rightarrow> int \<Rightarrow> int \<Rightarrow> int \<Rightarrow> int \<Rightarrow> int" where
  "slot_at ps F st pre l p =
     (if p < ceil_div pre ps * ps then l + 1 + (p - pre)
      else tl_load F (st + (p div ps - ceil_div pre ps)) * ps + p mod ps)"

definition page_at :: "int \<Rightarrow> int list \<Rightarrow> int \<Rightarrow> int \<Rightarrow> int \<Rightarrow> int \<Rightarrow> int" where
  "page_at ps F st pre l p =
     (if p < ceil_div pre ps * ps then l div ps
      else tl_load F (st + (p div ps - ceil_div pre ps)))"

lemma req_slots_slot_at: "req_slots ps F st pre seq l = map (slot_at ps F st pre l) [pre..seq - 1]"
  by (simp add: req_slots_def slot_at_def)

lemma open_page_mod: "0 < ps \<Longrightarrow> pre \<le> p \<Longrightarrow> p < ceil_div pre ps * ps \<Longrightarrow> pre mod ps \<noteq> 0"
  using ceil_div_eq [of ps pre] div_mult_mod_eq [of pre ps] by auto

lemma slot_at_page:
  assumes ps: "0 < ps" and al: "(l + 1) mod ps = pre mod ps" and p: "pre \<le> p"
  shows "slot_at ps F st pre l p mod ps = p mod ps \<and> slot_at ps F st pre l p div ps = page_at ps F st pre l p"
proof (cases "p < ceil_div pre ps * ps")
  case True
  define r where "r = pre mod ps"
  have r: "0 < r" "r < ps"
    using open_page_mod [OF ps p True] pos_mod_sign [OF ps, of pre] pos_mod_bound [OF ps, of pre]
    unfolding r_def by linarith+
  have c: "ceil_div pre ps = pre div ps + 1"
    using ceil_div_eq [OF ps, of pre] r by (simp add: r_def)
  have lt: "r + (p - pre) < ps"
    using True div_mult_mod_eq [of pre ps] unfolding c r_def distrib_right by linarith
  define q where "q = (l + 1) div ps"
  have l: "l + 1 = q * ps + r" using al div_mult_mod_eq [of "l + 1" ps] by (simp add: q_def r_def)
  have "l = q * ps + (r - 1)" using l by simp
  then have ld: "l div ps = q" using r by simp
  have s: "slot_at ps F st pre l p = q * ps + (r + (p - pre))"
    using True l by (simp add: slot_at_def)
  have "slot_at ps F st pre l p mod ps = r + (p - pre)" "slot_at ps F st pre l p div ps = q"
    unfolding s using r p lt by simp_all
  moreover have "p mod ps = r + (p - pre)"
  proof -
    have "p = pre div ps * ps + (r + (p - pre))" using div_mult_mod_eq [of pre ps] by (simp add: r_def)
    then show ?thesis using r p lt by (metis add_nonneg_nonneg diff_ge_0_iff_ge less_imp_le mod_mult_self3 mod_pos_pos_trivial)
  qed
  ultimately show ?thesis using True ld by (simp add: page_at_def)
next
  case False
  then show ?thesis using ps by (simp add: slot_at_def page_at_def)
qed

text \<open>The requests of a batch and their positions, as the allocation lists them.\<close>

definition batch_positions :: "int list \<Rightarrow> int list \<Rightarrow> (nat \<times> int) list" where
  "batch_positions pres seqs =
     concat (map (\<lambda>i. map (Pair i) [pres ! i..seqs ! i - 1]) [0..<length pres])"

lemma set_batch_positions:
  "(i, p) \<in> set (batch_positions pres seqs) \<longleftrightarrow> i < length pres \<and> pres ! i \<le> p \<and> p < seqs ! i"
  by (fastforce simp: batch_positions_def)

lemma distinct_batch_positions: "distinct (batch_positions pres seqs)"
proof -
  have "distinct (concat (map (\<lambda>i. map (Pair i) (h i)) [0..<n]))" if "\<And>i. distinct (h i)"
    for h :: "nat \<Rightarrow> int list" and n
    using that by (induction n) (auto simp: distinct_map inj_on_def)
  then show ?thesis by (simp add: batch_positions_def)
qed

definition batch_slot :: "int \<Rightarrow> int list \<Rightarrow> int list \<Rightarrow> int list \<Rightarrow> int list \<Rightarrow> nat \<times> int \<Rightarrow> int" where
  "batch_slot ps F pres seqs ls =
     (\<lambda>(i, p). slot_at ps F (page_off ps seqs pres i) (pres ! i) (ls ! i) p)"

definition batch_page :: "int \<Rightarrow> int list \<Rightarrow> int list \<Rightarrow> int list \<Rightarrow> int list \<Rightarrow> nat \<times> int \<Rightarrow> int" where
  "batch_page ps F pres seqs ls =
     (\<lambda>(i, p). page_at ps F (page_off ps seqs pres i) (pres ! i) (ls ! i) p)"

lemma extend_slots_positions:
  "extend_slots ps F pres seqs ls = map (batch_slot ps F pres seqs ls) (batch_positions pres seqs)"
  by (simp add: extend_slots_def batch_positions_def batch_slot_def req_slots_slot_at map_concat comp_def)

text \<open>The last slot of a prefix agrees with the prefix length on the place inside the page.\<close>

definition last_locs_aligned :: "int \<Rightarrow> int list \<Rightarrow> int list \<Rightarrow> bool" where
  "last_locs_aligned ps pres ls \<longleftrightarrow> list_all2 (\<lambda>l p. (l + 1) mod ps = p mod ps) ls pres"

lemma batch_slot_page:
  assumes "0 < ps" "last_locs_aligned ps pres ls" "ip \<in> set (batch_positions pres seqs)"
  shows "batch_slot ps F pres seqs ls ip mod ps = snd ip mod ps"
    and "batch_slot ps F pres seqs ls ip div ps = batch_page ps F pres seqs ls ip"
proof -
  obtain i p where ip: "ip = (i, p)" by (cases ip)
  then have i: "i < length pres" "pres ! i \<le> p" using assms(3) by (simp_all add: set_batch_positions)
  have "(ls ! i + 1) mod ps = pres ! i mod ps"
    using assms(2) i(1) list_all2_nthD2 [of _ ls pres i] unfolding last_locs_aligned_def by blast
  from slot_at_page [OF assms(1) this i(2)]
  show "batch_slot ps F pres seqs ls ip mod ps = snd ip mod ps"
    "batch_slot ps F pres seqs ls ip div ps = batch_page ps F pres seqs ls ip"
    by (simp_all add: ip batch_slot_def batch_page_def)
qed

text \<open>Index into the free list of the page a position beyond the open page gets.\<close>

definition free_idx :: "int \<Rightarrow> int list \<Rightarrow> int list \<Rightarrow> nat \<times> int \<Rightarrow> int" where
  "free_idx ps pres seqs = (\<lambda>(i, p). page_off ps seqs pres i + (p div ps - ceil_div (pres ! i) ps))"

lemma free_idx_bounds:
  assumes b: "extend_batch pres seqs ls" and ps: "0 < ps" and i: "i < length pres"
    and p: "ceil_div (pres ! i) ps * ps \<le> p" "p < seqs ! i"
  shows "page_off ps seqs pres i \<le> free_idx ps pres seqs (i, p)"
    and "free_idx ps pres seqs (i, p) < page_off ps seqs pres (Suc i)"
proof -
  have "ceil_div (pres ! i) ps \<le> p div ps"
    using zdiv_mono1 [OF p(1) ps] ps by simp
  moreover have "p div ps < ceil_div (seqs ! i) ps"
  proof -
    have "p < ceil_div (seqs ! i) ps * ps" using ceil_div_bounds(1) [OF ps, of "seqs ! i"] p(2) by simp
    then show ?thesis using ps div_mult_mod_eq [of p ps] pos_mod_sign [OF ps, of p]
      by (smt (verit) mult_less_cancel_right)
  qed
  ultimately show "page_off ps seqs pres i \<le> free_idx ps pres seqs (i, p)"
    "free_idx ps pres seqs (i, p) < page_off ps seqs pres (Suc i)"
    using ext_off_step(2) [OF b i ps] by (simp_all add: free_idx_def new_pages_def)
qed

lemma free_idx_inj:
  assumes b: "extend_batch pres seqs ls" and ps: "0 < ps" and i: "i < length pres" and j: "j < length pres"
    and p: "ceil_div (pres ! i) ps * ps \<le> p" "p < seqs ! i"
    and q: "ceil_div (pres ! j) ps * ps \<le> q" "q < seqs ! j"
    and eq: "free_idx ps pres seqs (i, p) = free_idx ps pres seqs (j, q)"
  shows "i = j \<and> p div ps = q div ps"
proof -
  note bi = free_idx_bounds [OF b ps i p] and bj = free_idx_bounds [OF b ps j q]
  have "i = j"
  proof (rule ccontr)
    assume "i \<noteq> j"
    then consider "Suc i \<le> j" | "Suc j \<le> i" by linarith
    then show False
      using off_mono(2) [OF b, of "Suc i" j ps] off_mono(2) [OF b, of "Suc j" i ps] bi bj eq i j ps
      by cases auto
  qed
  with eq show ?thesis by (simp add: free_idx_def)
qed

lemma distinct_map_filter_nth:
  "distinct (map f (filter P xs)) \<Longrightarrow> i < j \<Longrightarrow> j < length xs \<Longrightarrow> P (xs ! i) \<Longrightarrow> P (xs ! j) \<Longrightarrow>
   f (xs ! i) \<noteq> f (xs ! j)"
proof (induction xs arbitrary: i j)
  case (Cons x xs)
  then obtain j' where j: "j = Suc j'" by (cases j) auto
  show ?case
  proof (cases i)
    case 0
    then have "f (xs ! j') \<in> f ` {y \<in> set xs. P y}" using Cons.prems j by auto
    then show ?thesis using Cons.prems 0 j by auto
  next
    case (Suc i')
    then show ?thesis using Cons.IH [of i' j'] Cons.prems j by (auto split: if_splits)
  qed
qed simp

lemma open_pages_mem:
  assumes "length ls = length pres" "i < length pres" "pres ! i mod ps \<noteq> 0"
  shows "ls ! i div ps \<in> set (open_pages ps pres ls)"
proof -
  have "(pres ! i, ls ! i) \<in> set (zip pres ls)" using assms by (auto simp: set_zip)
  then show ?thesis using assms(3) by (force simp: open_pages_def)
qed

lemma open_pages_inj:
  assumes len: "length ls = length pres" and d: "distinct (open_pages ps pres ls)"
    and i: "i < length pres" "pres ! i mod ps \<noteq> 0" and j: "j < length pres" "pres ! j mod ps \<noteq> 0"
    and eq: "ls ! i div ps = ls ! j div ps"
  shows "i = j"
proof (rule ccontr)
  have *: "ls ! a div ps \<noteq> ls ! b div ps"
    if "a < b" "b < length pres" "pres ! a mod ps \<noteq> 0" "pres ! b mod ps \<noteq> 0" for a b
    using distinct_map_filter_nth [OF d [unfolded open_pages_def], of a b] that len by simp
  assume "i \<noteq> j"
  then show False using * [of i j] * [of j i] i j eq by (auto simp: neq_iff)
qed

lemma batch_page_cases:
  assumes b: "extend_batch pres seqs ls" and ps: "0 < ps"
    and pages: "page_off ps seqs pres (length pres) \<le> int (length F)"
    and ip: "(i, p) \<in> set (batch_positions pres seqs)"
  obtains (open_page) "p < ceil_div (pres ! i) ps * ps" "pres ! i mod ps \<noteq> 0"
      "batch_page ps F pres seqs ls (i, p) = ls ! i div ps"
  | (new_page) k where "ceil_div (pres ! i) ps * ps \<le> p" "free_idx ps pres seqs (i, p) = int k"
      "int k < page_off ps seqs pres (length pres)" "k < length F"
      "batch_page ps F pres seqs ls (i, p) = F ! k"
proof (cases "p < ceil_div (pres ! i) ps * ps")
  case True
  then show ?thesis
    using open_page open_page_mod [OF ps _ True] ip by (simp add: batch_page_def page_at_def set_batch_positions)
next
  case False
  have i: "i < length pres" "p < seqs ! i" using ip by (simp_all add: set_batch_positions)
  let ?k = "free_idx ps pres seqs (i, p)"
  have "0 \<le> ?k" "?k < page_off ps seqs pres (length pres)"
    using free_idx_bounds [OF b ps i(1) _ i(2)] off_nonneg(2) [OF b, of i ps] off_mono(2) [OF b, of "Suc i" "length pres" ps]
      False i ps by auto
  moreover have "batch_page ps F pres seqs ls (i, p) = tl_load F ?k"
    using False by (simp add: batch_page_def page_at_def free_idx_def)
  ultimately show ?thesis
    using new_page [of "nat ?k"] False pages by (simp add: tl_load_def)
qed

lemma distinct_extend_slots:
  assumes b: "extend_batch pres seqs ls" and ps: "0 < ps" and al: "last_locs_aligned ps pres ls"
    and pages: "page_off ps seqs pres (length pres) \<le> int (length F)"
    and d: "distinct (open_pages ps pres ls @ F)"
  shows "distinct (extend_slots ps F pres seqs ls)"
proof -
  have len: "length ls = length pres" using b by (simp add: extend_batch_def)
  have "inj_on (batch_slot ps F pres seqs ls) (set (batch_positions pres seqs))"
  proof (rule inj_onI, clarify)
    fix i p j q
    assume ip: "(i, p) \<in> set (batch_positions pres seqs)" and jq: "(j, q) \<in> set (batch_positions pres seqs)"
      and eq: "batch_slot ps F pres seqs ls (i, p) = batch_slot ps F pres seqs ls (j, q)"
    have pg: "batch_page ps F pres seqs ls (i, p) = batch_page ps F pres seqs ls (j, q)" and m: "p mod ps = q mod ps"
      using batch_slot_page [OF ps al ip, of F] batch_slot_page [OF ps al jq, of F] eq by simp_all
    have I: "i < length pres" "pres ! i \<le> p" "p < seqs ! i" and J: "j < length pres" "pres ! j \<le> q" "q < seqs ! j"
      using ip jq by (simp_all add: set_batch_positions)
    have old: "p = q" if "p < ceil_div (pres ! i) ps * ps" "q < ceil_div (pres ! i) ps * ps" "i = j"
    proof -
      have "slot_at ps F (page_off ps seqs pres i) (pres ! i) (ls ! i) p
          = slot_at ps F (page_off ps seqs pres i) (pres ! i) (ls ! i) q"
        using eq that(3) by (simp add: batch_slot_def)
      then show ?thesis using that by (simp add: slot_at_def)
    qed
    show "i = j \<and> p = q"
      using b ps pages ip
    proof (cases rule: batch_page_cases)
      case ip': open_page
      then have fresh: "ls ! i div ps \<notin> set F" using open_pages_mem [OF len I(1)] d by auto
      show ?thesis
        using b ps pages jq
      proof (cases rule: batch_page_cases)
        case open_page
        have "ls ! i div ps = ls ! j div ps" using ip'(3) open_page(3) pg by metis
        then have ij: "i = j" using d by (intro open_pages_inj [OF len _ I(1) ip'(2) J(1) open_page(2)]) auto
        then have "p = q" using ip'(1) open_page(1) by (intro old) auto
        with ij show ?thesis ..
      next
        case (new_page k)
        then have "ls ! i div ps = F ! k" using ip'(3) pg by metis
        then show ?thesis using fresh nth_mem [OF new_page(4)] by simp
      qed
    next
      case ip': (new_page k)
      show ?thesis
        using b ps pages jq
      proof (cases rule: batch_page_cases)
        case open_page
        then have "ls ! j div ps \<notin> set F" using open_pages_mem [OF len J(1)] d by auto
        moreover have "ls ! j div ps = F ! k" using open_page(3) ip'(5) pg by metis
        ultimately show ?thesis using nth_mem [OF ip'(4)] by simp
      next
        case (new_page k')
        then have "F ! k = F ! k'" using ip'(5) pg by metis
        then have "k = k'" using ip'(4) new_page(4) d by (simp add: nth_eq_iff_index_eq)
        then have "free_idx ps pres seqs (i, p) = free_idx ps pres seqs (j, q)"
          using ip'(2) new_page(2) by metis
        then have "i = j \<and> p div ps = q div ps"
          by (rule free_idx_inj [OF b ps I(1) J(1) ip'(1) I(3) new_page(1) J(3)])
        then show ?thesis using m div_mult_mod_eq [of p ps] div_mult_mod_eq [of q ps] by metis
      qed
    qed
  qed
  then show ?thesis
    using distinct_batch_positions by (simp add: extend_slots_positions distinct_map)
qed

lemma page_interval:
  assumes "0 \<le> k" "k < page_off ps seqs pres n"
  obtains i where "i < n" "page_off ps seqs pres i \<le> k" "k < page_off ps seqs pres (Suc i)"
  using assms
proof (induction n arbitrary: thesis)
  case (Suc n)
  show ?case
  proof (cases "k < page_off ps seqs pres n")
    case True
    show ?thesis
      by (rule Suc.IH) (use True Suc.prems less_SucI in blast)+
  next
    case False
    then show ?thesis using Suc.prems(1) [of n] Suc.prems(3) by simp
  qed
qed simp

text \<open>The pages of the new slots: the open pages that are continued, and the first free pages.\<close>

lemma extend_slots_pages:
  assumes b: "extend_batch pres seqs ls" and ps: "0 < ps" and al: "last_locs_aligned ps pres ls"
    and pages: "page_off ps seqs pres (length pres) \<le> int (length F)"
  defines "n \<equiv> nat (page_off ps seqs pres (length pres))"
  shows "set (take n F) \<subseteq> (\<lambda>s. s div ps) ` set (extend_slots ps F pres seqs ls)"
    and "(\<lambda>s. s div ps) ` set (extend_slots ps F pres seqs ls)
          \<subseteq> set (take n F) \<union> set (open_pages ps pres ls)"
proof -
  have n: "n \<le> length F" using pages by (simp add: n_def)
  have im: "(\<lambda>s. s div ps) ` set (extend_slots ps F pres seqs ls)
      = batch_page ps F pres seqs ls ` set (batch_positions pres seqs)"
    using batch_slot_page(2) [OF ps al] by (auto simp: extend_slots_positions image_image)
  show "set (take n F) \<subseteq> (\<lambda>s. s div ps) ` set (extend_slots ps F pres seqs ls)"
  proof
    fix x assume "x \<in> set (take n F)"
    then obtain k where k: "k < n" "x = F ! k" using n by (auto simp: in_set_conv_nth)
    then have "int k < page_off ps seqs pres (length pres)" by (simp add: n_def)
    then obtain i where i: "i < length pres" "page_off ps seqs pres i \<le> int k"
      "int k < page_off ps seqs pres (Suc i)"
      by (metis page_interval of_nat_0_le_iff)
    define c where "c = ceil_div (pres ! i) ps + (int k - page_off ps seqs pres i)"
    have "c < ceil_div (seqs ! i) ps"
      using i ext_off_step(2) [OF b i(1) ps] by (simp add: c_def new_pages_def)
    then have "c * ps \<le> (ceil_div (seqs ! i) ps - 1) * ps" using ps by simp
    then have lt: "c * ps < seqs ! i"
      using ceil_div_bounds(2) [OF ps, of "seqs ! i"] by (simp add: left_diff_distrib)
    have ge: "ceil_div (pres ! i) ps * ps \<le> c * ps" using i(2) ps by (simp add: c_def)
    then have pre: "pres ! i \<le> c * ps" using ceil_div_bounds(1) [OF ps, of "pres ! i"] by simp
    have "batch_page ps F pres seqs ls (i, c * ps) = tl_load F (int k)"
      using ge ps by (simp add: batch_page_def page_at_def c_def)
    then have "x = batch_page ps F pres seqs ls (i, c * ps)" using k n by simp
    moreover have "(i, c * ps) \<in> set (batch_positions pres seqs)"
      using i(1) lt pre by (simp add: set_batch_positions)
    ultimately show "x \<in> (\<lambda>s. s div ps) ` set (extend_slots ps F pres seqs ls)"
      unfolding im by blast
  qed
  show "(\<lambda>s. s div ps) ` set (extend_slots ps F pres seqs ls)
      \<subseteq> set (take n F) \<union> set (open_pages ps pres ls)"
  proof -
    have "batch_page ps F pres seqs ls (i, p) \<in> set (take n F) \<union> set (open_pages ps pres ls)"
      if ip: "(i, p) \<in> set (batch_positions pres seqs)" for i p
      using b ps pages ip
    proof (cases rule: batch_page_cases)
      case open_page
      then show ?thesis
        using open_pages_mem [of ls pres i ps] b ip by (simp add: extend_batch_def set_batch_positions)
    next
      case (new_page k)
      then have "k < n" by (simp add: n_def)
      then have "F ! k \<in> set (take n F)" using n by (metis length_take min.absorb2 nth_mem nth_take)
      then show ?thesis using new_page by simp
    qed
    then show ?thesis unfolding im by auto
  qed
qed

section \<open>Pages needed\<close>

lemma new_pages_le: "0 < ps \<Longrightarrow> pre \<le> seq \<Longrightarrow> new_pages ps pre seq \<le> (seq - pre) div ps + 1"
proof -
  assume ps: "0 < ps" and le: "pre \<le> seq"
  have "(ceil_div seq ps - ceil_div pre ps - 1) * ps \<le> seq - pre"
    using ceil_div_bounds [OF ps, of pre] ceil_div_bounds [OF ps, of seq] unfolding left_diff_distrib by linarith
  then have "ceil_div seq ps - ceil_div pre ps - 1 \<le> (seq - pre) div ps"
    using zdiv_mono1 [OF _ ps, of "(ceil_div seq ps - ceil_div pre ps - 1) * ps" "seq - pre"] ps by simp
  then show ?thesis by (simp add: new_pages_def)
qed

lemma page_off_le:
  assumes b: "extend_batch pres seqs ls" and ps: "0 < ps" and k: "k \<le> length pres"
  shows "page_off ps seqs pres k \<le> ext_off seqs pres k div ps + int k"
  using k
proof (induction k)
  case (Suc k)
  have "ext_off seqs pres k div ps + (seqs ! k - pres ! k) div ps
      \<le> (ext_off seqs pres k + (seqs ! k - pres ! k)) div ps"
    using ps div_add1_eq [of "ext_off seqs pres k" "seqs ! k - pres ! k" ps]
    by (simp add: pos_imp_zdiv_nonneg_iff)
  then show ?case
    using Suc ext_off_step [OF b, of k] ps new_pages_le [OF ps, of "pres ! k" "seqs ! k"]
      extend_batchD [OF b, of k] by simp
qed simp

lemma get_num_new_pages_extend:
  assumes "extend_batch pres seqs ls"
  shows "get_num_new_pages seqs ps (Some pres) False = Inr (page_off ps seqs pres (length pres))"
  using assms by (simp add: get_num_new_pages_def page_off_def new_pages_def extend_batch_def)

lemma get_num_new_pages_decode:
  assumes ps: "1 < ps"
  shows "get_num_new_pages seqs ps None True
     = Inr (page_off ps seqs (map (\<lambda>s. s - 1) seqs) (length seqs))"
proof -
  have "ceil_div s ps - ceil_div (s - 1) ps = (if s mod ps = 1 then 1 else 0)" for s
  proof -
    have c: "ceil_div s ps = (s - 1) div ps + 1"
      using div_add_self2 [of ps "s - 1"] ps by (simp add: ceil_div_def algebra_simps)
    have "(s - 1) mod ps = 0 \<longleftrightarrow> s mod ps = 1"
    proof
      assume "(s - 1) mod ps = 0"
      then show "s mod ps = 1" using mod_add_left_eq [of "s - 1" ps 1] ps by simp
    next
      assume "s mod ps = 1"
      then show "(s - 1) mod ps = 0" using mod_diff_left_eq [of s ps 1] by simp
    qed
    then show ?thesis using ceil_div_eq [of ps "s - 1"] c ps by simp
  qed
  then have "sum_list (map2 (\<lambda>s p. new_pages ps p s) seqs (map (\<lambda>s. s - 1) seqs))
      = int (length (filter (\<lambda>s. s mod ps = 1) seqs))"
    by (induction seqs) (auto simp: new_pages_def)
  then show ?thesis by (simp add: get_num_new_pages_def page_off_def py_assert_def)
qed

section \<open>\<open>alloc_extend\<close> and \<open>alloc_decode\<close> of the paged allocator\<close>

text \<open>The state after the merge that \<open>alloc_extend\<close> does when the free list may be too short.\<close>

definition extend_merged :: "int list \<Rightarrow> nat \<Rightarrow> 'z paged_allocator_scheme \<Rightarrow> 'z paged_allocator_scheme" where
  "extend_merged pres n s =
     (if need_sort s \<and> int n div page_size s + int (length pres) + 1 > int (length (free_pages s))
      then merge_and_sort_free s else s)"

lemma merge_and_sort_free_fields [simp]:
  "page_size (merge_and_sort_free s) = page_size s"
  "need_sort (merge_and_sort_free s) = need_sort s"
  "is_not_in_free_group (merge_and_sort_free s) = is_not_in_free_group s"
  "free_group (merge_and_sort_free s) = free_group s"
  "mset (free_pages (merge_and_sort_free s)) = mset (free_pages s) + mset (release_pages s)"
  "set (free_pages (merge_and_sort_free s)) = set (free_pages s) \<union> set (release_pages s)"
  "length (free_pages (merge_and_sort_free s)) = length (free_pages s) + length (release_pages s)"
  "release_pages (merge_and_sort_free s) = []"
  by (auto simp: merge_and_sort_free_def)

lemma merge_and_sort_free_paged [simp]:
  "debug_mode (merge_and_sort_free s) = debug_mode s"
  "num_pages (merge_and_sort_free s) = num_pages s"
  by (auto simp: merge_and_sort_free_def)

lemma merge_and_sort_free_distinct:
  "distinct (xs @ free_pages s @ release_pages s) \<Longrightarrow> distinct (xs @ free_pages (merge_and_sort_free s))"
  by (auto simp: merge_and_sort_free_def)

text \<open>A call of \<open>alloc_extend\<close> as the cache makes it.\<close>

definition extend_call ::
  "(nat \<Rightarrow> int list) \<Rightarrow> int list \<Rightarrow> int list \<Rightarrow> int list \<Rightarrow> nat \<Rightarrow> 'z paged_allocator_scheme \<Rightarrow> bool" where
  "extend_call torch_empty pres seqs ls n s \<longleftrightarrow>
     0 < page_size s \<and> extend_batch pres seqs ls \<and> last_locs_aligned (page_size s) pres ls
     \<and> int n = ext_off seqs pres (length pres) \<and> length (torch_empty n) = n
     \<and> distinct (open_pages (page_size s) pres ls @ free_pages s @ release_pages s)"

lemma extend_merged_fields [simp]:
  "page_size (extend_merged pres n s) = page_size s"
  "debug_mode (extend_merged pres n s) = debug_mode s"
  by (simp_all add: extend_merged_def)

lemma paged_alloc_extend_eq:
  assumes c: "extend_call torch_empty pres seqs ls n s"
  defines "s' \<equiv> extend_merged pres n s"
  defines "k \<equiv> page_off (page_size s) seqs pres (length pres)"
  defines "out \<equiv> extend_slots (page_size s) (free_pages s') pres seqs ls"
  shows "paged_alloc_extend z torch_empty pres pres seqs seqs ls n s
     = py_assert (debug_mode s \<longrightarrow> distinct out)
         (if k > int (length (free_pages s')) then Inr (None, s')
          else Inr (Some out, s'\<lparr>free_pages := drop (nat k) (free_pages s')\<rparr>))"
proof -
  have ps: "0 < page_size s" and b: "extend_batch pres seqs ls" and al: "last_locs_aligned (page_size s) pres ls"
    and n: "int (length (torch_empty n)) = ext_off seqs pres (length pres)"
    using c by (simp_all add: extend_call_def)
  have k0: "0 \<le> k" using off_nonneg(2) [OF b order_refl ps] by (simp add: k_def)
  have s': "page_size s' = page_size s" "debug_mode s' = debug_mode s" by (simp_all add: s'_def)
  have r: "run_grid (alloc_extend_kernel z pres seqs ls (free_pages s') (next_power_of_2 (length pres))
      (page_size s)) (length pres) (torch_empty n) = out"
    using run_grid_extend [OF b ps next_power_of_2_ge n] by (simp add: out_def)
  have g: "get_num_new_pages seqs (page_size s) (Some pres) False = Inr k"
    using get_num_new_pages_extend [OF b] by (simp add: k_def)
  show ?thesis
    unfolding paged_alloc_extend_def Let_def extend_merged_def [symmetric] s'_def [symmetric]
    unfolding s' r g length_torch_unique_iff
    using al by (simp add: last_locs_aligned_def py_assert_def py_from_nat [OF k0])
qed



text \<open>
  C2. A call of \<open>alloc_extend\<close> whose new pages fit in the (merged) free list returns one slot per
  new token; no debug assertion fires, the slots are distinct and lie at the same place of their
  page as their position in the sequence, and the pages taken off the free list are exactly the
  pages of the slots outside the open last pages.
\<close>

theorem paged_alloc_extend_fits:
  assumes c: "extend_call torch_empty pres seqs ls n s"
    and fits: "page_off (page_size s) seqs pres (length pres) \<le> int (length (free_pages (extend_merged pres n s)))"
  shows "\<exists>out s'. paged_alloc_extend z torch_empty pres pres seqs seqs ls n s = Inr (Some out, s')
     \<and> length out = n \<and> distinct out
     \<and> map (\<lambda>x. x mod page_size s) out = map (\<lambda>(i, p). p mod page_size s) (batch_positions pres seqs)
     \<and> (\<lambda>x. x div page_size s) ` set out - set (open_pages (page_size s) pres ls)
        = (set (free_pages s) \<union> set (release_pages s)) - (set (free_pages s') \<union> set (release_pages s'))"
proof -
  let ?ps = "page_size s" and ?m = "extend_merged pres n s"
  let ?k = "nat (page_off ?ps seqs pres (length pres))"
  let ?out = "extend_slots ?ps (free_pages ?m) pres seqs ls"
  have ps: "0 < ?ps" and b: "extend_batch pres seqs ls" and al: "last_locs_aligned ?ps pres ls"
    and n: "int n = ext_off seqs pres (length pres)"
    and d: "distinct (open_pages ?ps pres ls @ free_pages s @ release_pages s)"
    using c by (simp_all add: extend_call_def)
  have dm: "distinct (open_pages ?ps pres ls @ free_pages ?m)"
    and pool: "set (free_pages ?m) \<union> set (release_pages ?m) = set (free_pages s) \<union> set (release_pages s)"
    and disj: "set (free_pages ?m) \<inter> set (release_pages ?m) = {}"
    "set (open_pages ?ps pres ls) \<inter> (set (free_pages ?m) \<union> set (release_pages ?m)) = {}"
    using d merge_and_sort_free_distinct [OF d] by (auto simp: extend_merged_def)
  have dist: "distinct ?out" by (rule distinct_extend_slots [OF b ps al fits dm])
  have "paged_alloc_extend z torch_empty pres pres seqs seqs ls n s
      = Inr (Some ?out, ?m\<lparr>free_pages := drop ?k (free_pages ?m)\<rparr>)"
    using fits dist paged_alloc_extend_eq [OF c] by (simp add: py_assert_def)
  moreover have "length ?out = n"
    using length_slots_upto [OF b order_refl] n by (simp add: extend_slots_def)
  moreover have "map (\<lambda>x. x mod ?ps) ?out = map (\<lambda>(i, p). p mod ?ps) (batch_positions pres seqs)"
    using batch_slot_page(1) [OF ps al] by (auto simp: extend_slots_positions)
  moreover have "(\<lambda>x. x div ?ps) ` set ?out - set (open_pages ?ps pres ls)
      = (set (free_pages s) \<union> set (release_pages s)) - (set (drop ?k (free_pages ?m)) \<union> set (release_pages ?m))"
  proof -
    have "set (free_pages ?m) = set (take ?k (free_pages ?m)) \<union> set (drop ?k (free_pages ?m))"
      by (metis append_take_drop_id set_append)
    moreover have "set (take ?k (free_pages ?m)) \<inter> set (drop ?k (free_pages ?m)) = {}"
      using dm by (simp add: set_take_disj_set_drop_if_distinct)
    ultimately show ?thesis
      using extend_slots_pages [OF b ps al fits] pool disj by blast
  qed
  ultimately show ?thesis using dist by (intro exI) auto
qed

definition demo_paged :: paged_allocator where
  "demo_paged = (paged_init 32 4 True True)\<lparr>free_pages := [2, 5, 6], release_pages := [8, 7]\<rparr>"

theorem paged_alloc_extend_fits_witness:
  "\<exists>out s'. paged_alloc_extend 99 (\<lambda>n. replicate n 0) [0, 5] [0, 5] [6, 13] [6, 13] [-1, 12] 14 demo_paged
       = Inr (Some out, s')
     \<and> length out = 14 \<and> distinct out"
proof -
  have "extend_call (\<lambda>n. replicate n 0) [0, 5] [6, 13] [-1, 12] 14 demo_paged"
    "page_off (page_size demo_paged) [6, 13] [0, 5] (length [0::int, 5])
      \<le> int (length (free_pages (extend_merged [0, 5] 14 demo_paged)))"
    by code_simp+
  from paged_alloc_extend_fits [OF this, of 99] show ?thesis by blast
qed

text \<open>
  C3. \<open>alloc_extend\<close> refuses only when the pool is short of pages: if it returns \<open>None\<close>, the new
  pages of the batch are more than the free and the released pages together (the released pages
  are merged in whenever the free list might not be enough), and no page is lost.
\<close>

theorem paged_alloc_extend_refuses:
  assumes c: "extend_call torch_empty pres seqs ls n s"
    and sorted: "need_sort s \<or> release_pages s = []"
    and r: "paged_alloc_extend z torch_empty pres pres seqs seqs ls n s = Inr (None, s')"
  shows "int (length (free_pages s) + length (release_pages s)) < page_off (page_size s) seqs pres (length pres)
     \<and> mset (free_pages s') + mset (release_pages s') = mset (free_pages s) + mset (release_pages s)"
proof -
  let ?ps = "page_size s" and ?m = "extend_merged pres n s"
  have ps: "0 < ?ps" and b: "extend_batch pres seqs ls" and n: "int n = ext_off seqs pres (length pres)"
    using c by (simp_all add: extend_call_def)
  have short: "int (length (free_pages ?m)) < page_off ?ps seqs pres (length pres)" and s': "s' = ?m"
    using r paged_alloc_extend_eq [OF c] by (auto simp: py_assert_def split: if_splits)
  have "page_off ?ps seqs pres (length pres) \<le> int n div ?ps + int (length pres)"
    using page_off_le [OF b ps order_refl] n by simp
  then have "int (length (free_pages s) + length (release_pages s)) < page_off ?ps seqs pres (length pres)"
    using short sorted by (auto simp: extend_merged_def split: if_splits)
  then show ?thesis by (simp add: s' extend_merged_def)
qed

theorem paged_alloc_extend_refuses_witness:
  "paged_alloc_extend 99 (\<lambda>n. replicate n 0) [0, 0] [0, 0] [2, 2] [2, 2] [-1, -1] 4
       (demo_paged\<lparr>free_pages := [], release_pages := [8], debug_mode := False\<rparr>)
     = Inr (None, demo_paged\<lparr>free_pages := [8], release_pages := [], debug_mode := False\<rparr>)
   \<and> 1 < page_off 4 [2, 2] [0, 0] 2"
proof
  let ?s = "demo_paged\<lparr>free_pages := [], release_pages := [8], debug_mode := False\<rparr>"
  let ?s' = "demo_paged\<lparr>free_pages := [8], release_pages := [], debug_mode := False\<rparr>"
  have c: "extend_call (\<lambda>n. replicate n 0) [0, 0] [2, 2] [-1, -1] 4 ?s" by code_simp
  show r: "paged_alloc_extend 99 (\<lambda>n. replicate n 0) [0, 0] [0, 0] [2, 2] [2, 2] [-1, -1] 4 ?s = Inr (None, ?s')"
    unfolding paged_alloc_extend_eq [OF c] by code_simp
  have "need_sort ?s \<or> release_pages ?s = []" by code_simp
  from paged_alloc_extend_refuses [OF c this r]
  show "1 < page_off 4 [2, 2] [0, 0] 2"
    by (simp add: demo_paged_def paged_init_def paged_clear_def numeral_2_eq_2)
qed

lemma decode_extend_batch:
  assumes "length ls = length seqs" "\<forall>s\<in>set seqs. 1 \<le> s"
  shows "extend_batch (map (\<lambda>s. s - 1) seqs) seqs ls"
  using assms by (auto simp: extend_batch_def list_all2_map1 intro!: list.rel_refl_strong)

lemma decode_aligned:
  "list_all2 (\<lambda>l q. (l + 2) mod ps = q mod ps) ls seqs \<longleftrightarrow> last_locs_aligned ps (map (\<lambda>s. s - 1) seqs) ls"
proof -
  have "(l + 2) mod ps = q mod ps \<longleftrightarrow> (l + 1) mod ps = (q - 1) mod ps" for l q :: int
    by (metis (no_types, opaque_lifting) add.assoc diff_add_cancel mod_add_left_eq mod_diff_left_eq
        add_diff_cancel_right' one_add_one)
  then show ?thesis by (simp add: last_locs_aligned_def list_all2_map2)
qed



end
