(* ===== verification/KV_Pool.thy ===== *)
theory KV_Pool
  imports KV_Alloc_Correct
begin

text \<open>
  The contract between the cache and an allocator of KV slots, as a locale: the operations the cache
  calls (\<open>alloc\<close>, \<open>free\<close>, \<open>free_group_begin\<close>, \<open>free_group_end\<close>), the pages an allocator still owns,
  and the laws every allocator class keeps. Proved once from the laws: in any sequence of calls by
  a client that frees what it was given, the pages are partitioned between the pool and the
  allocations. The token and the paged allocator are the two interpretations.
\<close>

section \<open>A client of an allocator\<close>

datatype pool_op = Op_alloc nat | Op_free nat | Op_group_begin | Op_group_end

text \<open>
  The client's state is the allocator and the allocations it holds. \<open>Op_free i\<close> frees the \<open>i\<close>-th of
  them; a group is opened only outside a group and closed only inside one, as \<open>free_group_begin\<close>
  and \<open>free_group_end\<close> are paired in the scheduler.
\<close>

fun pool_step ::
  "(nat \<Rightarrow> 's \<Rightarrow> (int list option \<times> 's) res) \<Rightarrow> (int list \<Rightarrow> 's \<Rightarrow> 's res) \<Rightarrow> ('s \<Rightarrow> 's) \<Rightarrow>
   ('s \<Rightarrow> 's res) \<Rightarrow> ('s \<Rightarrow> bool) \<Rightarrow> 's \<times> int list list \<Rightarrow> pool_op \<Rightarrow> 's \<times> int list list" where
  "pool_step alloc free fbegin fend in_group (s, held) (Op_alloc n) =
     (case alloc n s of
        Inr (Some xs, s') \<Rightarrow> (s', held @ [xs])
      | Inr (None, s') \<Rightarrow> (s', held)
      | Inl _ \<Rightarrow> (s, held))"
| "pool_step alloc free fbegin fend in_group (s, held) (Op_free i) =
     (if i < length held then
        case free (held ! i) s of
          Inr s' \<Rightarrow> (s', take i held @ drop (Suc i) held)
        | Inl _ \<Rightarrow> (s, held)
      else (s, held))"
| "pool_step alloc free fbegin fend in_group (s, held) Op_group_begin =
     (if in_group s then (s, held) else (fbegin s, held))"
| "pool_step alloc free fbegin fend in_group (s, held) Op_group_end =
     (if in_group s then case fend s of Inr s' \<Rightarrow> (s', held) | Inl _ \<Rightarrow> (s, held) else (s, held))"

definition pool_run ::
  "(nat \<Rightarrow> 's \<Rightarrow> (int list option \<times> 's) res) \<Rightarrow> (int list \<Rightarrow> 's \<Rightarrow> 's res) \<Rightarrow> ('s \<Rightarrow> 's) \<Rightarrow>
   ('s \<Rightarrow> 's res) \<Rightarrow> ('s \<Rightarrow> bool) \<Rightarrow> pool_op list \<Rightarrow> 's \<Rightarrow> 's \<times> int list list" where
  "pool_run alloc free fbegin fend in_group ops s =
     foldl (pool_step alloc free fbegin fend in_group) (s, []) ops"

text \<open>The pages of the allocations \<open>held\<close> and of the pool \<open>P\<close> partition \<open>U\<close>.\<close>

definition partitioned :: "int set list \<Rightarrow> int set \<Rightarrow> int set \<Rightarrow> bool" where
  "partitioned held P U \<longleftrightarrow>
     P \<union> \<Union> (set held) = U \<and> (\<forall>i<length held. held ! i \<inter> P = {})
     \<and> (\<forall>i j. i < j \<and> j < length held \<longrightarrow> held ! i \<inter> held ! j = {})"

lemma partitioned_Nil: "partitioned [] P P"
  by (simp add: partitioned_def)

lemma partitioned_snoc:
  assumes "partitioned held P U" "P = P' \<union> X" "P' \<inter> X = {}"
  shows "partitioned (held @ [X]) P' U"
proof -
  have "\<forall>i j. i < j \<and> j < length (held @ [X]) \<longrightarrow> (held @ [X]) ! i \<inter> (held @ [X]) ! j = {}"
    using assms by (auto simp: partitioned_def nth_append less_Suc_eq)
  then show ?thesis using assms by (auto simp: partitioned_def nth_append less_Suc_eq)
qed

lemma partitioned_remove:
  assumes "partitioned held P U" "k < length held"
  shows "partitioned (take k held @ drop (Suc k) held) (P \<union> held ! k) U"
proof -
  have s: "set held = insert (held ! k) (set (take k held @ drop (Suc k) held))"
    using id_take_nth_drop [OF assms(2)] by (metis Un_insert_right list.simps(15) set_append)
  have nth: "(take k held @ drop (Suc k) held) ! i = held ! (if i < k then i else Suc i)"
    if "i < length held - 1" for i
    using that assms(2) by (auto simp: nth_append)
  have ix: "held ! a \<inter> held ! b = {}" if "a \<noteq> b" "a < length held" "b < length held" for a b
    using that assms(1) unfolding partitioned_def by (metis inf_commute nat_neq_iff)
  have "P \<union> held ! k \<union> \<Union> (set (take k held @ drop (Suc k) held)) = U"
    using assms(1) s by (auto simp: partitioned_def)
  moreover have "(take k held @ drop (Suc k) held) ! i \<inter> (P \<union> held ! k) = {}"
    if "i < length (take k held @ drop (Suc k) held)" for i
  proof -
    let ?i = "if i < k then i else Suc i"
    have i: "?i < length held" "?i \<noteq> k" "i < length held - 1" using that assms(2) by auto
    moreover have "held ! ?i \<inter> P = {}" using assms(1) i(1) unfolding partitioned_def by blast
    ultimately show ?thesis using nth [of i] ix [of ?i k] assms(2) by (simp add: Int_Un_distrib)
  qed
  moreover have "(take k held @ drop (Suc k) held) ! i \<inter> (take k held @ drop (Suc k) held) ! j = {}"
    if "i < j" "j < length (take k held @ drop (Suc k) held)" for i j
  proof -
    let ?f = "\<lambda>i. if i < k then i else Suc i"
    have "?f i < length held" "?f j < length held" "?f i \<noteq> ?f j" "i < length held - 1" "j < length held - 1"
      using that assms(2) by auto
    then show ?thesis using nth [of i] nth [of j] ix [of "?f i" "?f j"] by simp
  qed
  ultimately show ?thesis unfolding partitioned_def by blast
qed

section \<open>The contract\<close>

locale kv_pool =
  fixes alloc :: "nat \<Rightarrow> 's \<Rightarrow> (int list option \<times> 's) res"
    and free :: "int list \<Rightarrow> 's \<Rightarrow> 's res"
    and fbegin :: "'s \<Rightarrow> 's" and fend :: "'s \<Rightarrow> 's res" and in_group :: "'s \<Rightarrow> bool"
    and pages :: "'s \<Rightarrow> int set" and units :: "'s \<Rightarrow> int list \<Rightarrow> int set" and inv :: "'s \<Rightarrow> bool"
  assumes alloc_some: "inv s \<Longrightarrow> alloc n s = Inr (Some xs, s') \<Longrightarrow>
      inv s' \<and> units s' = units s \<and> distinct xs \<and> pages s = pages s' \<union> units s xs \<and> pages s' \<inter> units s xs = {}"
    and alloc_none: "inv s \<Longrightarrow> alloc n s = Inr (None, s') \<Longrightarrow>
      inv s' \<and> units s' = units s \<and> pages s' = pages s"
    and free_ok: "inv s \<Longrightarrow> distinct xs \<Longrightarrow> units s xs \<inter> pages s = {} \<Longrightarrow>
      \<exists>s'. free xs s = Inr s' \<and> inv s' \<and> units s' = units s \<and> pages s' = pages s \<union> units s xs"
    and begin_ok: "inv s \<Longrightarrow> \<not> in_group s \<Longrightarrow>
      inv (fbegin s) \<and> units (fbegin s) = units s \<and> pages (fbegin s) = pages s"
    and end_ok: "inv s \<Longrightarrow> in_group s \<Longrightarrow>
      \<exists>s'. fend s = Inr s' \<and> inv s' \<and> units s' = units s \<and> pages s' = pages s"
begin

lemma step_partition:
  assumes "inv s" "\<forall>xs\<in>set held. distinct xs" "partitioned (map (units s) held) (pages s) U"
    and "pool_step alloc free fbegin fend in_group (s, held) x = (s', held')"
  shows "inv s' \<and> units s' = units s \<and> (\<forall>xs\<in>set held'. distinct xs)
     \<and> partitioned (map (units s) held') (pages s') U"
proof (cases x)
  case (Op_alloc n)
  show ?thesis
  proof (cases "alloc n s")
    case (Inr r)
    then show ?thesis
      using assms Op_alloc alloc_some [OF assms(1), of n] alloc_none [OF assms(1), of n]
      by (cases r; cases "fst r") (auto intro!: partitioned_snoc)
  qed (use assms Op_alloc in simp)
next
  case (Op_free i)
  show ?thesis
  proof (cases "i < length held")
    case True
    have "units s (held ! i) \<inter> pages s = {}" using assms(3) True by (auto simp: partitioned_def)
    then obtain t where "free (held ! i) s = Inr t" "inv t" "units t = units s"
      "pages t = pages s \<union> units s (held ! i)"
      using free_ok [OF assms(1), of "held ! i"] assms(2) True by auto
    moreover have "\<forall>xs\<in>set (take i held @ drop (Suc i) held). distinct xs"
      using assms(2) by (auto dest: in_set_takeD in_set_dropD)
    moreover have "partitioned (map (units s) (take i held @ drop (Suc i) held)) (pages s \<union> units s (held ! i)) U"
      using partitioned_remove [OF assms(3), of i] True by (simp add: take_map drop_map)
    ultimately show ?thesis using assms(4) Op_free True by auto
  qed (use assms Op_free in simp)
next
  case Op_group_begin
  then show ?thesis using assms begin_ok [OF assms(1)] by (auto split: if_splits)
next
  case Op_group_end
  then show ?thesis using assms end_ok [OF assms(1)] by (auto split: if_splits)
qed

lemma run_partition:
  assumes "inv s" and "pool_run alloc free fbegin fend in_group ops s = (s', held)"
  shows "inv s' \<and> units s' = units s \<and> partitioned (map (units s) held) (pages s') (pages s)"
proof -
  have "inv s' \<and> units s' = units s0 \<and> (\<forall>xs\<in>set held. distinct xs) \<and> partitioned (map (units s0) held) (pages s') U"
    if "inv s0" "\<forall>xs\<in>set held0. distinct xs" "partitioned (map (units s0) held0) (pages s0) U"
      "foldl (pool_step alloc free fbegin fend in_group) (s0, held0) ops = (s', held)" for s0 held0 U
    using that
  proof (induction ops arbitrary: s0 held0)
    case (Cons x ops)
    obtain s1 held1 where st: "pool_step alloc free fbegin fend in_group (s0, held0) x = (s1, held1)"
      by fastforce
    show ?case
      using step_partition [OF Cons.prems(1-3) st] Cons.IH [of s1 held1] Cons.prems(4) st by simp
  qed simp
  then show ?thesis
    using assms unfolding pool_run_def by (metis empty_iff empty_set list.simps(8) partitioned_Nil)
qed

end

section \<open>The token allocator\<close>

definition in_free_group :: "'z allocator_scheme \<Rightarrow> bool" where
  "in_free_group s \<longleftrightarrow> \<not> is_not_in_free_group s"

text \<open>What an allocator owns: the free list, the released pages and, inside a group, what waits in it.\<close>

definition pending :: "'z allocator_scheme \<Rightarrow> int list" where
  "pending s = (if in_free_group s then concat (free_group s) else [])"

definition tok_pages :: "'z allocator_scheme \<Rightarrow> int set" where
  "tok_pages s = set (free_pages s @ release_pages s @ pending s)"

definition tok_inv :: "'z allocator_scheme \<Rightarrow> bool" where
  "tok_inv s \<longleftrightarrow> distinct (free_pages s @ release_pages s @ pending s)"

lemma merge_pending [simp]: "pending (merge_and_sort_free s) = pending s"
  by (simp add: pending_def in_free_group_def)

lemma tok_merge:
  assumes "tok_inv s"
  shows "tok_inv (merge_and_sort_free s)" "tok_pages (merge_and_sort_free s) = tok_pages s"
proof -
  have "mset (free_pages (merge_and_sort_free s) @ release_pages (merge_and_sort_free s) @ pending s)
      = mset (free_pages s @ release_pages s @ pending s)"
    by simp
  then show "tok_inv (merge_and_sort_free s)" "tok_pages (merge_and_sort_free s) = tok_pages s"
    using assms unfolding tok_inv_def tok_pages_def merge_pending
    by (metis mset_eq_imp_distinct_iff, metis mset_eq_setD)
qed

lemmas group_defs = in_free_group_def pending_def free_group_begin_def free_group_end_def Let_def

interpretation tok: kv_pool "\<lambda>n s. Inr (tok_alloc n s)" "\<lambda>xs s. Inr (tok_free xs s)"
  free_group_begin "free_group_end (\<lambda>xs s. Inr (tok_free xs s))" in_free_group
  tok_pages "\<lambda>_. set" "tok_inv :: allocator \<Rightarrow> bool"
proof
  fix s s' :: allocator and n xs
  assume inv: "tok_inv s" and a: "Inr (tok_alloc n s) = (Inr (Some xs, s') :: _ res)"
  define m where "m = (if need_sort s \<and> n > length (free_pages s) then merge_and_sort_free s else s)"
  have m: "tok_inv m" "tok_pages m = tok_pages s"
    using inv tok_merge [OF inv] by (simp_all add: m_def)
  have e: "xs = take n (free_pages m)" "s' = m\<lparr>free_pages := drop n (free_pages m)\<rparr>"
    using a by (auto simp: tok_alloc_def Let_def m_def split: if_splits)
  have "free_pages m = xs @ free_pages s'" "release_pages s' = release_pages m" "pending s' = pending m"
    by (simp_all add: e pending_def in_free_group_def)
  with m show "tok_inv s' \<and> set = set \<and> distinct xs \<and> tok_pages s = tok_pages s' \<union> set xs
      \<and> tok_pages s' \<inter> set xs = {}"
    unfolding m(2) [symmetric] by (auto simp: tok_inv_def tok_pages_def)
next
  fix s s' :: allocator and n
  assume inv: "tok_inv s" and "Inr (tok_alloc n s) = (Inr (None, s') :: _ res)"
  then show "tok_inv s' \<and> set = set \<and> tok_pages s' = tok_pages s"
    using tok_merge [OF inv] by (auto simp: tok_alloc_def Let_def split: if_splits)
next
  fix s :: allocator and xs
  assume "tok_inv s" "distinct xs" "set xs \<inter> tok_pages s = {}"
  then show "\<exists>s'. Inr (tok_free xs s) = (Inr s' :: _ res) \<and> tok_inv s' \<and> set = set \<and> tok_pages s' = tok_pages s \<union> set xs"
    by (auto simp: tok_free_def tok_inv_def tok_pages_def pending_def in_free_group_def)
next
  fix s :: allocator
  assume "tok_inv s" "\<not> in_free_group s"
  then show "tok_inv (free_group_begin s) \<and> set = set \<and> tok_pages (free_group_begin s) = tok_pages s"
    by (auto simp: tok_inv_def tok_pages_def group_defs)
next
  fix s :: allocator
  assume "tok_inv s" "in_free_group s"
  then show "\<exists>s'. free_group_end (\<lambda>xs s. Inr (tok_free xs s)) s = Inr s' \<and> tok_inv s' \<and> set = set \<and> tok_pages s' = tok_pages s"
    by (auto simp: tok_free_def tok_inv_def tok_pages_def group_defs)
qed

lemma tok_init_pool: "tok_inv (tok_init sz ns)" "tok_pages (tok_init sz ns) = {1..sz}"
  by (simp_all add: tok_inv_def tok_pages_def tok_init_def tok_clear_def pending_def in_free_group_def)

section \<open>The paged allocator\<close>

definition page_units :: "'z allocator_scheme \<Rightarrow> int list \<Rightarrow> int set" where
  "page_units s xs = (\<lambda>i. i div page_size s) ` set xs"

definition paged_pages :: "'z allocator_scheme \<Rightarrow> int set" where
  "paged_pages s = set (free_pages s) \<union> set (release_pages s) \<union> page_units s (pending s)"

definition paged_inv :: "'z allocator_scheme \<Rightarrow> bool" where
  "paged_inv s \<longleftrightarrow> 0 < page_size s \<and> distinct (free_pages s @ release_pages s)
     \<and> page_units s (pending s) \<inter> (set (free_pages s) \<union> set (release_pages s)) = {}"

lemma page_slots_units:
  assumes "0 < ps"
  shows "(\<lambda>i. i div ps) ` set (concat (map (\<lambda>p. map (\<lambda>j. p * ps + j) [0..ps - 1]) P)) = set P"
proof -
  have "(\<lambda>i. i div ps) ` (\<lambda>j. p * ps + j) ` {0..ps - 1} = {p}" for p
  proof -
    have "(\<lambda>i. i div ps) ` (\<lambda>j. p * ps + j) ` {0..ps - 1} = (\<lambda>_. p) ` {0..ps - 1}"
      unfolding image_image using assms by (intro image_cong) auto
    then show ?thesis using assms by auto
  qed
  then show ?thesis by (simp add: image_UN)
qed

lemma page_slots_distinct:
  assumes "0 < ps" "distinct P"
  shows "distinct (concat (map (\<lambda>p. map (\<lambda>j. p * ps + j) [0..ps - 1]) P))"
  using assms(2)
proof (induction P)
  case (Cons p P)
  let ?A = "map (\<lambda>j. p * ps + j) [0..ps - 1]" and ?B = "concat (map (\<lambda>p. map (\<lambda>j. p * ps + j) [0..ps - 1]) P)"
  have "set ?A \<inter> set ?B = {}"
  proof (intro equals0I)
    fix x assume x: "x \<in> set ?A \<inter> set ?B"
    then have "x \<in> set ?A" by blast
    then obtain j where j: "j \<in> {0..ps - 1}" "x = p * ps + j" by (metis imageE set_map set_upto)
    then have "x div ps = p" using assms(1) by simp
    moreover have "x div ps \<in> set P" using x page_slots_units [OF assms(1), of P] by blast
    ultimately show False using Cons.prems by simp
  qed
  moreover have "distinct ?A" "distinct ?B" using Cons by (simp_all add: distinct_map inj_on_def)
  ultimately show ?case by (simp only: list.map concat.simps distinct_append)
qed simp

lemma paged_merge:
  assumes "paged_inv s"
  shows "paged_inv (merge_and_sort_free s)" "paged_pages (merge_and_sort_free s) = paged_pages s"
  using assms by (auto simp: paged_inv_def paged_pages_def page_units_def merge_and_sort_free_def
      pending_def in_free_group_def)

lemma paged_free_pool:
  assumes inv: "paged_inv s" and d: "page_units s xs \<inter> paged_pages s = {}"
  shows "\<exists>s'. paged_free xs s = Inr s' \<and> paged_inv s' \<and> page_units s' = page_units s
     \<and> paged_pages s' = paged_pages s \<union> page_units s xs"
proof (cases "xs = []")
  case True
  then show ?thesis using inv by (simp add: paged_free_def page_units_def)
next
  case False
  let ?u = "torch_unique (map (\<lambda>i. i div page_size s) xs)"
  have u: "distinct ?u" "set ?u = page_units s xs" by (simp_all add: page_units_def)
  show ?thesis
  proof (cases "is_not_in_free_group s")
    case True
    define s' where "s' = (if need_sort s then s\<lparr>release_pages := ?u @ release_pages s\<rparr>
        else s\<lparr>free_pages := ?u @ free_pages s\<rparr>)"
    have inv': "paged_inv s'" and pg: "paged_pages s' = paged_pages s \<union> page_units s xs"
      and un: "page_units s' = page_units s"
      using inv d True u by (auto simp: s'_def paged_inv_def paged_pages_def pending_def in_free_group_def page_units_def)
    have "paged_free xs s = Inr s'"
      using False True inv' by (simp add: paged_free_def Let_def s'_def py_assert_def length_torch_unique_iff paged_inv_def)
    then show ?thesis using inv' pg un by blast
  next
    case g: False
    define s' where "s' = s\<lparr>free_group := free_group s @ [xs]\<rparr>"
    have f: "free_pages s' = free_pages s" "release_pages s' = release_pages s" "page_size s' = page_size s"
      by (simp_all add: s'_def)
    have un: "page_units s' = page_units s" by (simp add: page_units_def f fun_eq_iff)
    have pd: "page_units s (pending s') = page_units s (pending s) \<union> page_units s xs"
      using g by (auto simp: s'_def pending_def in_free_group_def page_units_def)
    have inv': "paged_inv s'" using inv d unfolding paged_inv_def paged_pages_def un pd f by blast
    have "paged_free xs s = Inr s'"
      using False g inv by (simp add: paged_free_def Let_def s'_def py_assert_def length_torch_unique_iff paged_inv_def)
    moreover have "paged_pages s' = paged_pages s \<union> page_units s xs"
      unfolding paged_pages_def un pd f by blast
    ultimately show ?thesis using inv' un by blast
  qed
qed

lemma paged_alloc_pool:
  assumes inv: "paged_inv s" and a: "paged_alloc n s = Inr (r, s')"
  defines "m \<equiv> (if need_sort s \<and> nat (int n div page_size s) > length (free_pages s)
                then merge_and_sort_free s else s)"
  shows "paged_inv m" "paged_pages m = paged_pages s" "page_units m = page_units s"
    and "r = None \<Longrightarrow> s' = m"
    and "r = Some xs \<Longrightarrow> \<exists>P. free_pages m = P @ free_pages s' \<and> s' = m\<lparr>free_pages := free_pages s'\<rparr>
       \<and> xs = concat (map (\<lambda>p. map (\<lambda>j. p * page_size s + j) [0..page_size s - 1]) P)"
proof -
  show "paged_inv m" "paged_pages m = paged_pages s" "page_units m = page_units s"
    using inv paged_merge [OF inv] by (simp_all add: m_def page_units_def fun_eq_iff)
  have ps: "page_size m = page_size s" by (simp add: m_def)
  have e: "(if nat (int n div page_size s) > length (free_pages m) then (None, m)
      else (Some (concat (map (\<lambda>p. map (\<lambda>j. p * page_size s + j) [0..page_size s - 1])
              (take (nat (int n div page_size s)) (free_pages m)))),
            m\<lparr>free_pages := drop (nat (int n div page_size s)) (free_pages m)\<rparr>)) = (r, s')"
    using a ps by (auto simp: paged_alloc_def Let_def m_def [symmetric] py_assert_def split: if_splits)
  show "r = None \<Longrightarrow> s' = m" using e by (auto split: if_splits)
  show "\<exists>P. free_pages m = P @ free_pages s' \<and> s' = m\<lparr>free_pages := free_pages s'\<rparr>
       \<and> xs = concat (map (\<lambda>p. map (\<lambda>j. p * page_size s + j) [0..page_size s - 1]) P)" if "r = Some xs"
    using e that by (intro exI [of _ "take (nat (int n div page_size s)) (free_pages m)"]) (auto split: if_splits)
qed

interpretation paged: kv_pool paged_alloc paged_free free_group_begin "free_group_end paged_free"
  in_free_group paged_pages page_units "paged_inv :: paged_allocator \<Rightarrow> bool"
proof
  fix s s' :: paged_allocator and n xs
  assume inv: "paged_inv s" and a: "paged_alloc n s = Inr (Some xs, s')"
  define m where "m = (if need_sort s \<and> nat (int n div page_size s) > length (free_pages s)
      then merge_and_sort_free s else s)"
  note p = paged_alloc_pool [OF inv a, folded m_def]
  from p(5) [OF refl] obtain P where P: "free_pages m = P @ free_pages s'"
    "s' = m\<lparr>free_pages := free_pages s'\<rparr>"
    "xs = concat (map (\<lambda>p. map (\<lambda>j. p * page_size s + j) [0..page_size s - 1]) P)"
    by blast
  have ps: "0 < page_size s" "page_size m = page_size s" using inv by (simp_all add: paged_inv_def m_def)
  have xs: "page_units s xs = set P" "distinct xs"
    using page_slots_units [OF ps(1), of P] page_slots_distinct [OF ps(1), of P] P p(1)
    by (simp_all add: page_units_def paged_inv_def)
  have f: "release_pages s' = release_pages m" "pending s' = pending m" "page_size s' = page_size s"
    by (subst P(2), simp add: pending_def in_free_group_def ps)+
  show "paged_inv s' \<and> page_units s' = page_units s \<and> distinct xs \<and> paged_pages s = paged_pages s' \<union> page_units s xs
      \<and> paged_pages s' \<inter> page_units s xs = {}"
    unfolding p(2) [symmetric] xs(1)
    using p(1) xs(2) f ps P(1) by (auto simp: paged_inv_def paged_pages_def page_units_def)
next
  fix s s' :: paged_allocator and n
  assume "paged_inv s" and "paged_alloc n s = Inr (None, s')"
  from paged_alloc_pool [OF this]
  show "paged_inv s' \<and> page_units s' = page_units s \<and> paged_pages s' = paged_pages s" by simp
next
  fix s :: paged_allocator and xs
  assume "paged_inv s" "page_units s xs \<inter> paged_pages s = {}"
  then show "\<exists>s'. paged_free xs s = Inr s' \<and> paged_inv s' \<and> page_units s' = page_units s
     \<and> paged_pages s' = paged_pages s \<union> page_units s xs"
    by (rule paged_free_pool)
next
  fix s :: paged_allocator
  assume "paged_inv s" "\<not> in_free_group s"
  then show "paged_inv (free_group_begin s) \<and> page_units (free_group_begin s) = page_units s
      \<and> paged_pages (free_group_begin s) = paged_pages s"
    by (auto simp: paged_inv_def paged_pages_def page_units_def group_defs)
next
  fix s :: paged_allocator
  assume inv: "paged_inv s" and g: "in_free_group s"
  let ?t = "s\<lparr>is_not_in_free_group := True\<rparr>"
  have t: "paged_inv ?t" "page_units ?t = page_units s" "page_units ?t (concat (free_group s)) \<inter> paged_pages ?t = {}"
    "paged_pages s = paged_pages ?t \<union> page_units ?t (concat (free_group s))"
    using inv g by (auto simp: paged_inv_def paged_pages_def page_units_def pending_def in_free_group_def)
  show "\<exists>s'. free_group_end paged_free s = Inr s' \<and> paged_inv s' \<and> page_units s' = page_units s
      \<and> paged_pages s' = paged_pages s"
  proof (cases "free_group s = []")
    case True
    then show ?thesis using t by (simp add: free_group_end_def Let_def page_units_def)
  next
    case False
    then show ?thesis using paged_free_pool [OF t(1,3)] t(2,4) by (simp add: free_group_end_def Let_def)
  qed
qed

lemma paged_init_pool:
  "0 < ps \<Longrightarrow> paged_inv (paged_init sz ps ns dbg)"
  "paged_pages (paged_init sz ps ns dbg) = {1..sz div ps}"
  "page_units (paged_init sz ps ns dbg) = (\<lambda>xs. (\<lambda>i. i div ps) ` set xs)"
  by (simp_all add: paged_inv_def paged_pages_def paged_init_def paged_clear_def pending_def in_free_group_def
      page_units_def fun_eq_iff)

text \<open>
  C5. The token allocator neither loses nor duplicates a slot: after any sequence of allocations,
  frees of earlier allocations and free groups, the slots \<open>1..size\<close> (never the padding slot 0) are
  partitioned between the allocations still held and the pool.
\<close>

theorem tok_slots_partitioned:
  assumes "pool_run (\<lambda>n s. Inr (tok_alloc n s)) (\<lambda>xs s. Inr (tok_free xs s)) free_group_begin
      (free_group_end (\<lambda>xs s. Inr (tok_free xs s))) in_free_group ops (tok_init sz ns) = (s, held)"
  shows "partitioned (map set held) (tok_pages s) {1..sz}"
  using tok.run_partition [OF tok_init_pool(1) assms] by (simp add: tok_init_pool(2))

theorem tok_slots_partitioned_witness:
  "partitioned (map set [[1, 2], [5, 3, 4]]) {} {1..5}"
proof -
  have "pool_run (\<lambda>n s. Inr (tok_alloc n s)) (\<lambda>xs s. Inr (tok_free xs s)) free_group_begin
      (free_group_end (\<lambda>xs s. Inr (tok_free xs s))) in_free_group
      [Op_alloc 2, Op_alloc 2, Op_group_begin, Op_free 1, Op_alloc 2, Op_group_end, Op_alloc 3] (tok_init 5 False)
     = ((tok_init 5 False)\<lparr>free_pages := [], free_group := [[3, 4]]\<rparr>, [[1, 2], [5, 3, 4]])"
    by code_simp
  from tok_slots_partitioned [OF this] show ?thesis
    by (simp add: tok_pages_def tok_init_def tok_clear_def pending_def in_free_group_def)
qed

text \<open>
  C6. The paged allocator neither loses nor duplicates a page: after any sequence of allocations,
  frees of earlier allocations and free groups, the pages \<open>1..size div page_size\<close> are partitioned
  between the allocations still held (by the pages their slots lie in) and the pool; in
  particular no two allocations share a page.
\<close>

theorem paged_pages_partitioned:
  assumes "0 < ps"
    and "pool_run paged_alloc paged_free free_group_begin (free_group_end paged_free) in_free_group ops
      (paged_init sz ps ns dbg) = (s, held)"
  shows "partitioned (map (\<lambda>xs. (\<lambda>i. i div ps) ` set xs) held) (paged_pages s) {1..sz div ps}"
  using paged.run_partition [OF paged_init_pool(1) [OF assms(1)] assms(2)] by (simp add: paged_init_pool(2,3))

theorem paged_pages_partitioned_witness:
  "partitioned (map (\<lambda>xs. (\<lambda>i. i div 2) ` set xs) [[2, 3], [8, 9]]) {2, 3} {1..4}"
proof -
  have "pool_run paged_alloc paged_free free_group_begin (free_group_end paged_free) in_free_group
      [Op_alloc 2, Op_alloc 4, Op_alloc 2, Op_free 1] (paged_init 8 2 True True)
     = ((paged_init 8 2 True True)\<lparr>free_pages := [], release_pages := [2, 3]\<rparr>, [[2, 3], [8, 9]])"
    by code_simp
  from paged_pages_partitioned [OF _ this] show ?thesis
    by (simp add: paged_pages_def paged_init_def paged_clear_def pending_def in_free_group_def page_units_def)
qed

end
