(* ===== verification/Dllm_Base.thy ===== *)
theory Dllm_Base
  imports SGL_Prelude "HOL-Library.Option_ord"
begin

text \<open>
  What the diffusion decoding algorithms of \<open>dllm/algorithm/\<close> share: the configuration
  (\<open>dllm/config.py\<close>), the base class, and the tensor idioms of a denoising step.

  Logits, probabilities and thresholds are rationals; a confidence is \<open>rat option\<close>, ordered with
  \<open>None\<close> below every number, and \<open>None\<close> is \<open>-inf\<close>. The model is a parameter
  \<open>forward m ids = ((full_logits, can_run_graph), m')\<close>, where \<open>m\<close> is everything a forward pass may
  change (KV cache, graph state); \<open>softmax\<close> and \<open>topk\<close> are parameters too.
\<close>

section \<open>Forward modes\<close>

text \<open>\<open>ForwardMode\<close> of \<open>model_executor/forward_batch_info.py\<close>.\<close>

datatype forward_mode =
    EXTEND | DECODE | MIXED | IDLE | TARGET_VERIFY | DRAFT_EXTEND | DRAFT_EXTEND_V2 | PREBUILT | SPLIT_PREFILL | DLLM_EXTEND

definition is_extend :: "bool \<Rightarrow> forward_mode \<Rightarrow> bool" where
  "is_extend include_draft_extend_v2 mode \<longleftrightarrow>
     mode = EXTEND \<or> mode = MIXED \<or> mode = DRAFT_EXTEND \<or> (include_draft_extend_v2 \<and> mode = DRAFT_EXTEND_V2)
     \<or> mode = TARGET_VERIFY \<or> mode = SPLIT_PREFILL \<or> mode = DLLM_EXTEND"

section \<open>DllmConfig\<close>

text \<open>What \<open>yaml.safe_load\<close> gives for the keys that \<open>config.py\<close> reads.\<close>

record algorithm_config =
  cfg_block_size :: "nat option"
  cfg_max_steps :: "nat option"
  cfg_causal_context :: "bool option"

record server_args =
  dllm_algorithm :: "string option"
  architecture :: string
  dllm_algorithm_config :: "algorithm_config option"
  arg_max_running_requests :: "nat option"
  cuda_graph_bs :: "nat list option"

record dllm_config =
  algorithm :: string
  algorithm_cfg :: algorithm_config
  dc_block_size :: nat
  dc_mask_id :: int
  max_running_requests :: nat
  max_steps :: nat
  causal_context :: bool

definition DLLM_PARAMS :: "(string, nat \<times> int) dict" where
  "DLLM_PARAMS =
     [(''LLaDA2MoeModelLM'', (32, 156895)), (''SDARForCausalLM'', (4, 151669)),
      (''SDARMoeForCausalLM'', (4, 151669)), (''DiffEncoderModel'', (32, 151662)),
      (''MinistralDiffEncoderModel'', (32, 100))]"

definition empty_algorithm_config :: algorithm_config where
  "empty_algorithm_config = \<lparr>cfg_block_size = None, cfg_max_steps = None, cfg_causal_context = None\<rparr>"

definition get_or :: "'a option \<Rightarrow> 'a \<Rightarrow> 'a" where
  "get_or x d = (case x of None \<Rightarrow> d | Some y \<Rightarrow> y)"

text \<open>The bound on running requests when the server does not give one.\<close>

definition default_max_running :: "string \<Rightarrow> nat list option \<Rightarrow> nat \<Rightarrow> nat" where
  "default_max_running alg graph_bs bsz =
     (if alg = ''TiDAR'' then
        let B = bsz * (bsz + 1);
            cg_max_bs = (case graph_bs of Some (b # bs) \<Rightarrow> Max (set (b # bs)) | _ \<Rightarrow> 128);
            max_num_token = cg_max_bs * bsz
        in max 1 (max_num_token div B)
      else 1)"

definition from_server_args :: "server_args \<Rightarrow> dllm_config option res" where
  "from_server_args a =
     (case dllm_algorithm a of
        None \<Rightarrow> Inr None
      | Some alg \<Rightarrow>
          (case dict_get DLLM_PARAMS (architecture a) of
             None \<Rightarrow> Inl RuntimeError
           | Some (block_size0, msk) \<Rightarrow>
               let max_steps0 = block_size0;
                   ac = get_or (dllm_algorithm_config a) empty_algorithm_config;
                   bsz = get_or (cfg_block_size ac) block_size0;
                   steps = get_or (cfg_max_steps ac) max_steps0;
                   cc = get_or (cfg_causal_context ac) False;
                   mrr = (case arg_max_running_requests a of
                            Some r \<Rightarrow> r
                          | None \<Rightarrow> default_max_running alg (cuda_graph_bs a) bsz)
               in Inr (Some \<lparr>algorithm = alg, algorithm_cfg = ac, dc_block_size = bsz, dc_mask_id = msk,
                             max_running_requests = mrr, max_steps = steps, causal_context = cc\<rparr>)))"

section \<open>DllmAlgorithm\<close>

record dllm_alg =
  block_size :: nat
  mask_id :: int

type_synonym logits = "rat list list"
type_synonym 'm forward = "'m \<Rightarrow> int list \<Rightarrow> (logits \<times> bool) \<times> 'm"

definition dllm_alg_init :: "dllm_config \<Rightarrow> dllm_alg" where
  "dllm_alg_init c = \<lparr>block_size = dc_block_size c, mask_id = dc_mask_id c\<rparr>"

section \<open>Idioms of a denoising step\<close>

definition mask_index :: "int \<Rightarrow> int list \<Rightarrow> bool list" where
  "mask_index msk ids = map (\<lambda>t. t = msk) ids"

definition num_masks :: "int \<Rightarrow> int list \<Rightarrow> nat" where
  "num_masks msk ids = length (filter (\<lambda>t. t = msk) ids)"

text \<open>\<open>torch.argmax(logits, dim=-1)\<close> and the softmax probability gathered at it.\<close>

definition argmax_rows :: "logits \<Rightarrow> int list" where
  "argmax_rows l = map (\<lambda>row. int (argmax row)) l"

definition gather_prob :: "(rat list \<Rightarrow> rat list) \<Rightarrow> logits \<Rightarrow> rat list" where
  "gather_prob softmax l = map (\<lambda>row. softmax row ! argmax row) l"

text \<open>\<open>torch.where(mask, p, -np.inf)\<close> and \<open>confidence > threshold\<close>.\<close>

definition confidence :: "bool list \<Rightarrow> rat list \<Rightarrow> rat option list" where
  "confidence m p = map2 (\<lambda>b q. if b then Some q else None) m p"

definition above :: "rat \<Rightarrow> rat option list \<Rightarrow> bool list" where
  "above t c = map (\<lambda>q. Some t < q) c"

text \<open>
  \<open>_, sel = torch.topk(confidence, k=1); transfer[sel] = True\<close> when nothing is above the threshold.
\<close>

definition force_one :: "(rat option list \<Rightarrow> nat \<Rightarrow> nat list) \<Rightarrow> rat option list \<Rightarrow> bool list \<Rightarrow> bool list" where
  "force_one topk c tr = (if True \<in> set tr then tr else foldl (\<lambda>t i. t[i := True]) tr (topk c 1))"

text \<open>
  What \<open>torch.topk\<close> promises: \<open>k\<close> distinct indices, in decreasing order of value, and nothing
  outside is larger. Ties are broken in any way.
\<close>

definition is_topk :: "(rat option list \<Rightarrow> nat \<Rightarrow> nat list) \<Rightarrow> bool" where
  "is_topk topk \<longleftrightarrow>
     (\<forall>c k. k \<le> length c \<longrightarrow>
        length (topk c k) = k \<and> distinct (topk c k) \<and> set (topk c k) \<subseteq> {..<length c}
        \<and> sorted_wrt (\<lambda>i j. c ! j \<le> c ! i) (topk c k)
        \<and> (\<forall>i\<in>set (topk c k). \<forall>j<length c. j \<notin> set (topk c k) \<longrightarrow> c ! j \<le> c ! i))"

text \<open>A topk that breaks ties towards the smaller index.\<close>

definition first_topk :: "rat option list \<Rightarrow> nat \<Rightarrow> nat list" where
  "first_topk c k = take k (rev (sort_key (\<lambda>i. c ! i) (rev [0..<length c])))"

text \<open>A model that gives one row of logits for each input token.\<close>

definition forward_ok :: "'m forward \<Rightarrow> bool" where
  "forward_ok forward \<longleftrightarrow> (\<forall>m ids. length (fst (fst (forward m ids))) = length ids)"

text \<open>A model that never prefers the mask token.\<close>

definition never_mask :: "int \<Rightarrow> 'm forward \<Rightarrow> bool" where
  "never_mask msk forward \<longleftrightarrow> (\<forall>m ids. \<forall>row\<in>set (fst (fst (forward m ids))). int (argmax row) \<noteq> msk)"

section \<open>Lemmas\<close>

lemma length_mask_index [simp]: "length (mask_index msk ids) = length ids"
  by (simp add: mask_index_def)

lemma nth_mask_index [simp]: "i < length ids \<Longrightarrow> mask_index msk ids ! i = (ids ! i = msk)"
  by (simp add: mask_index_def)

lemma in_set_mask_index [simp]: "True \<in> set (mask_index msk ids) \<longleftrightarrow> msk \<in> set ids"
  by (force simp: mask_index_def)

lemma num_masks_0 [simp]: "num_masks msk ids = 0 \<longleftrightarrow> msk \<notin> set ids"
  by (auto simp: num_masks_def filter_empty_conv)

lemma num_masks_le: "num_masks msk ids \<le> length ids"
  by (simp add: num_masks_def)

lemma num_masks_append [simp]: "num_masks msk (xs @ ys) = num_masks msk xs + num_masks msk ys"
  by (simp add: num_masks_def)

lemma num_masks_replicate [simp]: "num_masks msk (replicate k msk) = k"
  by (simp add: num_masks_def)

lemma length_argmax_rows [simp]: "length (argmax_rows l) = length l"
  by (simp add: argmax_rows_def)

lemma length_gather_prob [simp]: "length (gather_prob sm l) = length l"
  by (simp add: gather_prob_def)

lemma length_confidence [simp]: "length (confidence m p) = min (length m) (length p)"
  by (simp add: confidence_def)

lemma nth_confidence [simp]:
  "i < length m \<Longrightarrow> i < length p \<Longrightarrow> confidence m p ! i = (if m ! i then Some (p ! i) else None)"
  by (simp add: confidence_def)

lemma length_above [simp]: "length (above t c) = length c"
  by (simp add: above_def)

lemma nth_above [simp]: "i < length c \<Longrightarrow> above t c ! i = (Some t < c ! i)"
  by (simp add: above_def)

lemma length_force_one [simp]: "length (force_one topk c tr) = length tr"
proof -
  have "length (foldl (\<lambda>t i. t[i := True]) tr is) = length tr" for "is" and tr :: "bool list"
    by (induction "is" arbitrary: tr) auto
  then show ?thesis by (simp add: force_one_def)
qed

lemma is_topk_one:
  assumes "is_topk topk" "c \<noteq> []"
  obtains i where "topk c 1 = [i]" "i < length c" "\<And>j. j < length c \<Longrightarrow> c ! j \<le> c ! i"
proof -
  have k: "1 \<le> length c" using assms(2) by (cases c) auto
  then have "length (topk c 1) = 1" "set (topk c 1) \<subseteq> {..<length c}"
    and m: "\<forall>i\<in>set (topk c 1). \<forall>j<length c. j \<notin> set (topk c 1) \<longrightarrow> c ! j \<le> c ! i"
    using assms(1) unfolding is_topk_def by blast+
  then obtain i where i: "topk c 1 = [i]" "i < length c" by (cases "topk c 1") auto
  have "c ! j \<le> c ! i" if "j < length c" for j
    using m i that by (cases "j = i") auto
  then show ?thesis using that i by blast
qed

text \<open>
  The heart of every algorithm: when something is masked, a masked position is chosen, and only
  masked positions are.
\<close>

lemma force_one_masked:
  assumes topk: "is_topk topk" and len: "length p = length m" and some: "True \<in> set m"
  shows "\<forall>i<length m. force_one topk (confidence m p) (above t (confidence m p)) ! i \<longrightarrow> m ! i"
    and "\<exists>i<length m. force_one topk (confidence m p) (above t (confidence m p)) ! i"
proof -
  let ?c = "confidence m p" and ?a = "above t (confidence m p)"
  have ne: "?c \<noteq> []" using some len by (cases m; cases p) (auto simp: confidence_def)
  obtain i where i: "topk ?c 1 = [i]" "i < length ?c" "\<And>j. j < length ?c \<Longrightarrow> ?c ! j \<le> ?c ! i"
    using is_topk_one [OF topk ne] by metis
  obtain j where j: "j < length m" "m ! j" using some by (auto simp: in_set_conv_nth)
  have "?c ! i \<noteq> None" using i(3) [of j] j len by (cases "?c ! i") auto
  then have mi: "m ! i" using i(2) len by (auto split: if_splits)
  have above: "m ! k" if "k < length m" "?a ! k" for k
    using that len by (auto split: if_splits)
  show "\<forall>k<length m. force_one topk ?c ?a ! k \<longrightarrow> m ! k"
  proof (intro allI impI)
    fix k assume k: "k < length m" "force_one topk ?c ?a ! k"
    then show "m ! k"
      using above [OF k(1)] mi i(1) by (cases "k = i") (auto simp: force_one_def split: if_splits)
  qed
  show "\<exists>k<length m. force_one topk ?c ?a ! k"
  proof (cases "True \<in> set ?a")
    case True
    then show ?thesis using len by (auto simp: force_one_def in_set_conv_nth)
  next
    case False
    then show ?thesis using i len by (auto simp: force_one_def)
  qed
qed

text \<open>Overwriting at least one masked position by non-msk tokens lowers the number of masks.\<close>

lemma num_masks_nth: "num_masks msk ids = card {i. i < length ids \<and> ids ! i = msk}"
  by (simp add: num_masks_def length_filter_conv_card)

lemma num_masks_less:
  assumes len: "length new = length old"
    and keep: "\<And>i. i < length old \<Longrightarrow> new ! i = msk \<Longrightarrow> old ! i = msk"
    and fill: "j < length old" "old ! j = msk" "new ! j \<noteq> msk"
  shows "num_masks msk new < num_masks msk old"
  unfolding num_masks_nth using assms by (intro psubset_card_mono) auto

lemma is_topk_first_topk: "is_topk first_topk"
  unfolding is_topk_def
proof (intro allI impI)
  fix c :: "rat option list" and k assume k: "k \<le> length c"
  define r where "r = rev (sort_key (\<lambda>i. c ! i) (rev [0..<length c]))"
  have set: "set r = {..<length c}" and d: "distinct r" and l: "length r = length c"
    by (auto simp: r_def)
  have srt: "sorted_wrt (\<lambda>i j. c ! j \<le> c ! i) r"
    unfolding r_def sorted_wrt_rev using sorted_sort_key [of "\<lambda>i. c ! i" "rev [0..<length c]"]
    by (simp add: sorted_map)
  have t: "first_topk c k = take k r" by (simp add: first_topk_def r_def)
  have "c ! j \<le> c ! i" if "i \<in> set (take k r)" "j < length c" "j \<notin> set (take k r)" for i j
  proof -
    have "j \<in> set (drop k r)" using that set by (metis Un_iff append_take_drop_id lessThan_iff set_append)
    then show ?thesis
      using that(1) srt sorted_wrt_append [of "\<lambda>i j. c ! j \<le> c ! i" "take k r" "drop k r"] by simp
  qed
  then show "length (first_topk c k) = k \<and> distinct (first_topk c k) \<and> set (first_topk c k) \<subseteq> {..<length c}
      \<and> sorted_wrt (\<lambda>i j. c ! j \<le> c ! i) (first_topk c k)
      \<and> (\<forall>i\<in>set (first_topk c k). \<forall>j<length c. j \<notin> set (first_topk c k) \<longrightarrow> c ! j \<le> c ! i)"
    unfolding t using k l d srt set_take_subset [of k r] set
    by (auto simp: sorted_wrt_take)
qed

end
