(* ===== verification/Low_Confidence.thy ===== *)
theory Low_Confidence
  imports Dllm_Base
begin

text \<open>
  \<open>dllm/algorithm/low_confidence.py\<close>: each forward pass fills the masked positions of a block whose
  confidence is above the threshold, or else the most confident one.
\<close>

record low_confidence = dllm_alg +
  lc_threshold :: rat

definition low_confidence_init :: "dllm_config \<Rightarrow> rat option \<Rightarrow> low_confidence" where
  "low_confidence_init c cfg_threshold =
     \<lparr>block_size = dc_block_size c, mask_id = dc_mask_id c, lc_threshold = get_or cfg_threshold (95/100)\<rparr>"

text \<open>The body of the loop over the blocks of the batch.\<close>

definition lc_block ::
  "low_confidence \<Rightarrow> (rat list \<Rightarrow> rat list) \<Rightarrow> (rat option list \<Rightarrow> nat \<Rightarrow> nat list) \<Rightarrow> logits
    \<Rightarrow> int list \<Rightarrow> int list" where
  "lc_block a softmax topk curr_logits block_input_ids =
     (let block_mask_index = mask_index (mask_id a) block_input_ids
      in if True \<notin> set block_mask_index then block_input_ids
         else
           let x = argmax_rows curr_logits;
               p = gather_prob softmax curr_logits;
               x = torch_where block_mask_index x block_input_ids;
               conf = confidence block_mask_index p;
               transfer_index = force_one topk conf (above (lc_threshold a) conf)
           in torch_where transfer_index x block_input_ids)"

text \<open>The loop of at most \<open>block_size\<close> denoising steps.\<close>

fun lc_loop ::
  "low_confidence \<Rightarrow> (rat list \<Rightarrow> rat list) \<Rightarrow> (rat option list \<Rightarrow> nat \<Rightarrow> nat list) \<Rightarrow> 'm forward \<Rightarrow> nat
    \<Rightarrow> nat \<Rightarrow> int list \<times> 'm \<Rightarrow> (int list \<times> 'm) res" where
  "lc_loop a softmax topk forward batch_size 0 (ids, m) = Inr (ids, m)"
| "lc_loop a softmax topk forward batch_size (Suc k) (ids, m) =
     (if True \<notin> set (mask_index (mask_id a) ids) then Inr (ids, m)
      else
        let ((full_logits, _), m) = forward m ids
        in py_assert (batch_size = length ids div block_size a)
             (lc_loop a softmax topk forward batch_size k
               (for_blocks (block_size a) batch_size
                  (\<lambda>i. lc_block a softmax topk (block (block_size a) i full_logits)) ids, m)))"

definition start_list :: "int \<Rightarrow> nat \<Rightarrow> nat \<Rightarrow> int list \<Rightarrow> nat list" where
  "start_list msk bsz batch_size ids = map (\<lambda>i. bsz - num_masks msk (block bsz i ids)) [0..<batch_size]"

text \<open>The result: logits, next token ids, graph flag; then the input ids and the model afterwards.\<close>

definition lc_run ::
  "low_confidence \<Rightarrow> (rat list \<Rightarrow> rat list) \<Rightarrow> (rat option list \<Rightarrow> nat \<Rightarrow> nat list) \<Rightarrow> 'm forward \<Rightarrow> nat
    \<Rightarrow> int list \<Rightarrow> 'm \<Rightarrow> ((logits \<times> int list list \<times> bool) \<times> int list \<times> 'm) res" where
  "lc_run a softmax topk forward batch_size ids m =
     (if True \<notin> set (mask_index (mask_id a) ids) then
        let ((l, g), m) = forward m ids in Inr ((l, [], g), ids, m)
      else
        let starts = start_list (mask_id a) (block_size a) batch_size ids
        in rbind (lc_loop a softmax topk forward batch_size (block_size a) (ids, m)) (\<lambda>(ids, m).
             let ((l, g), m) = forward m ids;
                 next_token_ids = map (\<lambda>i. block (length ids div batch_size) i ids) [0..<batch_size]
             in Inr ((l, map2 (\<lambda>row s. drop s row) next_token_ids starts, g), ids, m)))"

section \<open>One denoising step\<close>

lemma lc_block_props:
  assumes topk: "is_topk topk" and len: "length l = length ids"
  shows "length (lc_block a sm topk l ids) = length ids"
    and "i < length ids \<Longrightarrow> ids ! i \<noteq> mask_id a \<Longrightarrow> lc_block a sm topk l ids ! i = ids ! i"
    and "mask_id a \<in> set ids \<Longrightarrow> \<forall>row\<in>set l. int (argmax row) \<noteq> mask_id a \<Longrightarrow>
      num_masks (mask_id a) (lc_block a sm topk l ids) < num_masks (mask_id a) ids"
proof -
  let ?m = "mask_index (mask_id a) ids" and ?p = "gather_prob sm l"
  let ?tr = "force_one topk (confidence ?m ?p) (above (lc_threshold a) (confidence ?m ?p))"
  have b: "lc_block a sm topk l ids = (if mask_id a \<notin> set ids then ids
      else torch_where ?tr (torch_where ?m (argmax_rows l) ids) ids)"
    by (simp add: lc_block_def Let_def)
  have ltr: "length ?tr = length ids" using len by simp
  show "length (lc_block a sm topk l ids) = length ids" using len by (simp add: b)
  show keep: "lc_block a sm topk l ids ! i = ids ! i" if "i < length ids" "ids ! i \<noteq> mask_id a" for i
    using that len ltr by (simp add: b)
  assume mem: "mask_id a \<in> set ids" and nm: "\<forall>row\<in>set l. int (argmax row) \<noteq> mask_id a"
  obtain j where j: "j < length ids" "?tr ! j"
    using force_one_masked(2) [OF topk, of ?p ?m] mem len by auto
  have "ids ! j = mask_id a"
    using force_one_masked(1) [OF topk, of ?p ?m] mem len j by simp
  moreover have "lc_block a sm topk l ids ! j \<noteq> mask_id a"
    using mem j len ltr calculation nm by (simp add: b argmax_rows_def)
  moreover have "ids ! i = mask_id a" if "i < length ids" "lc_block a sm topk l ids ! i = mask_id a" for i
    using keep that by metis
  moreover have "length (lc_block a sm topk l ids) = length ids" using len by (simp add: b)
  ultimately show "num_masks (mask_id a) (lc_block a sm topk l ids) < num_masks (mask_id a) ids"
    using j(1) by (intro num_masks_less [of _ _ _ j])
qed

section \<open>The loop\<close>

text \<open>\<open>ids'\<close> differs from \<open>ids\<close> at masked positions only.\<close>

definition fills :: "int \<Rightarrow> int list \<Rightarrow> int list \<Rightarrow> bool" where
  "fills msk ids ids' \<longleftrightarrow> length ids' = length ids \<and> (\<forall>i<length ids. ids ! i \<noteq> msk \<longrightarrow> ids' ! i = ids ! i)"

lemma fills_refl [simp]: "fills msk ids ids"
  by (simp add: fills_def)

lemma fills_trans: "fills msk x y \<Longrightarrow> fills msk y z \<Longrightarrow> fills msk x z"
  by (auto simp: fills_def)

lemma fills_prefix:
  assumes "fills msk (pre @ rest) ids'" "msk \<notin> set pre"
  shows "ids' = pre @ drop (length pre) ids'"
proof -
  have "ids' ! i = pre ! i" if "i < length pre" for i
    using assms that nth_mem [OF that] by (auto simp: fills_def nth_append dest: spec [of _ i])
  then have "take (length pre) ids' = pre"
    using assms(1) by (intro nth_equalityI) (auto simp: fills_def)
  then show ?thesis by (metis append_take_drop_id)
qed

lemma lc_loop_fills:
  assumes topk: "is_topk topk" and fw: "forward_ok forward" and nm: "never_mask (mask_id a) forward"
    and n: "0 < block_size a"
    and len: "length ids = bs * block_size a"
    and k: "\<forall>i<bs. num_masks (mask_id a) (block (block_size a) i ids) \<le> k"
  shows "\<exists>ids' m'. lc_loop a sm topk forward bs k (ids, m) = Inr (ids', m') \<and> length ids' = length ids
     \<and> mask_id a \<notin> set ids'
     \<and> (\<forall>i<bs. fills (mask_id a) (block (block_size a) i ids) (block (block_size a) i ids'))"
  using len k
proof (induction k arbitrary: ids m)
  case 0
  then have "mask_id a \<notin> set ids" using in_set_blocks [of ids bs "block_size a"] by auto
  then show ?case by simp
next
  case (Suc k)
  show ?case
  proof (cases "mask_id a \<in> set ids")
    case False
    then show ?thesis by simp
  next
    case True
    obtain l g m1 where f: "forward m ids = ((l, g), m1)" by (metis surj_pair)
    have ll: "length l = bs * block_size a"
      using fw [unfolded forward_ok_def, rule_format, of m ids] f Suc.prems(1) by simp
    have nml: "\<forall>row\<in>set l. int (argmax row) \<noteq> mask_id a"
      using nm [unfolded never_mask_def, rule_format, of _ m ids] f by auto
    define f' where "f' = (\<lambda>i. lc_block a sm topk (block (block_size a) i l))"
    define ids1 where "ids1 = for_blocks (block_size a) bs f' ids"
    note bp = lc_block_props [OF topk, where l = "block (block_size a) i l"
        and ids = "block (block_size a) i ids" and a = a and sm = sm for i]
    note lb = length_block_full [OF ll] length_block_full [OF Suc.prems(1)]
    have "length (f' i (block (block_size a) i ids)) = block_size a" if "i < bs" for i
      using bp(1) that lb by (simp add: f'_def)
    then have b1: "block (block_size a) i ids1 = f' i (block (block_size a) i ids)" if "i < bs" for i
      using that Suc.prems(1) by (simp add: ids1_def block_for_blocks)
    have l1: "length ids1 = bs * block_size a" using Suc.prems(1) by (simp add: ids1_def)
    have fill1: "fills (mask_id a) (block (block_size a) i ids) (block (block_size a) i ids1)" if "i < bs" for i
      using bp(1,2) [of i] b1 [OF that] that lb by (auto simp: fills_def f'_def)
    have "num_masks (mask_id a) (block (block_size a) i ids1) \<le> k" if "i < bs" for i
    proof (cases "mask_id a \<in> set (block (block_size a) i ids)")
      case True
      have "\<forall>row\<in>set (block (block_size a) i l). int (argmax row) \<noteq> mask_id a"
        using nml by (auto dest: block_in_set)
      then have "num_masks (mask_id a) (block (block_size a) i ids1) < num_masks (mask_id a) (block (block_size a) i ids)"
        using bp(3) [of i] True that lb b1 [OF that] by (simp add: f'_def)
      then show ?thesis using Suc.prems(2) that by fastforce
    next
      case False
      then have "block (block_size a) i ids1 = block (block_size a) i ids"
        using b1 [OF that] by (simp add: f'_def lc_block_def Let_def)
      then have "num_masks (mask_id a) (block (block_size a) i ids1) = 0" using False by simp
      then show ?thesis by linarith
    qed
    then obtain ids' m' where r: "lc_loop a sm topk forward bs k (ids1, m1) = Inr (ids', m')"
      "length ids' = length ids1" "mask_id a \<notin> set ids'"
      "\<forall>i<bs. fills (mask_id a) (block (block_size a) i ids1) (block (block_size a) i ids')"
      using Suc.IH [OF l1, of m1] by blast
    have "lc_loop a sm topk forward bs (Suc k) (ids, m) = Inr (ids', m')"
      using True f r(1) Suc.prems(1) n by (simp add: ids1_def f'_def)
    then show ?thesis using r fill1 l1 Suc.prems(1) fills_trans by (metis (no_types, lifting))
  qed
qed

section \<open>The run\<close>

text \<open>Every block is a prompt part without masks followed by masks.\<close>

definition masked_suffix :: "int \<Rightarrow> int list \<Rightarrow> bool" where
  "masked_suffix msk blk \<longleftrightarrow>
     blk = takeWhile (\<lambda>t. t \<noteq> msk) blk @ replicate (num_masks msk blk) msk"

lemma masked_suffix_start:
  assumes "masked_suffix msk blk"
  shows "takeWhile (\<lambda>t. t \<noteq> msk) blk = take (length blk - num_masks msk blk) blk"
    and "msk \<notin> set (take (length blk - num_masks msk blk) blk)"
    and "\<forall>i. length blk - num_masks msk blk \<le> i \<and> i < length blk \<longrightarrow> blk ! i = msk"
proof -
  let ?p = "takeWhile (\<lambda>t. t \<noteq> msk) blk" and ?k = "num_masks msk blk"
  have b: "blk = ?p @ replicate ?k msk" using assms by (simp add: masked_suffix_def)
  then have "length blk = length ?p + ?k" by (metis length_append length_replicate)
  then have l: "length ?p = length blk - ?k" by simp
  show tk: "?p = take (length blk - ?k) blk" using b l by (metis append_eq_conv_conj)
  show "msk \<notin> set (take (length blk - ?k) blk)" unfolding tk [symmetric] by (auto dest: set_takeWhileD)
  show "\<forall>i. length blk - ?k \<le> i \<and> i < length blk \<longrightarrow> blk ! i = msk"
  proof (intro allI impI)
    fix i assume i: "length blk - ?k \<le> i \<and> i < length blk"
    then have "i - length ?p < ?k" using l by linarith
    then have "(?p @ replicate ?k msk) ! i = msk" using i l by (simp add: nth_append)
    then show "blk ! i = msk" using b by metis
  qed
qed

lemma masked_suffix_fills:
  assumes "masked_suffix msk blk" "fills msk blk blk'"
  shows "blk' = takeWhile (\<lambda>t. t \<noteq> msk) blk @ drop (length blk - num_masks msk blk) blk'"
proof -
  have "length blk = length (takeWhile (\<lambda>t. t \<noteq> msk) blk) + num_masks msk blk"
    using assms(1) unfolding masked_suffix_def by (metis length_append length_replicate)
  then have "length (takeWhile (\<lambda>t. t \<noteq> msk) blk) = length blk - num_masks msk blk" by simp
  moreover have "msk \<notin> set (takeWhile (\<lambda>t. t \<noteq> msk) blk)" by (auto dest: set_takeWhileD)
  ultimately show ?thesis
    using fills_prefix [of msk "takeWhile (\<lambda>t. t \<noteq> msk) blk" "replicate (num_masks msk blk) msk" blk'] assms
    unfolding masked_suffix_def by metis
qed

text \<open>
  C7. With a model that never prefers the mask token, \<open>LowConfidence.run\<close> finishes every block within
  its \<open>block_size\<close> denoising steps: no mask is left, the prompt part of each block is unchanged, and
  the tokens returned for a request are exactly the ones that filled its masked suffix.
\<close>

theorem lc_run_fills_blocks:
  assumes "is_topk topk" and "forward_ok forward" and "never_mask (mask_id a) forward"
    and "0 < block_size a" and "length ids = bs * block_size a"
    and "mask_id a \<in> set ids" and "\<forall>i<bs. masked_suffix (mask_id a) (block (block_size a) i ids)"
  shows "\<exists>l out g ids' m'. lc_run a sm topk forward bs ids m = Inr ((l, out, g), ids', m')
     \<and> length out = bs \<and> length ids' = length ids \<and> mask_id a \<notin> set ids'
     \<and> (\<forall>i<bs. block (block_size a) i ids'
           = takeWhile (\<lambda>t. t \<noteq> mask_id a) (block (block_size a) i ids) @ out ! i)"
proof -
  let ?n = "block_size a"
  have "\<forall>i<bs. num_masks (mask_id a) (block ?n i ids) \<le> ?n"
    using num_masks_le assms(5) length_block_full by metis
  from lc_loop_fills [OF assms(1-5) this] obtain ids' m' where
    r: "lc_loop a sm topk forward bs ?n (ids, m) = Inr (ids', m')" "length ids' = length ids"
      "mask_id a \<notin> set ids'" "\<forall>i<bs. fills (mask_id a) (block ?n i ids) (block ?n i ids')"
    by blast
  obtain l g m2 where f: "forward m' ids' = ((l, g), m2)" by (metis surj_pair)
  have bs: "0 < bs" using assms(5,6) by (cases bs) auto
  then have d: "length ids' div bs = ?n" using r(2) assms(5) by simp
  let ?out = "map2 (\<lambda>row s. drop s row) (map (\<lambda>i. block ?n i ids') [0..<bs])
      (start_list (mask_id a) ?n bs ids)"
  have "lc_run a sm topk forward bs ids m = Inr ((l, ?out, g), ids', m2)"
    using r(1) f assms(6) d by (simp add: lc_run_def Let_def)
  moreover have "\<forall>i<bs. block ?n i ids' = takeWhile (\<lambda>t. t \<noteq> mask_id a) (block ?n i ids) @ ?out ! i"
  proof (intro allI impI)
    fix i assume "i < bs"
    then show "block ?n i ids' = takeWhile (\<lambda>t. t \<noteq> mask_id a) (block ?n i ids) @ ?out ! i"
      using masked_suffix_fills [of "mask_id a" "block ?n i ids" "block ?n i ids'"] assms(7) r(4)
        length_block_full [OF assms(5)]
      by (simp add: start_list_def)
  qed
  moreover have "length ?out = bs" by (simp add: start_list_def)
  ultimately show ?thesis using r(2,3) by blast
qed

definition demo_lc :: low_confidence where
  "demo_lc = \<lparr>block_size = 2, mask_id = 9, lc_threshold = 1/2\<rparr>"

definition demo_forward :: "nat forward" where
  "demo_forward m ids = ((map (\<lambda>t. [0, 1/4, if t = 9 then 3/4 else 0]) ids, True), Suc m)"

lemma demo_forward_ok: "forward_ok demo_forward" "never_mask 9 demo_forward"
  by (auto simp: forward_ok_def never_mask_def demo_forward_def argmax_def)

theorem lc_run_fills_blocks_witness:
  "\<exists>l out g ids' m'. lc_run demo_lc (\<lambda>row. row) first_topk demo_forward 2 [5, 9, 9, 9] 0 = Inr ((l, out, g), ids', m')
     \<and> 9 \<notin> set ids' \<and> length out = 2"
proof -
  have "0 < block_size demo_lc" "length [5, 9, 9, 9::int] = 2 * block_size demo_lc" "mask_id demo_lc \<in> set [5, 9, 9, 9]"
    "\<forall>i<2. masked_suffix (mask_id demo_lc) (block (block_size demo_lc) i [5, 9, 9, 9])"
    by (auto simp: demo_lc_def masked_suffix_def num_masks_def block_def less_2_cases_iff)
  moreover have "never_mask (mask_id demo_lc) demo_forward" by (simp add: demo_lc_def demo_forward_ok)
  ultimately show ?thesis
    using lc_run_fills_blocks [OF is_topk_first_topk demo_forward_ok(1), of demo_lc "[5, 9, 9, 9]" 2 "\<lambda>row. row" 0]
    by (auto simp: demo_lc_def)
qed

end
