(* ===== verification/Joint_Threshold.thy ===== *)
theory Joint_Threshold
  imports Low_Confidence
begin

text \<open>
  \<open>dllm/algorithm/joint_threshold.py\<close>: masked positions are filled as in \<open>LowConfidence\<close>, and tokens
  that were generated earlier in the block may be edited while their new choice is confident. A
  block is finished when nothing changes or after \<open>max_post_edit_steps\<close> steps without a mask; the
  last forward pass is skipped when the step before changed nothing.
\<close>

record joint_threshold = dllm_alg +
  jt_threshold :: rat
  edit_threshold :: rat
  max_post_edit_steps :: nat
  penalty_lambda :: rat

definition joint_threshold_init ::
  "dllm_config \<Rightarrow> rat option \<Rightarrow> rat option \<Rightarrow> nat option \<Rightarrow> rat option \<Rightarrow> joint_threshold" where
  "joint_threshold_init c t et mp pl =
     \<lparr>block_size = dc_block_size c, mask_id = dc_mask_id c, jt_threshold = get_or t (1/2),
      edit_threshold = get_or et 0, max_post_edit_steps = get_or mp 16, penalty_lambda = get_or pl 0\<rparr>"

text \<open>
  \<open>curr_logits[1:, :].scatter_(1, prev_ids.unsqueeze(-1), -penalty_lambda, reduce="add")\<close>: the logit
  of the token to the left is lowered.
\<close>

definition lower_at :: "rat \<Rightarrow> int \<Rightarrow> rat list \<Rightarrow> rat list" where
  "lower_at pl t row = row[nat t := row ! nat t - pl]"

definition penalize :: "rat \<Rightarrow> int list \<Rightarrow> logits \<Rightarrow> logits" where
  "penalize pl ids l = (case l of [] \<Rightarrow> [] | row # rows \<Rightarrow> row # map2 (lower_at pl) (butlast ids) rows)"

record jt_state =
  jt_ids :: "int list"
  jt_logits :: logits
  post_edit_steps :: "nat list"
  jt_finished :: "bool list"
  any_changed :: bool

text \<open>
  The edit of one block: \<open>None\<close> when the block is finished (nothing to transfer), otherwise the new
  block.
\<close>

definition jt_transfer ::
  "joint_threshold \<Rightarrow> (rat list \<Rightarrow> rat list) \<Rightarrow> (rat option list \<Rightarrow> nat \<Rightarrow> nat list) \<Rightarrow> bool list
    \<Rightarrow> logits \<Rightarrow> int list \<Rightarrow> int list option" where
  "jt_transfer a softmax topk curr_prompt_mask curr_logits curr_input_ids =
     (let x = argmax_rows curr_logits;
          p = gather_prob softmax curr_logits;
          mi = mask_index (mask_id a) curr_input_ids;
          conf = confidence mi p;
          mask_transfer_index =
            (if True \<in> set mi then force_one topk conf (above (jt_threshold a) conf)
             else replicate (length mi) False);
          edit_transfer_index =
            map (\<lambda>i. p ! i > edit_threshold a \<and> curr_input_ids ! i \<noteq> x ! i \<and> \<not> mi ! i \<and> \<not> curr_prompt_mask ! i)
              [0..<length curr_input_ids];
          transfer_index = map2 (\<or>) mask_transfer_index edit_transfer_index
      in if True \<notin> set transfer_index then None
         else Some (torch_where transfer_index x curr_input_ids))"

text \<open>The body of the loop over the requests.\<close>

definition jt_block ::
  "joint_threshold \<Rightarrow> (rat list \<Rightarrow> rat list) \<Rightarrow> (rat option list \<Rightarrow> nat \<Rightarrow> nat list) \<Rightarrow> bool list list
    \<Rightarrow> jt_state \<Rightarrow> nat \<Rightarrow> jt_state" where
  "jt_block a softmax topk prompt_masks st i =
     (if jt_finished st ! i then st
      else
        let n = block_size a;
            curr_input_ids = block n i (jt_ids st);
            curr_logits = block n i (jt_logits st);
            curr_logits = (if penalty_lambda a > 0
                           then penalize (penalty_lambda a) curr_input_ids curr_logits else curr_logits);
            st = st\<lparr>jt_logits := put_slice (i * n) curr_logits (jt_logits st)\<rparr>;
            has_mask = mask_id a \<in> set curr_input_ids;
            st = (if has_mask then st
                  else st\<lparr>post_edit_steps := (post_edit_steps st)[i := post_edit_steps st ! i + 1]\<rparr>)
        in if \<not> has_mask \<and> post_edit_steps st ! i > max_post_edit_steps a
           then st\<lparr>jt_finished := (jt_finished st)[i := True]\<rparr>
           else
             (case jt_transfer a softmax topk (prompt_masks ! i) curr_logits curr_input_ids of
                None \<Rightarrow> st\<lparr>jt_finished := (jt_finished st)[i := True]\<rparr>
              | Some new_ids \<Rightarrow> st\<lparr>jt_ids := put_slice (i * n) new_ids (jt_ids st), any_changed := True\<rparr>))"

fun jt_loop ::
  "joint_threshold \<Rightarrow> (rat list \<Rightarrow> rat list) \<Rightarrow> (rat option list \<Rightarrow> nat \<Rightarrow> nat list) \<Rightarrow> 'm forward \<Rightarrow> nat
    \<Rightarrow> bool list list \<Rightarrow> nat \<Rightarrow> jt_state \<times> bool \<times> 'm \<Rightarrow> jt_state \<times> bool \<times> 'm" where
  "jt_loop a softmax topk forward batch_size prompt_masks 0 (st, g, m) = (st, g, m)"
| "jt_loop a softmax topk forward batch_size prompt_masks (Suc k) (st, g, m) =
     (if False \<notin> set (jt_finished st) then (st, g, m)
      else
        let ((l, g), m) = forward m (jt_ids st);
            st = st\<lparr>jt_logits := l, any_changed := False\<rparr>
        in jt_loop a softmax topk forward batch_size prompt_masks k
             (foldl (jt_block a softmax topk prompt_masks) st [0..<batch_size], g, m))"

definition jt_prompt_masks :: "int \<Rightarrow> nat \<Rightarrow> nat \<Rightarrow> int list \<Rightarrow> bool list list" where
  "jt_prompt_masks msk n batch_size ids = map (\<lambda>i. map (\<lambda>t. t \<noteq> msk) (block n i ids)) [0..<batch_size]"

definition jt_init_state :: "nat \<Rightarrow> int list \<Rightarrow> jt_state" where
  "jt_init_state batch_size ids =
     \<lparr>jt_ids = ids, jt_logits = [], post_edit_steps = replicate batch_size 0,
      jt_finished = replicate batch_size False, any_changed = False\<rparr>"

definition jt_run ::
  "joint_threshold \<Rightarrow> (rat list \<Rightarrow> rat list) \<Rightarrow> (rat option list \<Rightarrow> nat \<Rightarrow> nat list) \<Rightarrow> 'm forward \<Rightarrow> nat
    \<Rightarrow> int list \<Rightarrow> 'm \<Rightarrow> (logits \<times> int list list \<times> bool) \<times> int list \<times> 'm" where
  "jt_run a softmax topk forward batch_size ids m =
     (if True \<notin> set (mask_index (mask_id a) ids) then
        let ((l, g), m) = forward m ids in ((l, [], g), ids, m)
      else
        let n = block_size a;
            prompt_masks = jt_prompt_masks (mask_id a) n batch_size ids;
            starts = map (\<lambda>pm. length (filter (\<lambda>b. b) pm)) prompt_masks;
            max_iterations = n + max_post_edit_steps a;
            (st, g, m) = jt_loop a softmax topk forward batch_size prompt_masks max_iterations
                           (jt_init_state batch_size ids, False, m);
            ((l, g), m) = (if any_changed st then forward m (jt_ids st) else ((jt_logits st, g), m));
            next_token_ids = map (\<lambda>i. block (length (jt_ids st) div batch_size) i (jt_ids st)) [0..<batch_size]
        in ((l, map2 (\<lambda>row s. drop s row) next_token_ids starts, g), jt_ids st, m))"

section \<open>One block\<close>

text \<open>A model that never prefers the mask token, also when another token's logit is lowered.\<close>

definition never_mask_lowered :: "rat \<Rightarrow> int \<Rightarrow> 'm forward \<Rightarrow> bool" where
  "never_mask_lowered pl msk forward \<longleftrightarrow>
     (\<forall>m ids. \<forall>row\<in>set (fst (fst (forward m ids))).
        int (argmax row) \<noteq> msk \<and> (\<forall>t. int (argmax (lower_at pl t row)) \<noteq> msk))"

lemma length_penalize: "length ids = length l \<Longrightarrow> length (penalize pl ids l) = length l"
  by (cases l) (auto simp: penalize_def)

lemma set_penalize:
  "row \<in> set (penalize pl ids l) \<Longrightarrow> row \<in> set l \<or> (\<exists>t. \<exists>row'\<in>set l. row = lower_at pl t row')"
  by (cases l) (auto simp: penalize_def, metis set_zip_rightD)

lemma jt_transfer_props:
  assumes topk: "is_topk topk" and len: "length l = length blk" "length pm = length blk"
  shows "jt_transfer a sm topk pm l blk = None \<Longrightarrow> mask_id a \<notin> set blk"
    and "jt_transfer a sm topk pm l blk = Some blk' \<Longrightarrow> length blk' = length blk
      \<and> (\<forall>j<length blk. pm ! j \<and> blk ! j \<noteq> mask_id a \<longrightarrow> blk' ! j = blk ! j)"
    and "jt_transfer a sm topk pm l blk = Some blk' \<Longrightarrow> \<forall>row\<in>set l. int (argmax row) \<noteq> mask_id a \<Longrightarrow>
      (mask_id a \<in> set blk \<longrightarrow> num_masks (mask_id a) blk' < num_masks (mask_id a) blk)
      \<and> (mask_id a \<notin> set blk \<longrightarrow> mask_id a \<notin> set blk')"
proof -
  define x where "x = argmax_rows l"
  define p where "p = gather_prob sm l"
  define mi where "mi = mask_index (mask_id a) blk"
  define mt where "mt = (if mask_id a \<in> set blk
      then force_one topk (confidence mi p) (above (jt_threshold a) (confidence mi p))
      else replicate (length mi) False)"
  define et where "et = map (\<lambda>i. p ! i > edit_threshold a \<and> blk ! i \<noteq> x ! i \<and> \<not> mi ! i \<and> \<not> pm ! i) [0..<length blk]"
  define tr where "tr = map2 (\<or>) mt et"
  have e: "jt_transfer a sm topk pm l blk = (if True \<notin> set tr then None else Some (torch_where tr x blk))"
    by (simp add: jt_transfer_def Let_def tr_def et_def mt_def mi_def p_def x_def)
  have lmi: "length mi = length blk" "length p = length mi" "length x = length blk"
    using len by (simp_all add: mi_def p_def x_def)
  have lmt: "length mt = length blk" "length et = length blk" "length tr = length blk"
    using lmi by (simp_all add: mt_def et_def tr_def)
  have tr: "tr ! j \<longleftrightarrow> mt ! j \<or> et ! j" if "j < length blk" for j
    using that lmt by (simp add: tr_def)
  have et: "\<not> pm ! j" if "j < length blk" "et ! j" for j
    using that by (simp add: et_def)
  have mt: "blk ! j = mask_id a" if "j < length blk" "mt ! j" for j
  proof (cases "mask_id a \<in> set blk")
    case True
    then have "mi ! j" using force_one_masked(1) [OF topk lmi(2)] that lmi(1) by (simp add: mt_def mi_def)
    then show ?thesis using that(1) by (simp add: mi_def)
  qed (use that lmi in \<open>simp add: mt_def\<close>)
  have some: "\<exists>j<length blk. mt ! j" if "mask_id a \<in> set blk"
    using force_one_masked(2) [OF topk lmi(2)] that lmi(1) by (simp add: mt_def mi_def)
  show "mask_id a \<notin> set blk" if "jt_transfer a sm topk pm l blk = None"
  proof
    assume "mask_id a \<in> set blk"
    then obtain j where j: "j < length blk" "mt ! j" using some by blast
    then have "tr ! j" using tr by blast
    then have "True \<in> set tr" using nth_mem [of j tr] j(1) lmt by simp
    then show False using that e by simp
  qed
  assume s: "jt_transfer a sm topk pm l blk = Some blk'"
  then have b: "blk' = torch_where tr x blk" using e by (simp split: if_splits)
  have l': "length blk' = length blk" using b lmi lmt by simp
  have nth: "blk' ! j = (if mt ! j \<or> et ! j then x ! j else blk ! j)" if "j < length blk" for j
    using b that lmi lmt tr [OF that] by simp
  show "length blk' = length blk \<and> (\<forall>j<length blk. pm ! j \<and> blk ! j \<noteq> mask_id a \<longrightarrow> blk' ! j = blk ! j)"
    using l' nth mt et by metis
  assume nm: "\<forall>row\<in>set l. int (argmax row) \<noteq> mask_id a"
  have x: "x ! j \<noteq> mask_id a" if "j < length blk" for j
    using nm that len by (simp add: x_def argmax_rows_def)
  have keep: "blk ! j = mask_id a" if "j < length blk" "blk' ! j = mask_id a" for j
    using nth [OF that(1)] x [OF that(1)] that(2) by presburger
  show "(mask_id a \<in> set blk \<longrightarrow> num_masks (mask_id a) blk' < num_masks (mask_id a) blk)
      \<and> (mask_id a \<notin> set blk \<longrightarrow> mask_id a \<notin> set blk')"
  proof (intro conjI impI)
    assume "mask_id a \<in> set blk"
    then obtain j where j: "j < length blk" "mt ! j" using some by blast
    then have "blk ! j = mask_id a" "blk' ! j \<noteq> mask_id a" using mt nth x by metis+
    then show "num_masks (mask_id a) blk' < num_masks (mask_id a) blk"
      using num_masks_less [OF l' keep j(1)] by blast
  next
    assume "mask_id a \<notin> set blk"
    then show "mask_id a \<notin> set blk'" using keep l' by (metis in_set_conv_nth)
  qed
qed

lemma num_masks_block0: "msk \<notin> set blk \<Longrightarrow> num_masks msk blk = 0"
  by simp

text \<open>The shape of a state for a batch of \<open>bs\<close> requests.\<close>

definition jt_shape :: "nat \<Rightarrow> nat \<Rightarrow> jt_state \<Rightarrow> bool" where
  "jt_shape n bs st \<longleftrightarrow> length (jt_ids st) = bs * n \<and> length (jt_logits st) = bs * n
     \<and> length (post_edit_steps st) = bs \<and> length (jt_finished st) = bs"

text \<open>What one step does to the block of request \<open>i\<close>.\<close>

definition jt_block_ok :: "joint_threshold \<Rightarrow> bool list \<Rightarrow> int list \<Rightarrow> bool \<Rightarrow> int list \<Rightarrow> bool \<Rightarrow> bool" where
  "jt_block_ok a pm blk fin blk' fin' \<longleftrightarrow>
     length blk' = length blk \<and> (\<forall>q<length blk. pm ! q \<and> blk ! q \<noteq> mask_id a \<longrightarrow> blk' ! q = blk ! q)
     \<and> (fin' \<longrightarrow> mask_id a \<notin> set blk') \<and> num_masks (mask_id a) blk' \<le> num_masks (mask_id a) blk - 1"

lemma jt_block_step:
  fixes sm :: "rat list \<Rightarrow> rat list"
  assumes topk: "is_topk topk" and sh: "jt_shape (block_size a) bs st" and i: "i < bs"
    and pm: "length (pms ! i) = block_size a"
    and fin: "jt_finished st ! i \<Longrightarrow> mask_id a \<notin> set (block (block_size a) i (jt_ids st))"
    and nm: "\<forall>row\<in>set (block (block_size a) i (jt_logits st)).
        int (argmax row) \<noteq> mask_id a \<and> (\<forall>t. int (argmax (lower_at (penalty_lambda a) t row)) \<noteq> mask_id a)"
  defines "st' \<equiv> jt_block a sm topk pms st i"
  shows "jt_shape (block_size a) bs st'"
    and "j < bs \<Longrightarrow> j \<noteq> i \<Longrightarrow> block (block_size a) j (jt_ids st') = block (block_size a) j (jt_ids st)
      \<and> block (block_size a) j (jt_logits st') = block (block_size a) j (jt_logits st)
      \<and> jt_finished st' ! j = jt_finished st ! j"
    and "jt_block_ok a (pms ! i) (block (block_size a) i (jt_ids st)) (jt_finished st ! i)
      (block (block_size a) i (jt_ids st')) (jt_finished st' ! i)"
    and "\<not> any_changed st' \<Longrightarrow> jt_ids st' = jt_ids st \<and> \<not> any_changed st"
proof -
  let ?n = "block_size a"
  define blk where "blk = block ?n i (jt_ids st)"
  define cl where "cl = (if penalty_lambda a > 0 then penalize (penalty_lambda a) blk (block ?n i (jt_logits st))
      else block ?n i (jt_logits st))"
  have li: "length (jt_ids st) = bs * ?n" and ll: "length (jt_logits st) = bs * ?n" and lf: "length (jt_finished st) = bs"
    and lp: "length (post_edit_steps st) = bs"
    using sh by (simp_all add: jt_shape_def)
  have lb: "length blk = ?n" using length_block_full [OF li i] by (simp add: blk_def)
  have lcl: "length cl = ?n"
    using length_block_full [OF ll i] lb length_penalize [of blk "block ?n i (jt_logits st)"] by (simp add: cl_def)
  have nm': "\<forall>row\<in>set cl. int (argmax row) \<noteq> mask_id a"
    using nm set_penalize by (fastforce simp: cl_def split: if_splits)
  note tr = jt_transfer_props [OF topk, of cl blk "pms ! i" a sm, unfolded lb lcl pm, OF refl refl]
  define st1 where "st1 = st\<lparr>jt_logits := put_slice (i * ?n) cl (jt_logits st)\<rparr>"
  define st2 where "st2 = (if mask_id a \<in> set blk then st1
      else st1\<lparr>post_edit_steps := (post_edit_steps st1)[i := post_edit_steps st1 ! i + 1]\<rparr>)"
  have f2: "jt_ids st2 = jt_ids st" "jt_finished st2 = jt_finished st" "any_changed st2 = any_changed st"
    "jt_logits st2 = put_slice (i * ?n) cl (jt_logits st)" "length (post_edit_steps st2) = bs"
    by (simp_all add: st2_def st1_def lp)
  have st': "st' = (if jt_finished st ! i then st
      else if mask_id a \<notin> set blk \<and> post_edit_steps st2 ! i > max_post_edit_steps a
      then st2\<lparr>jt_finished := (jt_finished st2)[i := True]\<rparr>
      else case jt_transfer a sm topk (pms ! i) cl blk of
          None \<Rightarrow> st2\<lparr>jt_finished := (jt_finished st2)[i := True]\<rparr>
        | Some new_ids \<Rightarrow> st2\<lparr>jt_ids := put_slice (i * ?n) new_ids (jt_ids st2), any_changed := True\<rparr>)"
    unfolding st'_def jt_block_def Let_def st2_def st1_def cl_def blk_def by (rule refl)
  have ok0: "jt_block_ok a (pms ! i) blk f blk f'" if "mask_id a \<notin> set blk" for f f'
    using that by (simp add: jt_block_ok_def num_masks_block0)
  consider (fin) "st' = st" "jt_finished st ! i"
    | (stop) "st' = st2\<lparr>jt_finished := (jt_finished st2)[i := True]\<rparr>" "mask_id a \<notin> set blk" "\<not> jt_finished st ! i"
    | (new) b where "st' = st2\<lparr>jt_ids := put_slice (i * ?n) b (jt_ids st2), any_changed := True\<rparr>"
        "jt_transfer a sm topk (pms ! i) cl blk = Some b" "\<not> jt_finished st ! i"
    using st' tr(1) by (auto split: if_splits option.splits)
  then have "jt_shape ?n bs st'
    \<and> (\<forall>j<bs. j \<noteq> i \<longrightarrow> block ?n j (jt_ids st') = block ?n j (jt_ids st)
      \<and> block ?n j (jt_logits st') = block ?n j (jt_logits st) \<and> jt_finished st' ! j = jt_finished st ! j)
    \<and> jt_block_ok a (pms ! i) blk (jt_finished st ! i) (block ?n i (jt_ids st')) (jt_finished st' ! i)
    \<and> (\<not> any_changed st' \<longrightarrow> jt_ids st' = jt_ids st \<and> \<not> any_changed st)"
  proof cases
    case fin
    then show ?thesis using sh ok0 assms(5) by (simp add: blk_def)
  next
    case stop
    then show ?thesis
      using f2 ok0 li ll lf i lcl block_put_slice [OF ll i] by (simp add: jt_shape_def blk_def)
  next
    case (new b)
    have lbb: "length b = ?n" using tr(2) [OF new(2)] lb by simp
    have b: "block ?n i (jt_ids st') = b" using new(1) f2 block_put_slice [OF li i i lbb] by simp
    have "jt_block_ok a (pms ! i) blk (jt_finished st ! i) b (jt_finished st' ! i)"
    proof -
      have "jt_finished st' = jt_finished st" using new(1) f2 by simp
      then show ?thesis
        using tr(2) [OF new(2)] tr(3) [OF new(2) nm'] new(3) lb
        by (cases "mask_id a \<in> set blk") (auto simp: jt_block_ok_def num_masks_block0)
    qed
    then show ?thesis
      using new(1) f2 li ll lf lcl lbb b block_put_slice [OF ll i] block_put_slice [OF li i] by (simp add: jt_shape_def)
  qed
  then show "jt_shape (block_size a) bs st'"
    and "j < bs \<Longrightarrow> j \<noteq> i \<Longrightarrow> block (block_size a) j (jt_ids st') = block (block_size a) j (jt_ids st)
      \<and> block (block_size a) j (jt_logits st') = block (block_size a) j (jt_logits st)
      \<and> jt_finished st' ! j = jt_finished st ! j"
    and "jt_block_ok a (pms ! i) (block (block_size a) i (jt_ids st)) (jt_finished st ! i)
      (block (block_size a) i (jt_ids st')) (jt_finished st' ! i)"
    and "\<not> any_changed st' \<Longrightarrow> jt_ids st' = jt_ids st \<and> \<not> any_changed st"
    by (simp_all add: blk_def)
qed

section \<open>The loop\<close>

definition jt_fin_ok :: "joint_threshold \<Rightarrow> nat \<Rightarrow> jt_state \<Rightarrow> bool" where
  "jt_fin_ok a bs st \<longleftrightarrow>
     (\<forall>i<bs. jt_finished st ! i \<longrightarrow> mask_id a \<notin> set (block (block_size a) i (jt_ids st)))"

definition rows_ok :: "joint_threshold \<Rightarrow> logits \<Rightarrow> bool" where
  "rows_ok a l \<longleftrightarrow> (\<forall>row\<in>set l. int (argmax row) \<noteq> mask_id a
     \<and> (\<forall>t. int (argmax (lower_at (penalty_lambda a) t row)) \<noteq> mask_id a))"

lemma jt_round:
  assumes topk: "is_topk topk" and sh: "jt_shape (block_size a) bs st0"
    and pm: "\<forall>i<bs. length (pms ! i) = block_size a"
    and fin: "jt_fin_ok a bs st0" and nm: "rows_ok a (jt_logits st0)" and k: "k \<le> bs"
  shows "let st = foldl (jt_block a sm topk pms) st0 [0..<k] in
      jt_shape (block_size a) bs st
    \<and> (\<forall>i<k. jt_block_ok a (pms ! i) (block (block_size a) i (jt_ids st0)) (jt_finished st0 ! i)
        (block (block_size a) i (jt_ids st)) (jt_finished st ! i))
    \<and> (\<forall>i<bs. k \<le> i \<longrightarrow> block (block_size a) i (jt_ids st) = block (block_size a) i (jt_ids st0)
        \<and> block (block_size a) i (jt_logits st) = block (block_size a) i (jt_logits st0)
        \<and> jt_finished st ! i = jt_finished st0 ! i)
    \<and> (\<not> any_changed st \<longrightarrow> jt_ids st = jt_ids st0)"
  using k
proof (induction k)
  case 0
  then show ?case using sh by simp
next
  case (Suc k)
  let ?n = "block_size a"
  define st where "st = foldl (jt_block a sm topk pms) st0 [0..<k]"
  define st' where "st' = jt_block a sm topk pms st k"
  have ih: "jt_shape ?n bs st"
    "\<forall>i<k. jt_block_ok a (pms ! i) (block ?n i (jt_ids st0)) (jt_finished st0 ! i) (block ?n i (jt_ids st)) (jt_finished st ! i)"
    "\<forall>i<bs. k \<le> i \<longrightarrow> block ?n i (jt_ids st) = block ?n i (jt_ids st0)
        \<and> block ?n i (jt_logits st) = block ?n i (jt_logits st0) \<and> jt_finished st ! i = jt_finished st0 ! i"
    "\<not> any_changed st \<longrightarrow> jt_ids st = jt_ids st0"
    using Suc by (simp_all add: Let_def st_def)
  have k: "k < bs" using Suc.prems by simp
  have "\<forall>row\<in>set (block ?n k (jt_logits st)). int (argmax row) \<noteq> mask_id a
      \<and> (\<forall>t. int (argmax (lower_at (penalty_lambda a) t row)) \<noteq> mask_id a)"
    using ih(3) k nm by (auto simp: rows_ok_def dest: block_in_set)
  moreover have "jt_finished st ! k \<Longrightarrow> mask_id a \<notin> set (block ?n k (jt_ids st))"
    using ih(3) k fin by (simp add: jt_fin_ok_def)
  ultimately have step: "jt_shape ?n bs st'"
    "\<And>j. j < bs \<Longrightarrow> j \<noteq> k \<Longrightarrow> block ?n j (jt_ids st') = block ?n j (jt_ids st)
      \<and> block ?n j (jt_logits st') = block ?n j (jt_logits st) \<and> jt_finished st' ! j = jt_finished st ! j"
    "jt_block_ok a (pms ! k) (block ?n k (jt_ids st)) (jt_finished st ! k) (block ?n k (jt_ids st')) (jt_finished st' ! k)"
    "\<not> any_changed st' \<Longrightarrow> jt_ids st' = jt_ids st \<and> \<not> any_changed st"
    using jt_block_step [where pms = pms and sm = sm, OF topk ih(1) k] pm k by (simp_all add: st'_def)
  have f: "foldl (jt_block a sm topk pms) st0 [0..<Suc k] = st'" by (simp add: st_def st'_def)
  show ?case
    unfolding Let_def f using step ih k by (auto simp: less_Suc_eq)
qed

text \<open>What the tokens under \<open>pms\<close> (the prompt) were, they stay.\<close>

definition jt_kept :: "joint_threshold \<Rightarrow> nat \<Rightarrow> bool list list \<Rightarrow> int list \<Rightarrow> int list \<Rightarrow> bool" where
  "jt_kept a bs pms ids ids' \<longleftrightarrow> length ids' = length ids \<and>
     (\<forall>i<bs. \<forall>q<block_size a. pms ! i ! q \<and> block (block_size a) i ids ! q \<noteq> mask_id a
        \<longrightarrow> block (block_size a) i ids' ! q = block (block_size a) i ids ! q)"

lemma jt_kept_trans: "jt_kept a bs pms x y \<Longrightarrow> jt_kept a bs pms y z \<Longrightarrow> jt_kept a bs pms x z"
  by (auto simp: jt_kept_def)

text \<open>The model has last run on the present input ids.\<close>

definition synced :: "'m forward \<Rightarrow> int list \<Rightarrow> bool \<times> 'm \<Rightarrow> bool" where
  "synced forward ids gm \<longleftrightarrow> (\<exists>m0 l0. forward m0 ids = ((l0, fst gm), snd gm))"

lemma jt_loop_props:
  assumes topk: "is_topk topk" and fw: "forward_ok forward"
    and nm: "never_mask_lowered (penalty_lambda a) (mask_id a) forward"
    and pm: "\<forall>i<bs. length (pms ! i) = block_size a"
    and len: "length (jt_ids st) = bs * block_size a" "length (post_edit_steps st) = bs" "length (jt_finished st) = bs"
    and fin: "jt_fin_ok a bs st"
    and k: "\<forall>i<bs. num_masks (mask_id a) (block (block_size a) i (jt_ids st)) \<le> k"
    and sy: "(False \<in> set (jt_finished st) \<and> 0 < k) \<or> any_changed st \<or> synced forward (jt_ids st) (g, m)"
    and r: "jt_loop a sm topk forward bs pms k (st, g, m) = (st', g', m')"
  shows "length (jt_ids st') = bs * block_size a \<and> mask_id a \<notin> set (jt_ids st')
    \<and> jt_kept a bs pms (jt_ids st) (jt_ids st')
    \<and> (any_changed st' \<or> synced forward (jt_ids st') (g', m'))"
  using len fin k sy r
proof (induction k arbitrary: st g m)
  case 0
  then have "mask_id a \<notin> set (jt_ids st)" using in_set_blocks [OF 0(1), of "mask_id a"] by auto
  then show ?case using 0 by (auto simp: jt_kept_def)
next
  case (Suc k)
  let ?n = "block_size a"
  show ?case
  proof (cases "False \<in> set (jt_finished st)")
    case False
    have "mask_id a \<notin> set (block ?n i (jt_ids st))" if "i < bs" for i
    proof -
      have "jt_finished st ! i" using False that Suc.prems(3) nth_mem [of i "jt_finished st"] by (cases "jt_finished st ! i") auto
      then show ?thesis using Suc.prems(4) that by (simp add: jt_fin_ok_def)
    qed
    then have "mask_id a \<notin> set (jt_ids st)" using in_set_blocks [OF Suc.prems(1)] by auto
    then show ?thesis using Suc.prems False by (auto simp: jt_kept_def)
  next
    case True
    obtain l g1 m1 where f: "forward m (jt_ids st) = ((l, g1), m1)" by (metis surj_pair)
    define st0 where "st0 = st\<lparr>jt_logits := l, any_changed := False\<rparr>"
    define st1 where "st1 = foldl (jt_block a sm topk pms) st0 [0..<bs]"
    have "length l = bs * ?n" using fw [unfolded forward_ok_def, rule_format, of m "jt_ids st"] f Suc.prems(1) by simp
    then have sh0: "jt_shape ?n bs st0" using Suc.prems(1-3) by (simp add: jt_shape_def st0_def)
    have rows: "rows_ok a (jt_logits st0)"
      using nm [unfolded never_mask_lowered_def, rule_format, of _ m "jt_ids st"] f by (auto simp: rows_ok_def st0_def)
    have fin0: "jt_fin_ok a bs st0" using Suc.prems(4) by (simp add: jt_fin_ok_def st0_def)
    note rd = jt_round [OF topk sh0 pm fin0 rows order_refl, of sm, folded st1_def, unfolded Let_def]
    have ids0: "jt_ids st0 = jt_ids st" "\<not> any_changed st0" by (simp_all add: st0_def)
    have bl: "length (block ?n i (jt_ids st)) = ?n" if "i < bs" for i using length_block_full [OF Suc.prems(1) that] .
    have fin1: "jt_fin_ok a bs st1"
      using rd by (auto simp: jt_fin_ok_def jt_block_ok_def)
    have k1: "\<forall>i<bs. num_masks (mask_id a) (block ?n i (jt_ids st1)) \<le> k"
    proof (intro allI impI)
      fix i assume i: "i < bs"
      then have "num_masks (mask_id a) (block ?n i (jt_ids st1)) \<le> num_masks (mask_id a) (block ?n i (jt_ids st)) - 1"
        using rd ids0 by (simp add: jt_block_ok_def)
      then show "num_masks (mask_id a) (block ?n i (jt_ids st1)) \<le> k" using Suc.prems(5) i by fastforce
    qed
    have kept: "jt_kept a bs pms (jt_ids st) (jt_ids st1)"
      using rd ids0 bl Suc.prems(1) by (auto simp: jt_kept_def jt_block_ok_def jt_shape_def)
    have sy1: "any_changed st1 \<or> synced forward (jt_ids st1) (g1, m1)"
      using rd ids0 f by (auto simp: synced_def)
    have r1: "jt_loop a sm topk forward bs pms k (st1, g1, m1) = (st', g', m')"
      using Suc.prems(7) True f by (simp add: st1_def st0_def)
    have "length (jt_ids st') = bs * ?n \<and> mask_id a \<notin> set (jt_ids st') \<and> jt_kept a bs pms (jt_ids st1) (jt_ids st')
        \<and> (any_changed st' \<or> synced forward (jt_ids st') (g', m'))"
      using Suc.IH [OF _ _ _ fin1 k1 _ r1] rd sy1 by (auto simp: jt_shape_def)
    then show ?thesis using kept jt_kept_trans by blast
  qed
qed

section \<open>The run\<close>

text \<open>The state after the loop, and the result in terms of it.\<close>

lemma jt_run_loop:
  assumes topk: "is_topk topk" and fw: "forward_ok forward"
    and nm: "never_mask_lowered (penalty_lambda a) (mask_id a) forward"
    and n: "0 < block_size a" and len: "length ids = bs * block_size a" and mem: "mask_id a \<in> set ids"
  defines "pms \<equiv> jt_prompt_masks (mask_id a) (block_size a) bs ids"
  obtains st g m1 where
    "jt_loop a sm topk forward bs pms (block_size a + max_post_edit_steps a) (jt_init_state bs ids, False, m) = (st, g, m1)"
    and "length (jt_ids st) = length ids" "mask_id a \<notin> set (jt_ids st)" "jt_kept a bs pms ids (jt_ids st)"
    and "any_changed st \<or> synced forward (jt_ids st) (g, m1)"
proof -
  let ?k = "block_size a + max_post_edit_steps a"
  obtain st g m1 where r: "jt_loop a sm topk forward bs pms ?k (jt_init_state bs ids, False, m) = (st, g, m1)"
    by (metis surj_pair)
  have bs: "0 < bs" using len mem by (cases bs) auto
  have pm: "\<forall>i<bs. length (pms ! i) = block_size a"
    using length_block_full [OF len] by (simp add: pms_def jt_prompt_masks_def)
  have masks: "\<forall>i<bs. num_masks (mask_id a) (block (block_size a) i (jt_ids (jt_init_state bs ids))) \<le> ?k"
  proof (intro allI impI)
    fix i assume "i < bs"
    then show "num_masks (mask_id a) (block (block_size a) i (jt_ids (jt_init_state bs ids))) \<le> ?k"
      using num_masks_le [of "mask_id a" "block (block_size a) i ids"] length_block_full [OF len]
      by (simp add: jt_init_state_def)
  qed
  show ?thesis
    using that [OF r] jt_loop_props [OF topk fw nm pm _ _ _ _ masks _ r] len bs n
    by (simp add: jt_init_state_def jt_fin_ok_def)
qed



definition demo_jt :: joint_threshold where
  "demo_jt = \<lparr>block_size = 2, mask_id = 9, jt_threshold = 1/2, edit_threshold = 0, max_post_edit_steps = 3,
     penalty_lambda = 1/8\<rparr>"

lemma demo_never_mask_lowered: "never_mask_lowered (1/8) 9 demo_forward"
proof -
  have "int (argmax row) \<noteq> 9" if "length row = 3" for row :: "rat list"
    using argmax_less [of row] that by (cases row) auto
  moreover have "length row = 3" "length (lower_at pl t row) = 3"
    if "row \<in> set (fst (fst (demo_forward m ids)))" for row m ids pl t
    using that by (auto simp: demo_forward_def lower_at_def simp del: list_update.simps)
  ultimately show ?thesis unfolding never_mask_lowered_def by blast
qed



end
