(* ===== verification/Fast_Diffuser.thy ===== *)
theory Fast_Diffuser
  imports Low_Confidence
begin

text \<open>
  \<open>dllm/algorithm/fastdiffuser.py\<close>: block denoising with a reveal policy (confidence, leftmost,
  random), EOS propagation, early exit of finished requests by compaction of the batch, and the
  grids of log probabilities, commit steps and entropies returned with the tokens.

  A float that may be \<open>nan\<close> or \<open>-inf\<close> is an \<open>fval\<close>; logits in which entries have been set to
  \<open>-inf\<close> are \<open>rat option\<close> rows. The record \<open>fd_env\<close> holds what the algorithm calls and the sources do
  not define: the model, softmax and log-softmax, the entropy of a row of log probabilities, topk,
  the Gumbel noise and \<open>randperm\<close>; the last two draw from the same opaque state \<open>'m\<close> that the model
  runs on.
\<close>

datatype fval = NaN | NegInf | Fin rat

datatype selection_policy = Policy_confidence | Policy_leftmost | Policy_random

datatype logprob_mode = Fully_masked | Final_step | Trajectory

record fd_config =
  c_temperature :: "rat option"
  c_threshold :: "rat option"
  c_selection_policy :: "string option"
  c_tokens_per_step :: "int option"
  c_logprob_mode :: "string option"
  c_return_reveal_steps :: "bool option"
  c_return_entropy :: "bool option"
  c_eos_block_end_only :: "bool option"

record fast_diffuser = dllm_alg +
  temperature :: rat
  threshold :: "rat option"
  fd_max_steps :: nat
  fd_causal_context :: bool
  selection_policy :: selection_policy
  tokens_per_step :: "int option"
  logprob_mode :: logprob_mode
  return_reveal_steps :: bool
  return_entropy :: bool
  eos_block_end_only :: bool

definition parse_policy :: "string \<Rightarrow> selection_policy res" where
  "parse_policy s =
     (if s = ''confidence'' then Inr Policy_confidence
      else if s = ''leftmost'' then Inr Policy_leftmost
      else if s = ''random'' then Inr Policy_random
      else Inl ValueError)"

definition parse_logprob_mode :: "string \<Rightarrow> logprob_mode res" where
  "parse_logprob_mode s =
     (if s = ''fully_masked'' then Inr Fully_masked
      else if s = ''final_step'' then Inr Final_step
      else if s = ''trajectory'' then Inr Trajectory
      else Inl ValueError)"

definition fast_diffuser_init :: "dllm_config \<Rightarrow> fd_config \<Rightarrow> fast_diffuser res" where
  "fast_diffuser_init config cfg =
     rbind (parse_policy (get_or (c_selection_policy cfg) ''confidence'')) (\<lambda>policy.
       if policy \<in> {Policy_leftmost, Policy_random} \<and> c_threshold cfg \<noteq> None then Inl ValueError
       else rbind (parse_logprob_mode (get_or (c_logprob_mode cfg) ''fully_masked'')) (\<lambda>mode.
         Inr \<lparr>block_size = dc_block_size config, mask_id = dc_mask_id config,
              temperature = get_or (c_temperature cfg) 0, threshold = c_threshold cfg,
              fd_max_steps = max_steps config, fd_causal_context = causal_context config,
              selection_policy = policy, tokens_per_step = c_tokens_per_step cfg, logprob_mode = mode,
              return_reveal_steps = get_or (c_return_reveal_steps cfg) False,
              return_entropy = get_or (c_return_entropy cfg) False,
              eos_block_end_only = get_or (c_eos_block_end_only cfg) False\<rparr>))"

text \<open>
  The EOS id of the model's configuration, which may be missing, a number or a list; it is cached
  once it is known, and an empty list (an exception in the code) counts as missing.
\<close>

datatype eos_token_id = Eos_missing | Eos_int int | Eos_list "int list"

definition fd_get_eos_id :: "int option \<Rightarrow> eos_token_id \<Rightarrow> int option" where
  "fd_get_eos_id cached eos =
     (case cached of
        Some x \<Rightarrow> Some x
      | None \<Rightarrow>
          (case eos of
             Eos_missing \<Rightarrow> None
           | Eos_int x \<Rightarrow> Some x
           | Eos_list (x # xs) \<Rightarrow> Some x
           | Eos_list [] \<Rightarrow> None))"

section \<open>The batch\<close>

record forward_batch =
  batch_size :: nat
  input_ids :: "int list"
  req_pool_indices :: "int list"
  seq_lens :: "int list"
  out_cache_loc :: "int list"
  seq_lens_sum :: int
  positions :: "int list"
  extend_num_tokens :: nat
  extend_seq_lens :: "int list"
  extend_prefix_lens :: "int list"
  extend_start_loc :: "int list"
  extend_prefix_lens_cpu :: "int list option"
  extend_seq_lens_cpu :: "int list option"
  seq_lens_cpu :: "int list option"
  dllm_causal_kv_update :: bool
  return_logprob :: bool

definition gather :: "'a list \<Rightarrow> nat list \<Rightarrow> 'a list" where
  "gather xs is = map (\<lambda>i. xs ! i) is"

definition compact_forward_batch :: "nat \<Rightarrow> forward_batch \<Rightarrow> nat list \<Rightarrow> forward_batch" where
  "compact_forward_batch bs fb active_indices =
     (let n = length active_indices;
          token_idx = concat (map (\<lambda>a. [a * bs..<(a + 1) * bs]) active_indices);
          new_ext_seq = gather (extend_seq_lens fb) active_indices;
          new_seq_lens = gather (seq_lens fb) active_indices
      in fb\<lparr>batch_size := n,
            input_ids := gather (input_ids fb) token_idx,
            req_pool_indices := gather (req_pool_indices fb) active_indices,
            seq_lens := new_seq_lens,
            out_cache_loc := gather (out_cache_loc fb) token_idx,
            seq_lens_sum := sum_list new_seq_lens,
            positions := gather (positions fb) token_idx,
            extend_num_tokens := n * bs,
            extend_seq_lens := new_ext_seq,
            extend_prefix_lens := gather (extend_prefix_lens fb) active_indices,
            extend_start_loc := take n (0 # cumsum (butlast new_ext_seq)),
            extend_prefix_lens_cpu := map_option (\<lambda>l. gather l active_indices) (extend_prefix_lens_cpu fb),
            extend_seq_lens_cpu := map_option (\<lambda>l. gather l active_indices) (extend_seq_lens_cpu fb),
            seq_lens_cpu := map_option (\<lambda>l. gather l active_indices) (seq_lens_cpu fb)\<rparr>)"

record 'm fd_env =
  fd_forward :: "'m \<Rightarrow> forward_batch \<Rightarrow> (logits \<times> bool) \<times> 'm"
  fd_softmax :: "rat option list \<Rightarrow> rat list"
  fd_log_softmax :: "rat option list \<Rightarrow> fval list"
  fd_entropy :: "fval list \<Rightarrow> fval"
  fd_topk :: "rat option list \<Rightarrow> nat \<Rightarrow> nat list"
  fd_gumbel :: "'m \<Rightarrow> rat \<Rightarrow> rat option list list \<Rightarrow> rat option list list \<times> 'm"
  fd_randperm :: "'m \<Rightarrow> nat \<Rightarrow> nat list \<times> 'm"

section \<open>Helpers\<close>

definition get_num_transfer_tokens :: "nat \<Rightarrow> nat \<Rightarrow> nat list" where
  "get_num_transfer_tokens mask_count steps =
     (let base = mask_count div steps; remainder = mask_count mod steps
      in map (\<lambda>i. base + (if i < remainder then 1 else 0)) [0..<steps])"

definition add_gumbel_noise ::
  "'m fd_env \<Rightarrow> rat \<Rightarrow> rat option list list \<Rightarrow> 'm \<Rightarrow> rat option list list \<times> 'm" where
  "add_gumbel_noise e temp l m = (if temp = 0 then (l, m) else fd_gumbel e m temp l)"

definition neg_inf_at :: "int \<Rightarrow> rat option list \<Rightarrow> rat option list" where
  "neg_inf_at t row = row[nat t := None]"

definition compute_confidence ::
  "fast_diffuser \<Rightarrow> 'm fd_env \<Rightarrow> rat option list list \<Rightarrow> bool list \<Rightarrow> int list \<Rightarrow> bool list \<Rightarrow> 'm
    \<Rightarrow> (int list \<times> rat option list) \<times> 'm" where
  "compute_confidence a e l msk_index current_ids eos_freeze m =
     (let logits_for_argmax = map (neg_inf_at (mask_id a)) l;
          (logits_with_noise, m) = add_gumbel_noise e (temperature a) logits_for_argmax m;
          x0 = map argmax logits_with_noise;
          x0_p = map2 (\<lambda>row x. fd_softmax e row ! x) l x0;
          x0 = torch_where msk_index (map int x0) current_ids;
          active = map2 (\<lambda>b f. b \<and> \<not> f) msk_index eos_freeze
      in ((x0, confidence active x0_p), m))"

definition nonzero :: "bool list \<Rightarrow> nat list" where
  "nonzero bs = filter (\<lambda>i. bs ! i) [0..<length bs]"

definition select_transfer_indices ::
  "fast_diffuser \<Rightarrow> 'm fd_env \<Rightarrow> rat option list \<Rightarrow> bool list \<Rightarrow> bool list \<Rightarrow> int \<Rightarrow> 'm \<Rightarrow> nat list \<times> 'm" where
  "select_transfer_indices a e conf block_mask eos_freeze k m =
     (if k \<le> 0 then ([], m)
      else
        let active_idx = nonzero (map2 (\<lambda>b f. b \<and> \<not> f) block_mask eos_freeze)
        in case selection_policy a of
             Policy_confidence \<Rightarrow> (fd_topk e conf (nat k), m)
           | Policy_random \<Rightarrow>
               let (perm, m) = fd_randperm e m (length active_idx)
               in (map (\<lambda>i. active_idx ! i) (take (nat k) perm), m)
           | Policy_leftmost \<Rightarrow> (take (nat k) active_idx, m))"

text \<open>Row \<open>b\<close> of the tensors of a run: the block and, where they are kept, its grids.\<close>

record fd_row =
  row_ids :: "int list"
  row_logprobs :: "fval list option"
  row_steps :: "int list option"
  row_entropy :: "fval list option"

text \<open>\<open>t[idx] = vs\<close>.\<close>

definition index_put :: "nat list \<Rightarrow> 'a list \<Rightarrow> 'a list \<Rightarrow> 'a list" where
  "index_put is vs xs = foldl (\<lambda>xs (i, v). xs[i := v]) xs (zip is vs)"

definition record_token_logprobs ::
  "fast_diffuser \<Rightarrow> 'm fd_env \<Rightarrow> nat list \<Rightarrow> rat option list list \<Rightarrow> int list \<Rightarrow> fd_row \<Rightarrow> fd_row" where
  "record_token_logprobs a e idx l token_ids r =
     (case row_logprobs r of
        None \<Rightarrow> r
      | Some grid \<Rightarrow>
          if idx = [] then r
          else
            let logits_slice = gather l idx;
                logits_slice = (if temperature a > 0
                                then map (map (map_option (\<lambda>q. q / temperature a))) logits_slice
                                else logits_slice);
                logits_slice = map (neg_inf_at (mask_id a)) logits_slice;
                logprobs = map (fd_log_softmax e) logits_slice;
                token_logprobs = map2 (\<lambda>lp t. lp ! nat t) logprobs token_ids
            in r\<lparr>row_logprobs := Some (index_put idx token_logprobs grid),
                 row_entropy := map_option (index_put idx (map (fd_entropy e) logprobs)) (row_entropy r)\<rparr>)"

text \<open>\<open>commit_step_grid[b, idx] = step\<close> where the grid is kept.\<close>

definition set_commit_step :: "nat list \<Rightarrow> int \<Rightarrow> fd_row \<Rightarrow> fd_row" where
  "set_commit_step idx s r =
     r\<lparr>row_steps := map_option (index_put idx (replicate (length idx) s)) (row_steps r)\<rparr>"

section \<open>One denoising step of one request\<close>

text \<open>The EOS freeze: everything from the first generated EOS on.\<close>

definition generated_eos :: "int option \<Rightarrow> nat \<Rightarrow> bool list \<Rightarrow> int list \<Rightarrow> nat list" where
  "generated_eos eos_id gen_start block_mask block_ids =
     (case eos_id of
        None \<Rightarrow> []
      | Some e \<Rightarrow> nonzero (map (\<lambda>i. \<not> block_mask ! i \<and> gen_start \<le> i \<and> block_ids ! i = e) [0..<length block_ids]))"

definition eos_freeze_of :: "int option \<Rightarrow> nat \<Rightarrow> bool list \<Rightarrow> int list \<Rightarrow> bool list" where
  "eos_freeze_of eos_id gen_start block_mask block_ids =
     (case generated_eos eos_id gen_start block_mask block_ids of
        [] \<Rightarrow> replicate (length block_ids) False
      | first_eos # _ \<Rightarrow> map (\<lambda>i. first_eos \<le> i) [0..<length block_ids])"

definition clamp_eos :: "fast_diffuser \<Rightarrow> int option \<Rightarrow> rat option list list \<Rightarrow> rat option list list" where
  "clamp_eos a eos_id l =
     (case eos_id of
        Some e \<Rightarrow> if eos_block_end_only a \<and> l \<noteq> [] then map (neg_inf_at e) (butlast l) @ [last l] else l
      | None \<Rightarrow> l)"

definition step_budget :: "fast_diffuser \<Rightarrow> nat \<Rightarrow> rat option list \<Rightarrow> nat \<Rightarrow> int" where
  "step_budget a step conf remaining =
     (case selection_policy a of
        Policy_leftmost \<Rightarrow> (case tokens_per_step a of Some t \<Rightarrow> t | None \<Rightarrow> 1)
      | _ \<Rightarrow>
        (case threshold a of
           Some t \<Rightarrow> max 1 (int (length (filter (\<lambda>c. Some t \<le> c) conf)))
         | None \<Rightarrow> int (get_num_transfer_tokens remaining (fd_max_steps a - step) ! 0)))"

text \<open>EOS propagation: after an EOS was just placed, later masks of the block become EOS.\<close>

definition propagate_eos ::
  "fast_diffuser \<Rightarrow> 'm fd_env \<Rightarrow> int option \<Rightarrow> nat \<Rightarrow> nat \<Rightarrow> rat option list list \<Rightarrow> nat list \<Rightarrow> fd_row \<Rightarrow> fd_row" where
  "propagate_eos a e eos_id step gen_start block_logits top_idx r =
     (case eos_id of
        None \<Rightarrow> r
      | Some eos \<Rightarrow>
          let ids = row_ids r;
              gen_top_idx = filter (\<lambda>i. gen_start \<le> i) top_idx
          in if gen_top_idx \<noteq> [] \<and> (\<exists>i\<in>set gen_top_idx. ids ! i = eos) then
               (case nonzero (map (\<lambda>t. t = eos) (drop gen_start ids)) of
                  [] \<Rightarrow> r
                | g # _ \<Rightarrow>
                    let first_eos = gen_start + g;
                        still_mask = map (\<lambda>t. t = mask_id a) (drop first_eos ids);
                        propagated_idx = map (\<lambda>i. i + first_eos) (nonzero still_mask);
                        r = (if True \<in> set still_mask
                             then set_commit_step propagated_idx (int step)
                                    (record_token_logprobs a e propagated_idx block_logits
                                       (replicate (length propagated_idx) eos) r)
                             else r)
                    in r\<lparr>row_ids := take first_eos ids
                            @ map (\<lambda>t. if t = mask_id a then eos else t) (drop first_eos ids)\<rparr>)
             else r)"

text \<open>The token placement of one active request; the flag is its new \<open>finished\<close>.\<close>

definition place_tokens ::
  "fast_diffuser \<Rightarrow> 'm fd_env \<Rightarrow> int option \<Rightarrow> nat \<Rightarrow> nat \<Rightarrow> logits \<Rightarrow> fd_row \<Rightarrow> 'm \<Rightarrow> (fd_row \<times> bool) \<times> 'm" where
  "place_tokens a e eos_id step gen_start raw_logits r m =
     (let block_ids = row_ids r;
          block_mask = mask_index (mask_id a) block_ids
      in if True \<notin> set block_mask then ((r, True), m)
         else
           let block_logits = map (map Some) raw_logits;
               eos_freeze = eos_freeze_of eos_id gen_start block_mask block_ids;
               sampling_logits = clamp_eos a eos_id block_logits;
               ((x0, conf), m) = compute_confidence a e sampling_logits block_mask block_ids eos_freeze m;
               active_mask = map2 (\<lambda>b f. b \<and> \<not> f) block_mask eos_freeze;
               remaining = length (nonzero active_mask)
           in if remaining = 0 then ((r, True), m)
              else
                let k = min (step_budget a step conf remaining) (int remaining);
                    (top_idx, m) = select_transfer_indices a e conf block_mask eos_freeze k m;
                    r = record_token_logprobs a e top_idx block_logits (gather x0 top_idx) r;
                    r = set_commit_step top_idx (int step) r;
                    r = r\<lparr>row_ids := index_put top_idx (gather x0 top_idx) (row_ids r)\<rparr>;
                    r = propagate_eos a e eos_id step gen_start block_logits top_idx r
                in ((r, mask_id a \<notin> set (row_ids r)), m))"

section \<open>The run\<close>

record fd_stats =
  forward_passes :: nat
  stats_cuda_graph :: nat
  stats_eager :: nat

record fd_state =
  fd_rows :: "fd_row list"
  fd_finished :: "bool list"
  req_steps_active :: "nat list"
  fully_masked_logits :: "logits option"
  stats :: fd_stats

definition count_forward :: "bool \<Rightarrow> fd_stats \<Rightarrow> fd_stats" where
  "count_forward g s =
     (let s = s\<lparr>forward_passes := forward_passes s + 1\<rparr>
      in if g then s\<lparr>stats_cuda_graph := stats_cuda_graph s + 1\<rparr> else s\<lparr>stats_eager := stats_eager s + 1\<rparr>)"

text \<open>The flat \<open>input_ids\<close> of the batch, of which the rows are the blocks.\<close>

definition flat_ids :: "fd_state \<Rightarrow> int list" where
  "flat_ids st = concat (map row_ids (fd_rows st))"

definition place_request ::
  "fast_diffuser \<Rightarrow> 'm fd_env \<Rightarrow> int option \<Rightarrow> nat \<Rightarrow> nat list \<Rightarrow> logits \<Rightarrow> fd_state \<times> 'm \<Rightarrow> nat \<times> nat \<Rightarrow> fd_state \<times> 'm" where
  "place_request a e eos_id step starts full_logits = (\<lambda>(st, m) (compact_i, orig_b).
     let ((r, fin), m) = place_tokens a e eos_id step (starts ! orig_b)
                           (block (block_size a) compact_i full_logits) (fd_rows st ! orig_b) m
     in (st\<lparr>fd_rows := (fd_rows st)[orig_b := r],
            fd_finished := (if fin then (fd_finished st)[orig_b := True] else fd_finished st)\<rparr>, m))"

definition fd_step ::
  "fast_diffuser \<Rightarrow> 'm fd_env \<Rightarrow> int option \<Rightarrow> forward_batch \<Rightarrow> nat list \<Rightarrow> nat \<Rightarrow> fd_state \<times> 'm \<Rightarrow> fd_state \<times> 'm" where
  "fd_step a e eos_id fb starts step = (\<lambda>(st, m).
     let active_indices = nonzero (map Not (fd_finished st));
         st = st\<lparr>req_steps_active := map (\<lambda>b. req_steps_active st ! b + (if b \<in> set active_indices then 1 else 0))
                   [0..<length (req_steps_active st)]\<rparr>;
         fb = fb\<lparr>input_ids := flat_ids st\<rparr>;
         ((full_logits, g), m) =
           fd_forward e m (if length active_indices = batch_size fb then fb
                           else compact_forward_batch (block_size a) fb active_indices);
         st = st\<lparr>stats := count_forward g (stats st),
                 fully_masked_logits :=
                   (if step = 0 \<and> return_logprob fb \<and> selection_policy a = Policy_confidence
                    then Some full_logits else fully_masked_logits st)\<rparr>
     in foldl (place_request a e eos_id step starts full_logits) (st, m)
          (zip [0..<length active_indices] active_indices))"

fun fd_loop ::
  "fast_diffuser \<Rightarrow> 'm fd_env \<Rightarrow> int option \<Rightarrow> forward_batch \<Rightarrow> nat list \<Rightarrow> nat list \<Rightarrow> fd_state \<times> 'm \<Rightarrow> fd_state \<times> 'm" where
  "fd_loop a e eos_id fb starts [] x = x"
| "fd_loop a e eos_id fb starts (step # steps) (st, m) =
     (if False \<notin> set (fd_finished st) then (st, m)
      else fd_loop a e eos_id fb starts steps (fd_step a e eos_id fb starts step (st, m)))"

text \<open>Force-commit of the masks that denoising left.\<close>

definition force_commit ::
  "fast_diffuser \<Rightarrow> 'm fd_env \<Rightarrow> int option \<Rightarrow> nat \<Rightarrow> logits \<Rightarrow> fd_row \<Rightarrow> fd_row" where
  "force_commit a e eos_id gen_start raw_logits r =
     (let block_ids = row_ids r;
          remaining_mask = mask_index (mask_id a) block_ids
      in if True \<notin> set remaining_mask then r
         else
           let block_logits = map (\<lambda>row. neg_inf_at (mask_id a) (map Some row)) raw_logits;
               x0_final = map (\<lambda>row. int (argmax row)) (clamp_eos a eos_id block_logits);
               eos_freeze = eos_freeze_of eos_id gen_start remaining_mask block_ids;
               remaining_mask = map2 (\<lambda>b f. b \<and> \<not> f) remaining_mask eos_freeze;
               commit_idx = nonzero remaining_mask;
               r = record_token_logprobs a e commit_idx block_logits (gather x0_final commit_idx) r;
               r = set_commit_step commit_idx (int (fd_max_steps a)) r
           in r\<lparr>row_ids := torch_where remaining_mask x0_final block_ids\<rparr>)"

text \<open>
  After the tokens are fixed: the log probabilities of the fully masked forward (confidence reveal),
  the best-effort fill of gaps, and the sentinel of the \<open>final_step\<close> mode.
\<close>

definition logprobs_from_fully_masked ::
  "fast_diffuser \<Rightarrow> 'm fd_env \<Rightarrow> logits option \<Rightarrow> nat \<Rightarrow> nat \<Rightarrow> fd_row \<Rightarrow> fd_row" where
  "logprobs_from_fully_masked a e fml start b r =
     (case (row_logprobs r, fml) of
        (Some grid, Some l) \<Rightarrow>
          let r = r\<lparr>row_logprobs := Some (replicate (length grid) NaN)\<rparr>;
              idx = [start..<block_size a]
          in if idx = [] then r
             else record_token_logprobs a e idx (map (map Some) (block (block_size a) b l))
                    (gather (row_ids r) idx) r
      | _ \<Rightarrow> r)"

definition fill_missing_logprobs ::
  "fast_diffuser \<Rightarrow> 'm fd_env \<Rightarrow> logits \<Rightarrow> nat \<Rightarrow> fd_row \<Rightarrow> fd_row" where
  "fill_missing_logprobs a e raw_logits start r =
     (case row_logprobs r of
        None \<Rightarrow> r
      | Some grid \<Rightarrow>
          let missing_idx = map (\<lambda>i. i + start) (nonzero (map (\<lambda>v. v = NaN) (drop start grid)))
          in if missing_idx = [] then r
             else record_token_logprobs a e missing_idx (map (map Some) raw_logits)
                    (gather (row_ids r) missing_idx) r)"

definition final_step_sentinel :: "fd_row \<Rightarrow> fd_row" where
  "final_step_sentinel r =
     (case (row_steps r, row_logprobs r) of
        (Some cs, Some grid) \<Rightarrow>
          let committed = filter (\<lambda>c. 0 \<le> c) cs
          in if committed = [] then r
             else
               let lst = Max (set committed)
               in r\<lparr>row_logprobs := Some (map2 (\<lambda>c v. if 0 \<le> c \<and> c \<noteq> lst then Fin 1 else v) cs grid)\<rparr>
      | _ \<Rightarrow> r)"

definition finish_logprobs ::
  "fast_diffuser \<Rightarrow> 'm fd_env \<Rightarrow> logits option \<Rightarrow> logits \<Rightarrow> nat \<Rightarrow> nat \<Rightarrow> fd_row \<Rightarrow> fd_row" where
  "finish_logprobs a e fml final_logits start b r =
     (let r = (if selection_policy a = Policy_confidence \<and> logprob_mode a = Fully_masked
               then logprobs_from_fully_masked a e fml start b r else r);
          r = fill_missing_logprobs a e (block (block_size a) b final_logits) start r
      in if logprob_mode a = Final_step then final_step_sentinel r else r)"

record fd_output =
  out_logits :: "logits option"
  next_token_ids :: "int list list"
  next_token_logprobs :: "fval list list option"
  next_token_reveal_steps :: "int list list option"
  next_token_entropy :: "fval list list option"
  out_can_run_graph :: bool

definition init_row :: "fast_diffuser \<Rightarrow> bool \<Rightarrow> int list \<Rightarrow> fd_row" where
  "init_row a lp blk =
     \<lparr>row_ids = blk,
      row_logprobs = (if lp then Some (replicate (block_size a) NaN) else None),
      row_steps = (if lp \<and> (logprob_mode a \<noteq> Fully_masked \<or> return_reveal_steps a)
                   then Some (replicate (block_size a) (-1)) else None),
      row_entropy = (if lp \<and> return_entropy a then Some (replicate (block_size a) NaN) else None)\<rparr>"

definition init_state :: "fast_diffuser \<Rightarrow> forward_batch \<Rightarrow> fd_stats \<Rightarrow> fd_state" where
  "init_state a fb s =
     \<lparr>fd_rows = map (\<lambda>b. init_row a (return_logprob fb) (block (block_size a) b (input_ids fb))) [0..<batch_size fb],
      fd_finished = replicate (batch_size fb) False, req_steps_active = replicate (batch_size fb) 0,
      fully_masked_logits = None, stats = s\<rparr>"

definition opt_lists :: "(fd_row \<Rightarrow> 'a list option) \<Rightarrow> nat list \<Rightarrow> fd_row list \<Rightarrow> 'a list list" where
  "opt_lists f starts rows = map2 (\<lambda>r s. drop s (case f r of Some g \<Rightarrow> g | None \<Rightarrow> [])) rows starts"

definition fd_run ::
  "fast_diffuser \<Rightarrow> 'm fd_env \<Rightarrow> int option \<Rightarrow> forward_batch \<Rightarrow> fd_stats \<Rightarrow> 'm \<Rightarrow> (fd_output \<times> fd_state) \<times> 'm" where
  "fd_run a e eos_id fb s m =
     (if True \<notin> set (mask_index (mask_id a) (input_ids fb)) then
        if input_ids fb = [] then
          ((\<lparr>out_logits = None, next_token_ids = [], next_token_logprobs = None, next_token_reveal_steps = None,
             next_token_entropy = None, out_can_run_graph = False\<rparr>, init_state a fb s), m)
        else
          let ((l, g), m) = fd_forward e m fb
          in ((\<lparr>out_logits = Some l, next_token_ids = [], next_token_logprobs = None, next_token_reveal_steps = None,
                next_token_entropy = None, out_can_run_graph = g\<rparr>, init_state a fb s), m)
      else
        let starts = start_list (mask_id a) (block_size a) (batch_size fb) (input_ids fb);
            (st, m) = fd_loop a e eos_id fb starts [0..<fd_max_steps a] (init_state a fb s, m);
            ((l, g), m) = fd_forward e m (fb\<lparr>input_ids := flat_ids st,
                             dllm_causal_kv_update := fd_causal_context a \<or> dllm_causal_kv_update fb\<rparr>);
            rows = map (\<lambda>b. force_commit a e eos_id (starts ! b) (block (block_size a) b l) (fd_rows st ! b))
                     [0..<batch_size fb];
            rows = map (\<lambda>b. finish_logprobs a e (fully_masked_logits st) l (starts ! b) b (rows ! b))
                     [0..<batch_size fb];
            st = st\<lparr>fd_rows := rows, stats := count_forward g (stats st)\<rparr>;
            lp = return_logprob fb
        in ((\<lparr>out_logits = Some l,
              next_token_ids = map2 (\<lambda>r s. drop s (row_ids r)) rows starts,
              next_token_logprobs = (if lp then Some (opt_lists row_logprobs starts rows) else None),
              next_token_reveal_steps = (if lp \<and> return_reveal_steps a then Some (opt_lists row_steps starts rows) else None),
              next_token_entropy = (if lp \<and> return_entropy a then Some (opt_lists row_entropy starts rows) else None),
              out_can_run_graph = g\<rparr>, st), m))"

end
