(* ===== verification/FD_Commit.thy ===== *)
theory FD_Commit
  imports Fast_Diffuser
begin

text \<open>
  What a commit of tokens does to a row of a \<open>FastDiffuser\<close> run, and which positions and tokens a
  denoising step commits.
\<close>

section \<open>Indexing\<close>

lemma set_nonzero [simp]: "set (nonzero bs) = {i. i < length bs \<and> bs ! i}"
  by (auto simp: nonzero_def)

lemma distinct_nonzero [simp]: "distinct (nonzero bs)"
  by (simp add: nonzero_def)

lemma length_nonzero: "length (nonzero bs) = card {i. i < length bs \<and> bs ! i}"
  by (metis distinct_card distinct_nonzero set_nonzero)

lemma length_index_put [simp]: "length (index_put idx vs xs) = length xs"
proof -
  have "length (foldl (\<lambda>xs (i, v). xs[i := v]) xs ps) = length xs" for ps :: "(nat \<times> 'a) list" and xs :: "'a list"
    by (induction ps arbitrary: xs) auto
  then show ?thesis by (simp add: index_put_def)
qed

lemma index_put_Cons [simp]: "index_put (i # idx) (v # vs) xs = index_put idx vs (xs[i := v])"
  by (simp add: index_put_def)

lemma index_put_Nil [simp]: "index_put [] vs xs = xs"
  by (simp add: index_put_def)

lemma index_put_other: "length vs = length idx \<Longrightarrow> q \<notin> set idx \<Longrightarrow> index_put idx vs xs ! q = xs ! q"
  by (induction idx vs arbitrary: xs rule: list_induct2') auto

lemma index_put_at:
  "length vs = length idx \<Longrightarrow> distinct idx \<Longrightarrow> j < length idx \<Longrightarrow> idx ! j < length xs \<Longrightarrow>
   index_put idx vs xs ! (idx ! j) = vs ! j"
proof (induction idx vs arbitrary: xs j rule: list_induct2')
  case (4 i idx v vs)
  then show ?case
    by (cases j) (auto simp: index_put_other)
qed auto

lemma index_put_cases:
  assumes "length vs = length idx" "distinct idx" "q < length xs"
  obtains (old) "q \<notin> set idx" "index_put idx vs xs ! q = xs ! q"
  | (new) j where "j < length idx" "idx ! j = q" "index_put idx vs xs ! q = vs ! j"
proof (cases "q \<in> set idx")
  case True
  then obtain j where "j < length idx" "idx ! j = q" by (auto simp: in_set_conv_nth)
  then show ?thesis using new index_put_at [OF assms(1,2)] assms(3) by metis
qed (use old index_put_other [OF assms(1)] in blast)

section \<open>Committing tokens to a row\<close>

definition commit_row ::
  "fast_diffuser \<Rightarrow> 'm fd_env \<Rightarrow> nat list \<Rightarrow> rat option list list \<Rightarrow> int list \<Rightarrow> int \<Rightarrow> fd_row \<Rightarrow> fd_row" where
  "commit_row a e idx l toks s r =
     (set_commit_step idx s (record_token_logprobs a e idx l toks r))\<lparr>row_ids := index_put idx toks (row_ids r)\<rparr>"

text \<open>What the environment promises, for a vocabulary of \<open>V\<close> tokens.\<close>

definition finite_row :: "rat option list \<Rightarrow> bool" where
  "finite_row row \<longleftrightarrow> (\<exists>q. Some q \<in> set row)"

definition fd_env_ok :: "nat \<Rightarrow> 'm fd_env \<Rightarrow> bool" where
  "fd_env_ok V e \<longleftrightarrow>
     (\<forall>m fb. length (fst (fst (fd_forward e m fb))) = length (input_ids fb)
        \<and> (\<forall>row\<in>set (fst (fst (fd_forward e m fb))). length row = V))
     \<and> is_topk (fd_topk e)
     \<and> (\<forall>m t l. length (fst (fd_gumbel e m t l)) = length l
        \<and> (\<forall>i<length l. finite_row (l ! i) \<longrightarrow>
             argmax (fst (fd_gumbel e m t l) ! i) < length (l ! i)
             \<and> l ! i ! argmax (fst (fd_gumbel e m t l) ! i) \<noteq> None))
     \<and> (\<forall>m n. distinct (fst (fd_randperm e m n)) \<and> set (fst (fd_randperm e m n)) = {..<n})
     \<and> (\<forall>row. length (fd_log_softmax e row) = length row
        \<and> (finite_row row \<longrightarrow> NaN \<notin> set (fd_log_softmax e row)))"

text \<open>The mask and EOS tokens are tokens, and there is another one.\<close>

definition vocab_ok :: "nat \<Rightarrow> int \<Rightarrow> int option \<Rightarrow> bool" where
  "vocab_ok V msk eos_id \<longleftrightarrow> 0 \<le> msk \<and> msk < int V \<and> 3 \<le> V
     \<and> (\<forall>x. eos_id = Some x \<longrightarrow> 0 \<le> x \<and> x < int V \<and> x \<noteq> msk)"

text \<open>
  The invariant of a row: \<open>blk0\<close> is the block at the start, \<open>start\<close> where its masks begin, and \<open>hi\<close>
  bounds the commit steps so far. Every token from \<open>start\<close> on is one of the \<open>V\<close> tokens of the vocabulary.
\<close>

definition row_inv :: "nat \<Rightarrow> int \<Rightarrow> nat \<Rightarrow> int list \<Rightarrow> int \<Rightarrow> fd_row \<Rightarrow> bool" where
  "row_inv V msk start blk0 hi r \<longleftrightarrow>
     length (row_ids r) = length blk0 \<and> take start (row_ids r) = take start blk0
     \<and> (\<forall>q. start \<le> q \<and> q < length blk0 \<longrightarrow> 0 \<le> row_ids r ! q \<and> row_ids r ! q < int V)
     \<and> (\<forall>lp. row_logprobs r = Some lp \<longrightarrow> length lp = length blk0
          \<and> (\<forall>q. start \<le> q \<and> q < length blk0 \<and> row_ids r ! q \<noteq> msk \<longrightarrow> lp ! q \<noteq> NaN))
     \<and> (\<forall>cs. row_steps r = Some cs \<longrightarrow> length cs = length blk0
          \<and> (\<forall>q. start \<le> q \<and> q < length blk0 \<and> row_ids r ! q \<noteq> msk \<longrightarrow> 0 \<le> cs ! q \<and> cs ! q \<le> hi))
     \<and> (\<forall>en. row_entropy r = Some en \<longrightarrow> length en = length blk0)"

text \<open>Rows of logits from which a token other than the mask can be taken.\<close>

definition rows_fine :: "nat \<Rightarrow> int \<Rightarrow> nat \<Rightarrow> rat option list list \<Rightarrow> bool" where
  "rows_fine V msk n l \<longleftrightarrow> length l = n
     \<and> (\<forall>row\<in>set l. length row = V \<and> (\<exists>t<V. int t \<noteq> msk \<and> row ! t \<noteq> None))"

lemma finite_rowI: "t < length row \<Longrightarrow> row ! t \<noteq> None \<Longrightarrow> finite_row row"
  unfolding finite_row_def by (metis nth_mem option.exhaust)

lemma record_token_logprobs_fields [simp]:
  "row_ids (record_token_logprobs a e idx l toks r) = row_ids r"
  "row_steps (record_token_logprobs a e idx l toks r) = row_steps r"
  "row_logprobs (record_token_logprobs a e idx l toks r) = None \<longleftrightarrow> row_logprobs r = None"
  "row_entropy (record_token_logprobs a e idx l toks r) = None \<longleftrightarrow> row_entropy r = None"
  by (auto simp: record_token_logprobs_def Let_def split: option.splits)

lemma set_commit_step_fields [simp]:
  "row_ids (set_commit_step idx s r) = row_ids r"
  "row_logprobs (set_commit_step idx s r) = row_logprobs r"
  "row_entropy (set_commit_step idx s r) = row_entropy r"
  "row_steps (set_commit_step idx s r) = map_option (index_put idx (replicate (length idx) s)) (row_steps r)"
  by (simp_all add: set_commit_step_def)

lemma record_token_logprobs_grid:
  assumes env: "fd_env_ok V e" and l: "rows_fine V (mask_id a) n l" and v: "0 \<le> mask_id a"
    and idx: "distinct idx" "\<forall>i\<in>set idx. i < n" and toks: "length toks = length idx" "\<forall>t\<in>set toks. 0 \<le> t \<and> t < int V"
    and g: "row_logprobs r = Some grid" "length grid = n"
  obtains grid' where "row_logprobs (record_token_logprobs a e idx l toks r) = Some grid'" "length grid' = n"
    "\<And>q. q < n \<Longrightarrow> q \<in> set idx \<Longrightarrow> grid' ! q \<noteq> NaN" "\<And>q. q < n \<Longrightarrow> q \<notin> set idx \<Longrightarrow> grid' ! q = grid ! q"
proof -
  define sl where "sl = (if temperature a > 0 then map (map (map_option (\<lambda>q. q / temperature a))) (gather l idx)
      else gather l idx)"
  define lps where "lps = map (fd_log_softmax e) (map (neg_inf_at (mask_id a)) sl)"
  define tl where "tl = map2 (\<lambda>lp t. lp ! nat t) lps toks"
  define grid' where "grid' = index_put idx tl grid"
  have len: "length sl = length idx" "length tl = length idx" "length lps = length idx"
    using toks(1) by (simp_all add: sl_def lps_def tl_def gather_def)
  have r: "row_logprobs (record_token_logprobs a e idx l toks r) = Some grid'"
    using g(1) by (cases "idx = []") (simp_all add: record_token_logprobs_def Let_def grid'_def tl_def lps_def sl_def)
  have tok: "tl ! j \<noteq> NaN" if j: "j < length idx" for j
  proof -
    have "l ! (idx ! j) \<in> set l" using l idx(2) j by (simp add: rows_fine_def)
    then obtain t where t: "length (l ! (idx ! j)) = V" "t < V" "int t \<noteq> mask_id a" "l ! (idx ! j) ! t \<noteq> None"
      using l by (auto simp: rows_fine_def)
    let ?row = "neg_inf_at (mask_id a) (sl ! j)"
    have len_row: "length ?row = V" using t(1) j by (simp add: neg_inf_at_def sl_def gather_def)
    have "t \<noteq> nat (mask_id a)" using t(3) v by auto
    then have "?row ! t \<noteq> None" using t j by (simp add: neg_inf_at_def sl_def gather_def)
    then have "finite_row ?row" using finite_rowI [of t ?row] len_row t(2) by simp
    then have "NaN \<notin> set (fd_log_softmax e ?row)" "length (fd_log_softmax e ?row) = V"
      using env len_row unfolding fd_env_ok_def by auto
    moreover have "nat (toks ! j) < V" using toks j by (auto simp: nat_less_iff)
    moreover have "tl ! j = fd_log_softmax e ?row ! nat (toks ! j)"
      using len j toks(1) by (simp add: tl_def lps_def)
    ultimately show ?thesis by (metis nth_mem)
  qed
  have "grid' ! q \<noteq> NaN" if q: "q < n" "q \<in> set idx" for q
  proof -
    obtain j where "j < length idx" "idx ! j = q" using q(2) by (auto simp: in_set_conv_nth)
    then show ?thesis using index_put_at [OF len(2) idx(1)] tok q(1) g(2) by (metis grid'_def)
  qed
  moreover have "grid' ! q = grid ! q" if "q \<notin> set idx" for q
    using index_put_other [OF len(2) that] by (simp add: grid'_def)
  ultimately show ?thesis using that r g(2) by (simp add: grid'_def)
qed

lemma commit_row_ids [simp]: "row_ids (commit_row a e idx l toks s r) = index_put idx toks (row_ids r)"
  by (simp add: commit_row_def)

lemma commit_row_inv:
  assumes env: "fd_env_ok V e" and l: "rows_fine V (mask_id a) n l" and v: "0 \<le> mask_id a"
    and idx: "distinct idx" "\<forall>i\<in>set idx. start \<le> i \<and> i < n"
    and toks: "length toks = length idx" "\<forall>t\<in>set toks. 0 \<le> t \<and> t < int V"
    and s: "0 \<le> s" "s \<le> hi'" "hi \<le> hi'"
    and n: "length blk0 = n" and inv: "row_inv V (mask_id a) start blk0 hi r"
  shows "row_inv V (mask_id a) start blk0 hi' (commit_row a e idx l toks s r)" (is "row_inv _ _ _ _ _ ?r")
proof -
  have ids: "length (row_ids r) = n" "take start (row_ids r) = take start blk0" using inv n by (simp_all add: row_inv_def)
  have t: "take start (row_ids ?r) = take start blk0"
  proof (rule nth_equalityI)
    fix q assume "q < length (take start (row_ids ?r))"
    then have q: "q < start" "q < n" "q \<notin> set idx" using ids idx(2) by auto
    then have "row_ids ?r ! q = row_ids r ! q" using index_put_other [OF toks(1)] by simp
    moreover have "row_ids r ! q = blk0 ! q" using ids q n by (metis nth_take)
    ultimately show "take start (row_ids ?r) ! q = take start blk0 ! q" using q by simp
  qed (use ids n in simp)
  have old: "row_ids ?r ! q = row_ids r ! q" if "q \<notin> set idx" for q
    using index_put_other [OF toks(1) that] by simp
  have lp: "length lp = n \<and> (\<forall>q. start \<le> q \<and> q < n \<and> row_ids ?r ! q \<noteq> mask_id a \<longrightarrow> lp ! q \<noteq> NaN)"
    if lp: "row_logprobs ?r = Some lp" for lp
  proof -
    have "row_logprobs (record_token_logprobs a e idx l toks r) = Some lp" using lp by (simp add: commit_row_def)
    moreover from this obtain grid where g: "row_logprobs r = Some grid"
      by (metis not_None_eq record_token_logprobs_fields(3))
    moreover have "length grid = n" using inv g n by (simp add: row_inv_def)
    ultimately obtain "length lp = n" "\<And>q. q < n \<Longrightarrow> q \<in> set idx \<Longrightarrow> lp ! q \<noteq> NaN"
        "\<And>q. q < n \<Longrightarrow> q \<notin> set idx \<Longrightarrow> lp ! q = grid ! q"
      using record_token_logprobs_grid [OF env l v idx(1) _ toks] idx(2) by (metis option.inject)
    moreover have "grid ! q \<noteq> NaN" if "start \<le> q" "q < n" "row_ids r ! q \<noteq> mask_id a" for q
      using inv g n that by (simp add: row_inv_def)
    ultimately show ?thesis using old by metis
  qed
  have cs: "length cs = n \<and> (\<forall>q. start \<le> q \<and> q < n \<and> row_ids ?r ! q \<noteq> mask_id a \<longrightarrow> 0 \<le> cs ! q \<and> cs ! q \<le> hi')"
    if cs: "row_steps ?r = Some cs" for cs
  proof -
    obtain c0 where c0: "row_steps r = Some c0" "cs = index_put idx (replicate (length idx) s) c0"
      using cs by (auto simp: commit_row_def)
    have l0: "length c0 = n" using inv c0 n by (simp add: row_inv_def)
    have "0 \<le> cs ! q \<and> cs ! q \<le> hi'" if q: "start \<le> q" "q < n" "row_ids ?r ! q \<noteq> mask_id a" for q
    proof (cases rule: index_put_cases [of "replicate (length idx) s" idx q c0, case_names len d lt old new])
      case old
      moreover have "0 \<le> c0 ! q \<and> c0 ! q \<le> hi"
        using inv c0 n q index_put_other [OF toks(1) old(1)] by (simp add: row_inv_def)
      ultimately show ?thesis using c0 s by simp
    next
      case (new j)
      then show ?thesis using c0 s by simp
    qed (use idx(1) q l0 in simp_all)
    then show ?thesis using c0 l0 by simp
  qed
  have "length en = n" if "row_entropy ?r = Some en" for en
    using that inv n
    by (auto simp: commit_row_def record_token_logprobs_def Let_def row_inv_def split: option.splits if_splits)
  moreover have "0 \<le> row_ids ?r ! q \<and> row_ids ?r ! q < int V" if "start \<le> q" "q < n" for q
  proof (cases "q \<in> set idx")
    case True
    then obtain j where "j < length idx" "idx ! j = q" by (auto simp: in_set_conv_nth)
    then have "row_ids ?r ! q = toks ! j" "toks ! j \<in> set toks"
      using index_put_at [OF toks(1) idx(1), of j "row_ids r"] ids that toks(1) by simp_all
    then show ?thesis using toks(2) by simp
  next
    case False
    then show ?thesis using old inv n that by (simp add: row_inv_def)
  qed
  ultimately show ?thesis using t ids lp cs n unfolding row_inv_def by simp
qed

section \<open>Choosing positions and tokens\<close>

lemma topk_active:
  assumes topk: "is_topk topk" and k: "k \<le> card {i. i < length c \<and> c ! i \<noteq> None}"
  shows "length (topk c k) = k \<and> distinct (topk c k) \<and> (\<forall>i\<in>set (topk c k). i < length c \<and> c ! i \<noteq> None)"
proof -
  let ?S = "{i. i < length c \<and> c ! i \<noteq> None}"
  have "card ?S \<le> card {..<length c}" by (intro card_mono) auto
  then have kl: "k \<le> length c" using k by simp
  then have t: "length (topk c k) = k" "distinct (topk c k)" "set (topk c k) \<subseteq> {..<length c}"
    and m: "\<forall>i\<in>set (topk c k). \<forall>j<length c. j \<notin> set (topk c k) \<longrightarrow> c ! j \<le> c ! i"
    using topk unfolding is_topk_def by blast+
  have "c ! i \<noteq> None" if i: "i \<in> set (topk c k)" for i
  proof
    assume n: "c ! i = None"
    have "?S \<subseteq> set (topk c k) - {i}"
    proof
      fix j assume j: "j \<in> ?S"
      have "j \<in> set (topk c k)"
      proof (rule ccontr)
        assume "j \<notin> set (topk c k)"
        then have "c ! j \<le> None" using m i n j by (metis (no_types, lifting) mem_Collect_eq)
        then show False using j by (cases "c ! j") auto
      qed
      then show "j \<in> set (topk c k) - {i}" using j n by auto
    qed
    then have "card ?S \<le> card (set (topk c k) - {i})" by (intro card_mono) auto
    also have "\<dots> < card (set (topk c k))" using i by (intro psubset_card_mono) auto
    finally show False using k t(1,2) by (simp add: distinct_card)
  qed
  then show ?thesis using t by auto
qed

lemma select_transfer_props:
  assumes env: "fd_env_ok V e" and len: "length blk = length eos_freeze" "length p = length blk"
  defines "act \<equiv> map2 (\<lambda>b f. b \<and> \<not> f) blk eos_freeze"
  assumes k: "k \<le> int (length (nonzero act))"
    and sel: "select_transfer_indices a e (confidence act p) blk eos_freeze k m = (idx, m')"
  shows "distinct idx \<and> length idx = nat k \<and> (\<forall>i\<in>set idx. i < length blk \<and> act ! i)"
proof (cases "k \<le> 0")
  case True
  then show ?thesis using sel by (simp add: select_transfer_indices_def)
next
  case False
  have la: "length act = length blk" using len by (simp add: act_def)
  let ?A = "nonzero act"
  have kA: "nat k \<le> length ?A" using k by simp
  show ?thesis
  proof (cases "selection_policy a")
    case Policy_confidence
    have "{i. i < length (confidence act p) \<and> confidence act p ! i \<noteq> None} = {i. i < length act \<and> act ! i}"
      using la len by (auto split: if_splits)
    then have kk: "nat k \<le> card {i. i < length (confidence act p) \<and> confidence act p ! i \<noteq> None}"
      using kA length_nonzero [of act] by simp
    have "is_topk (fd_topk e)" using env by (simp add: fd_env_ok_def)
    note topk_active [OF this kk]
    moreover have "idx = fd_topk e (confidence act p) (nat k)"
      using sel False Policy_confidence by (simp add: select_transfer_indices_def Let_def)
    ultimately show ?thesis using la len by (auto split: if_splits)
  next
    case Policy_leftmost
    then have "idx = take (nat k) ?A" using sel False by (simp add: select_transfer_indices_def Let_def act_def)
    then show ?thesis using kA la set_take_subset [of "nat k" ?A] by auto
  next
    case Policy_random
    obtain perm m1 where r: "fd_randperm e m (length ?A) = (perm, m1)" by fastforce
    have p: "distinct perm" "set perm = {..<length ?A}"
      using env r unfolding fd_env_ok_def by (metis fst_conv)+
    then have lp: "length perm = length ?A" by (metis card_lessThan distinct_card)
    have "idx = map (\<lambda>i. ?A ! i) (take (nat k) perm)"
      using sel False Policy_random r by (simp add: select_transfer_indices_def Let_def act_def)
    moreover have "inj_on (\<lambda>i. ?A ! i) (set (take (nat k) perm))"
      using p set_take_subset [of "nat k" perm] by (intro inj_on_nth) auto
    moreover have "?A ! i \<in> set ?A" if "i \<in> set (take (nat k) perm)" for i
      using that p set_take_subset [of "nat k" perm] by (intro nth_mem) auto
    ultimately show ?thesis using p(1) lp kA la by (auto simp: distinct_map)
  qed
qed

text \<open>The token proposed for a masked position is a token of the vocabulary and not the mask.\<close>

lemma noisy_argmax:
  assumes env: "fd_env_ok V e" and l: "rows_fine V msk n l" and v: "0 \<le> msk" and q: "q < n"
    and nz: "add_gumbel_noise e temp (map (neg_inf_at msk) l) m = (l', m')"
  shows "length l' = n" "argmax (l' ! q) < V" "int (argmax (l' ! q)) \<noteq> msk"
proof -
  have ll: "length l = n" using l by (simp add: rows_fine_def)
  then have "l ! q \<in> set l" using q by simp
  then obtain t where t: "length (l ! q) = V" "t < V" "int t \<noteq> msk" "l ! q ! t \<noteq> None"
    using l by (auto simp: rows_fine_def)
  define row where "row = neg_inf_at msk (l ! q)"
  have row: "length row = V" "row ! t \<noteq> None" using t v by (auto simp: row_def neg_inf_at_def nth_list_update)
  have rq: "map (neg_inf_at msk) l ! q = row" using q ll by (simp add: row_def)
  have "length l' = n \<and> argmax (l' ! q) < V \<and> row ! argmax (l' ! q) \<noteq> None"
  proof (cases "temp = 0")
    case True
    then have l': "l' = map (neg_inf_at msk) l" using nz by (simp add: add_gumbel_noise_def)
    have "row \<noteq> []" using row(1) t(2) by auto
    then have "argmax row < V" using argmax_less row(1) by metis
    moreover have "row ! argmax row \<noteq> None"
    proof
      assume "row ! argmax row = None"
      moreover have "row ! t \<in> set row" using row(1) t(2) by simp
      ultimately show False using argmax_max [of "row ! t" row] row(2) by (cases "row ! t") auto
    qed
    ultimately show ?thesis using l' rq ll by simp
  next
    case False
    then have g: "fd_gumbel e m temp (map (neg_inf_at msk) l) = (l', m')" using nz by (simp add: add_gumbel_noise_def)
    have "finite_row row" using finite_rowI [of t row] row t(2) by simp
    moreover have "length (fst (fd_gumbel e m temp (map (neg_inf_at msk) l))) = length (map (neg_inf_at msk) l)
        \<and> (\<forall>i<length (map (neg_inf_at msk) l). finite_row (map (neg_inf_at msk) l ! i) \<longrightarrow>
             argmax (fst (fd_gumbel e m temp (map (neg_inf_at msk) l)) ! i) < length (map (neg_inf_at msk) l ! i)
             \<and> map (neg_inf_at msk) l ! i ! argmax (fst (fd_gumbel e m temp (map (neg_inf_at msk) l)) ! i) \<noteq> None)"
      using env unfolding fd_env_ok_def by blast
    ultimately show ?thesis using g rq q ll row(1) by (auto dest: spec [of _ q])
  qed
  moreover have "row ! nat msk = None" if "nat msk < V" using that t(1) by (simp add: row_def neg_inf_at_def)
  ultimately show "length l' = n" "argmax (l' ! q) < V" "int (argmax (l' ! q)) \<noteq> msk" by auto
qed

lemma rows_fine_clamp:
  assumes v: "vocab_ok V (mask_id a) eos_id" and l: "length l = n" "\<forall>row\<in>set l. length row = V"
    "\<And>row t. row \<in> set l \<Longrightarrow> t < V \<Longrightarrow> int t \<noteq> mask_id a \<Longrightarrow> row ! t \<noteq> None"
  shows "rows_fine V (mask_id a) n (clamp_eos a eos_id l)"
proof -
  have "\<exists>t<V. int t \<noteq> mask_id a \<and> (\<forall>x. eos_id = Some x \<longrightarrow> int t \<noteq> x)"
  proof -
    have three: "\<exists>t<3. int t \<noteq> x \<and> int t \<noteq> y" for x y :: int
    proof -
      consider "0 \<noteq> x \<and> 0 \<noteq> y" | "1 \<noteq> x \<and> 1 \<noteq> y" | "2 \<noteq> x \<and> 2 \<noteq> y" by linarith
      then show ?thesis
      proof cases
        case 1
        then show ?thesis by (intro exI [of _ 0]) simp
      next
        case 2
        then show ?thesis by (intro exI [of _ 1]) simp
      next
        case 3
        then show ?thesis by (intro exI [of _ 2]) simp
      qed
    qed
    obtain t where "t < 3" "int t \<noteq> mask_id a" "int t \<noteq> (case eos_id of Some x \<Rightarrow> x | None \<Rightarrow> mask_id a)"
      using three by blast
    then show ?thesis using v by (intro exI [of _ t]) (auto simp: vocab_ok_def)
  qed
  then obtain t where t: "t < V" "int t \<noteq> mask_id a" "\<forall>x. eos_id = Some x \<longrightarrow> int t \<noteq> x" by blast
  have "length row = V \<and> row ! t \<noteq> None" if row: "row \<in> set (clamp_eos a eos_id l)" for row
  proof -
    have "row \<in> set l \<or> (\<exists>x row'. eos_id = Some x \<and> row' \<in> set l \<and> row = neg_inf_at x row')"
      using row by (auto simp: clamp_eos_def split: option.splits if_splits dest: in_set_butlastD)
    then show ?thesis using l t v by (auto simp: neg_inf_at_def vocab_ok_def nth_list_update)
  qed
  moreover have "length (clamp_eos a eos_id l) = n" using l(1) by (auto simp: clamp_eos_def split: option.splits)
  ultimately show ?thesis using t unfolding rows_fine_def by blast
qed

end
