(* ===== verification/Fast_Diffuser_Correct.thy ===== *)
theory Fast_Diffuser_Correct
  imports FD_Commit
begin

text \<open>
  Correctness of \<open>FastDiffuser\<close>: the invariant of a row through the denoising loop, and the properties
  of the run.
\<close>

section \<open>The EOS freeze\<close>

text \<open>After the first generated EOS of a block there is no mask.\<close>

definition eos_inv :: "int \<Rightarrow> int option \<Rightarrow> nat \<Rightarrow> int list \<Rightarrow> bool" where
  "eos_inv msk eos_id start ids \<longleftrightarrow>
     (\<forall>x i j. eos_id = Some x \<and> start \<le> i \<and> i \<le> j \<and> j < length ids \<and> ids ! i = x \<longrightarrow> ids ! j \<noteq> msk)"

lemma frozen_not_masked:
  assumes "eos_inv msk eos_id start ids" "i < length ids" "eos_freeze_of eos_id start (mask_index msk ids) ids ! i"
  shows "ids ! i \<noteq> msk"
proof (cases "generated_eos eos_id start (mask_index msk ids) ids")
  case Nil
  then show ?thesis using assms by (simp add: eos_freeze_of_def)
next
  case (Cons f fs)
  obtain x where x: "eos_id = Some x" using Cons by (cases eos_id) (auto simp: generated_eos_def)
  have "f \<in> set (generated_eos eos_id start (mask_index msk ids) ids)" using Cons by simp
  then have "start \<le> f" "ids ! f = x" "f < length ids" by (auto simp: generated_eos_def x)
  moreover have "f \<le> i" using assms(2,3) Cons by (simp add: eos_freeze_of_def)
  ultimately show ?thesis using assms(1,2) x by (auto simp: eos_inv_def)
qed

lemma length_eos_freeze [simp]: "length (eos_freeze_of eos_id start bm ids) = length ids"
  by (auto simp: eos_freeze_of_def split: list.splits)

lemma active_eq_mask:
  assumes "eos_inv msk eos_id start ids"
  shows "map2 (\<lambda>b f. b \<and> \<not> f) (mask_index msk ids) (eos_freeze_of eos_id start (mask_index msk ids) ids)
     = mask_index msk ids"
  using frozen_not_masked [OF assms] by (intro nth_equalityI) auto

lemma length_nonzero_mask: "length (nonzero (mask_index msk ids)) = num_masks msk ids"
  unfolding length_nonzero num_masks_nth by (rule arg_cong [of _ _ card]) auto

text \<open>The propagation as one more commit.\<close>

definition prop_idx :: "int \<Rightarrow> nat \<Rightarrow> int list \<Rightarrow> nat list" where
  "prop_idx msk f ids = map (\<lambda>i. i + f) (nonzero (map (\<lambda>t. t = msk) (drop f ids)))"

lemma set_prop_idx: "f \<le> length ids \<Longrightarrow> set (prop_idx msk f ids) = {i. f \<le> i \<and> i < length ids \<and> ids ! i = msk}"
proof (intro set_eqI iffI)
  fix i assume f: "f \<le> length ids" and "i \<in> {i. f \<le> i \<and> i < length ids \<and> ids ! i = msk}"
  then have "i - f \<in> set (nonzero (map (\<lambda>t. t = msk) (drop f ids)))" "i = (i - f) + f" by auto
  then show "i \<in> set (prop_idx msk f ids)" unfolding prop_idx_def by (metis image_eqI set_map)
qed (auto simp: prop_idx_def add.commute)

lemma distinct_prop_idx [simp]: "distinct (prop_idx msk f ids)"
  by (simp add: prop_idx_def distinct_map)

lemma index_put_replicate:
  assumes "distinct idx" "q < length xs"
  shows "index_put idx (replicate (length idx) x) xs ! q = (if q \<in> set idx then x else xs ! q)"
proof (cases "q \<in> set idx")
  case True
  then obtain j where "j < length idx" "idx ! j = q" by (auto simp: in_set_conv_nth)
  then show ?thesis using index_put_at [of "replicate (length idx) x" idx j xs] assms True by simp
next
  case False
  then show ?thesis using index_put_other [of "replicate (length idx) x" idx q xs] by simp
qed

lemma index_put_prop:
  assumes "f \<le> length ids"
  shows "index_put (prop_idx msk f ids) (replicate (length (prop_idx msk f ids)) x) ids
     = take f ids @ map (\<lambda>t. if t = msk then x else t) (drop f ids)"
proof (rule nth_equalityI)
  fix q assume "q < length (index_put (prop_idx msk f ids) (replicate (length (prop_idx msk f ids)) x) ids)"
  then have q: "q < length ids" by simp
  have "(take f ids @ map (\<lambda>t. if t = msk then x else t) (drop f ids)) ! q
      = (if f \<le> q \<and> ids ! q = msk then x else ids ! q)"
    using q assms by (simp add: nth_append)
  then show "index_put (prop_idx msk f ids) (replicate (length (prop_idx msk f ids)) x) ids ! q
      = (take f ids @ map (\<lambda>t. if t = msk then x else t) (drop f ids)) ! q"
    using index_put_replicate [OF distinct_prop_idx q, of msk f ids x] set_prop_idx [OF assms, of msk] q by simp
qed (use assms in simp)

lemma commit_nothing [simp]: "set_commit_step [] s (record_token_logprobs a e [] l toks r) = r"
proof -
  have "map_option (index_put [] []) x = x" for x :: "int list option" by (cases x) simp_all
  then show ?thesis by (cases r) (simp add: set_commit_step_def record_token_logprobs_def split: option.splits)
qed

lemma propagate_eos_cases:
  assumes len: "\<forall>i\<in>set top_idx. i < length (row_ids r)"
  obtains (none) "propagate_eos a e eos_id step start l top_idx r = r"
      "\<forall>x. eos_id = Some x \<longrightarrow> (\<forall>i\<in>set top_idx. start \<le> i \<longrightarrow> row_ids r ! i \<noteq> x)"
  | (some) x f where "eos_id = Some x" "start \<le> f" "f < length (row_ids r)" "row_ids r ! f = x"
      "\<forall>i. start \<le> i \<and> i < f \<longrightarrow> row_ids r ! i \<noteq> x"
      "propagate_eos a e eos_id step start l top_idx r
        = commit_row a e (prop_idx (mask_id a) f (row_ids r)) l
            (replicate (length (prop_idx (mask_id a) f (row_ids r))) x) (int step) r"
proof (cases eos_id)
  case None
  then show ?thesis using none by (simp add: propagate_eos_def)
next
  case (Some x)
  let ?ids = "row_ids r" and ?g = "filter (\<lambda>i. start \<le> i) top_idx"
  show ?thesis
  proof (cases "\<exists>i\<in>set ?g. ?ids ! i = x")
    case False
    then have "propagate_eos a e eos_id step start l top_idx r = r"
      using Some by (auto simp: propagate_eos_def Let_def)
    then show ?thesis using none False Some by auto
  next
    case True
    then obtain i where i: "i \<in> set top_idx" "start \<le> i" "?ids ! i = x" by auto
    let ?nz = "nonzero (map (\<lambda>t. t = x) (drop start ?ids))"
    have "i < length ?ids" using i(1) len by blast
    then have "i - start < length (drop start ?ids)" using i(2) by simp
    then have "i - start \<in> set ?nz" using i(2,3) by simp
    then obtain g gs where g: "?nz = g # gs" by (cases ?nz) auto
    have "g \<in> set ?nz" using g by simp
    then have gp: "start + g < length ?ids" "?ids ! (start + g) = x" by auto
    have "sorted ?nz" by (simp add: nonzero_def sorted_wrt_filter)
    then have first: "\<forall>i. start \<le> i \<and> i < start + g \<longrightarrow> ?ids ! i \<noteq> x"
    proof (intro allI impI notI)
      fix j assume s: "sorted ?nz" and j: "start \<le> j \<and> j < start + g" "?ids ! j = x"
      then have "j - start \<in> set ?nz" using gp(1) by auto
      then have "g \<le> j - start" using s g by auto
      then show False using j(1) by linarith
    qed
    let ?f = "start + g" and ?p = "prop_idx (mask_id a) (start + g) ?ids"
    have "i \<in> set ?g" using i(1,2) by simp
    then have "?g \<noteq> []" by (metis empty_iff empty_set)
    then have c: "?g \<noteq> [] \<and> (\<exists>i\<in>set ?g. ?ids ! i = x)" using True by blast
    have e: "propagate_eos a e eos_id step start l top_idx r =
       (if True \<in> set (map (\<lambda>t. t = mask_id a) (drop ?f ?ids))
        then set_commit_step ?p (int step) (record_token_logprobs a e ?p l (replicate (length ?p) x) r) else r)
       \<lparr>row_ids := take ?f ?ids @ map (\<lambda>t. if t = mask_id a then x else t) (drop ?f ?ids)\<rparr>"
      unfolding propagate_eos_def Let_def Some option.case if_P [OF c] g list.case prop_idx_def by (rule refl)
    have "?p = []" if "True \<notin> set (map (\<lambda>t. t = mask_id a) (drop ?f ?ids))"
    proof -
      have "mask_id a \<notin> set (drop ?f ?ids)" using that by auto
      moreover have "?ids ! i \<in> set (drop ?f ?ids)" if "?f \<le> i" "i < length ?ids" for i
        using that nth_mem [of "i - ?f" "drop ?f ?ids"] by simp
      ultimately have "i \<notin> set ?p" for i
        unfolding set_prop_idx [OF less_imp_le [OF gp(1)]] by (metis (mono_tags, lifting) mem_Collect_eq)
      then show ?thesis by (meson all_not_in_conv set_empty)
    qed
    then have "(if True \<in> set (map (\<lambda>t. t = mask_id a) (drop ?f ?ids))
        then set_commit_step ?p (int step) (record_token_logprobs a e ?p l (replicate (length ?p) x) r) else r)
      = set_commit_step ?p (int step) (record_token_logprobs a e ?p l (replicate (length ?p) x) r)"
      using commit_nothing by simp
    then have "propagate_eos a e eos_id step start l top_idx r
        = commit_row a e ?p l (replicate (length ?p) x) (int step) r"
      unfolding e commit_row_def using index_put_prop [of ?f ?ids "mask_id a" x] gp(1) by simp
    then show ?thesis using some [of x ?f] Some gp first by simp
  qed
qed

section \<open>One step of one request\<close>

text \<open>The whole invariant of a request during the loop.\<close>

definition req_inv :: "nat \<Rightarrow> int \<Rightarrow> int option \<Rightarrow> nat \<Rightarrow> int list \<Rightarrow> int \<Rightarrow> fd_row \<Rightarrow> bool" where
  "req_inv V msk eos_id start blk0 hi r \<longleftrightarrow>
     row_inv V msk start blk0 hi r \<and> eos_inv msk eos_id start (row_ids r) \<and> start \<le> length blk0
     \<and> msk \<notin> set (take start blk0)"

lemma masked_ge_start:
  assumes "req_inv V msk eos_id start blk0 hi r" "q < length blk0" "row_ids r ! q = msk"
  shows "start \<le> q"
proof (rule ccontr)
  assume q: "\<not> start \<le> q"
  then have "take start (row_ids r) ! q = msk" using assms(3) by simp
  then have "take start blk0 ! q = msk" using assms(1) by (simp add: req_inv_def row_inv_def)
  moreover have "take start blk0 ! q \<in> set (take start blk0)" using q assms(2) by (intro nth_mem) simp
  ultimately show False using assms(1) by (simp add: req_inv_def)
qed

lemma eos_inv_commit:
  assumes "eos_inv msk eos_id start ids" "length toks = length idx" "distinct idx" "\<forall>t\<in>set toks. t \<noteq> msk"
    and new: "\<forall>x. eos_id = Some x \<longrightarrow> (\<forall>i\<in>set idx. start \<le> i \<longrightarrow> index_put idx toks ids ! i \<noteq> x)"
  shows "eos_inv msk eos_id start (index_put idx toks ids)"
  unfolding eos_inv_def
proof (intro allI impI, elim conjE)
  fix x i j assume x: "eos_id = Some x" and ij: "start \<le> i" "i \<le> j" "j < length (index_put idx toks ids)"
    and e: "index_put idx toks ids ! i = x"
  have "i \<notin> set idx" using new x ij(1) e by blast
  then have "ids ! i = x" using e index_put_other [OF assms(2)] by simp
  then have "ids ! j \<noteq> msk" using assms(1) x ij by (auto simp: eos_inv_def)
  then show "index_put idx toks ids ! j \<noteq> msk"
    using index_put_cases [OF assms(2,3), of j ids] ij(3) assms(2,4) by (metis length_index_put nth_mem)
qed

text \<open>The loop body as a commit followed by the propagation.\<close>

lemma place_tokens_unfold:
  assumes inv: "eos_inv (mask_id a) eos_id start (row_ids r)" and mem: "mask_id a \<in> set (row_ids r)"
    and pt: "place_tokens a e eos_id step start l r m = ((r', fin), m')"
  defines "bl \<equiv> map (map Some) l"
  obtains nz m1 idx x0 k where
    "add_gumbel_noise e (temperature a) (map (neg_inf_at (mask_id a)) (clamp_eos a eos_id bl)) m = (nz, m1)"
    "x0 = torch_where (mask_index (mask_id a) (row_ids r)) (map int (map argmax nz)) (row_ids r)"
    "k = min (step_budget a step (confidence (mask_index (mask_id a) (row_ids r))
            (map2 (\<lambda>row x. fd_softmax e row ! x) (clamp_eos a eos_id bl) (map argmax nz)))
            (num_masks (mask_id a) (row_ids r))) (int (num_masks (mask_id a) (row_ids r)))"
    "select_transfer_indices a e (confidence (mask_index (mask_id a) (row_ids r))
        (map2 (\<lambda>row x. fd_softmax e row ! x) (clamp_eos a eos_id bl) (map argmax nz)))
        (mask_index (mask_id a) (row_ids r)) (eos_freeze_of eos_id start (mask_index (mask_id a) (row_ids r)) (row_ids r)) k m1
      = (idx, m')"
    "r' = propagate_eos a e eos_id step start bl idx (commit_row a e idx bl (gather x0 idx) (int step) r)"
    "fin = (mask_id a \<notin> set (row_ids r'))"
proof -
  have nm: "num_masks (mask_id a) (row_ids r) \<noteq> 0" using mem by simp
  show ?thesis
    using pt mem nm that
    unfolding place_tokens_def Let_def compute_confidence_def bl_def commit_row_def
    by (auto simp: active_eq_mask [OF inv] length_nonzero_mask split: prod.splits)
qed

lemma num_masks_commit:
  assumes "length toks = length idx" "distinct idx" "\<forall>t\<in>set toks. t \<noteq> msk"
    and "\<forall>i\<in>set idx. i < length ids \<and> ids ! i = msk"
  shows "num_masks msk (index_put idx toks ids) + length idx = num_masks msk ids"
proof -
  have "{i. i < length (index_put idx toks ids) \<and> index_put idx toks ids ! i = msk}
      = {i. i < length ids \<and> ids ! i = msk} - set idx" (is "?L = ?R")
  proof (intro set_eqI)
    fix i
    show "i \<in> ?L \<longleftrightarrow> i \<in> ?R"
    proof (cases "i < length ids")
      case True
      then show ?thesis
        using index_put_cases [OF assms(1,2) True] assms(1,3)
        by (metis (mono_tags, lifting) Diff_iff length_index_put mem_Collect_eq nth_mem)
    qed simp
  qed
  moreover have "card ({i. i < length ids \<and> ids ! i = msk} - set idx) + length idx = card {i. i < length ids \<and> ids ! i = msk}"
  proof -
    have "set idx \<subseteq> {i. i < length ids \<and> ids ! i = msk}" using assms(4) by auto
    then show ?thesis
      using card_Diff_subset [of "set idx" "{i. i < length ids \<and> ids ! i = msk}"]
        card_mono [of "{i. i < length ids \<and> ids ! i = msk}" "set idx"] distinct_card [OF assms(2)] by simp
  qed
  ultimately show ?thesis by (simp only: num_masks_nth)
qed

lemma fine_some:
  assumes "vocab_ok V msk eos_id" "length l = n" "\<forall>row\<in>set l. length row = V"
  shows "rows_fine V msk n (map (map Some) l)"
proof -
  have "\<exists>t<V. int t \<noteq> msk"
    using assms(1) by (cases "msk = 0") (auto simp: vocab_ok_def intro: exI [of _ 0] exI [of _ 1])
  then show ?thesis using assms by (auto simp: rows_fine_def)
qed

text \<open>What a step commits before the propagation.\<close>

lemma place_tokens_commit:
  assumes env: "fd_env_ok V e" and v: "vocab_ok V (mask_id a) eos_id"
    and l: "length l = length blk0" "\<forall>row\<in>set l. length row = V"
    and inv: "req_inv V (mask_id a) eos_id start blk0 hi r" and mem: "mask_id a \<in> set (row_ids r)"
    and pt: "place_tokens a e eos_id step start l r m = ((r', fin), m')"
  obtains idx toks conf where
    "distinct idx" "\<forall>i\<in>set idx. start \<le> i \<and> i < length blk0 \<and> row_ids r ! i = mask_id a"
    "length toks = length idx" "\<forall>t\<in>set toks. t \<noteq> mask_id a \<and> 0 \<le> t \<and> t < int V"
    "length idx = nat (min (step_budget a step conf (num_masks (mask_id a) (row_ids r))) (int (num_masks (mask_id a) (row_ids r))))"
    "r' = propagate_eos a e eos_id step start (map (map Some) l) idx (commit_row a e idx (map (map Some) l) toks (int step) r)"
    "fin = (mask_id a \<notin> set (row_ids r'))"
proof -
  let ?msk = "mask_id a" and ?ids = "row_ids r" and ?bl = "map (map Some) l"
  define mi where "mi = mask_index (mask_id a) (row_ids r)"
  have len: "length ?ids = length blk0" and einv: "eos_inv ?msk eos_id start ?ids"
    using inv by (simp_all add: req_inv_def row_inv_def)
  have v0: "0 \<le> ?msk" using v by (simp add: vocab_ok_def)
  obtain nz m1 idx x0 k where
      nz: "add_gumbel_noise e (temperature a) (map (neg_inf_at ?msk) (clamp_eos a eos_id ?bl)) m = (nz, m1)"
      and x0: "x0 = torch_where mi (map int (map argmax nz)) ?ids"
      and k: "k = min (step_budget a step (confidence mi
            (map2 (\<lambda>row x. fd_softmax e row ! x) (clamp_eos a eos_id ?bl) (map argmax nz)))
            (num_masks ?msk ?ids)) (int (num_masks ?msk ?ids))"
      and sel: "select_transfer_indices a e (confidence mi
        (map2 (\<lambda>row x. fd_softmax e row ! x) (clamp_eos a eos_id ?bl) (map argmax nz)))
        mi (eos_freeze_of eos_id start mi ?ids) k m1 = (idx, m')"
      and r': "r' = propagate_eos a e eos_id step start ?bl idx (commit_row a e idx ?bl (gather x0 idx) (int step) r)"
      and fin: "fin = (?msk \<notin> set (row_ids r'))"
    unfolding mi_def by (rule place_tokens_unfold [OF einv mem pt])
  have cl: "rows_fine V ?msk (length blk0) (clamp_eos a eos_id ?bl)"
    using l by (intro rows_fine_clamp [OF v]) auto
  note am = noisy_argmax [OF env cl v0 _ nz]
  have lnz: "length nz = length blk0" using am(1) [of 0] mem len by (cases "length blk0") auto
  have lmi: "length mi = length blk0" using len by (simp add: mi_def)
  have act: "map2 (\<lambda>b f. b \<and> \<not> f) mi (eos_freeze_of eos_id start mi ?ids) = mi"
    using active_eq_mask [OF einv] by (simp add: mi_def)
  have kn: "k \<le> int (length (nonzero mi))" using k by (simp add: mi_def length_nonzero_mask)
  have "distinct idx \<and> length idx = nat k \<and> (\<forall>i\<in>set idx. i < length mi \<and> mi ! i)"
  proof (rule select_transfer_props [where blk = mi and eos_freeze = "eos_freeze_of eos_id start mi ?ids", unfolded act, OF env _ _ kn sel])
    show "length mi = length (eos_freeze_of eos_id start mi ?ids)" using lmi len by simp
    show "length (map2 (\<lambda>row x. fd_softmax e row ! x) (clamp_eos a eos_id ?bl) (map argmax nz)) = length mi"
      using cl lnz lmi by (simp add: rows_fine_def)
  qed
  then have idx: "distinct idx" "length idx = nat k" "\<forall>i\<in>set idx. i < length blk0 \<and> ?ids ! i = ?msk"
    using lmi len by (auto simp: mi_def)
  have idx': "\<forall>i\<in>set idx. start \<le> i \<and> i < length blk0 \<and> ?ids ! i = ?msk"
    using idx(3) masked_ge_start [OF inv] by blast
  have "\<forall>t\<in>set (gather x0 idx). t \<noteq> ?msk \<and> 0 \<le> t \<and> t < int V"
  proof
    fix t assume "t \<in> set (gather x0 idx)"
    then obtain i where i: "i \<in> set idx" "t = x0 ! i" by (auto simp: gather_def)
    have il: "i < length blk0" "?ids ! i = ?msk" using i(1) idx(3) by blast+
    then have "t = int (argmax (nz ! i))" using i(2) lnz len by (simp add: x0 mi_def)
    then show "t \<noteq> ?msk \<and> 0 \<le> t \<and> t < int V" using am(2,3) [OF il(1)] by simp
  qed
  then show ?thesis using that [OF idx(1) idx' _ _ idx(2) [unfolded k] r' fin] by (simp add: gather_def)
qed

lemma propagate_eos_inv:
  assumes env: "fd_env_ok V e" and v: "vocab_ok V (mask_id a) eos_id" and bl: "rows_fine V (mask_id a) (length blk0) l"
    and inv: "row_inv V (mask_id a) start blk0 (int step) r" and idx: "\<forall>i\<in>set idx. i < length blk0"
    and none: "(\<forall>x. eos_id = Some x \<longrightarrow> (\<forall>i\<in>set idx. start \<le> i \<longrightarrow> row_ids r ! i \<noteq> x)) \<Longrightarrow>
      eos_inv (mask_id a) eos_id start (row_ids r)"
  defines "r' \<equiv> propagate_eos a e eos_id step start l idx r"
  shows "row_inv V (mask_id a) start blk0 (int step) r' \<and> eos_inv (mask_id a) eos_id start (row_ids r')
     \<and> num_masks (mask_id a) (row_ids r') \<le> num_masks (mask_id a) (row_ids r)"
proof -
  let ?msk = "mask_id a"
  have l1: "length (row_ids r) = length blk0" using inv by (simp add: row_inv_def)
  have "\<forall>i\<in>set idx. i < length (row_ids r)" using idx l1 by simp
  then show ?thesis
  proof (cases rule: propagate_eos_cases [where a = a and e = e and eos_id = eos_id and step = step and start = start and l = l])
    case none': none
    then show ?thesis using inv none by (simp add: r'_def)
  next
    case (some x f)
    define P where "P = prop_idx ?msk f (row_ids r)"
    have sp: "set P = {i. f \<le> i \<and> i < length blk0 \<and> row_ids r ! i = ?msk}"
      using set_prop_idx [of f "row_ids r" ?msk] some(3) l1 by (simp add: P_def)
    have dP: "distinct P" by (simp add: P_def)
    have r2: "r' = commit_row a e P l (replicate (length P) x) (int step) r" using some(6) by (simp add: r'_def P_def)
    have x: "x \<noteq> ?msk" "0 \<le> x" "x < int V" "0 \<le> ?msk" using v some(1) by (simp_all add: vocab_ok_def)
    have "\<forall>i\<in>set P. start \<le> i \<and> i < length blk0" using sp some(2) by auto
    then have inv2: "row_inv V ?msk start blk0 (int step) r'"
      unfolding r2 using x by (intro commit_row_inv [OF env bl x(4) dP _ _ _ _ _ _ refl inv]) auto
    have "num_masks ?msk (row_ids r') + length P = num_masks ?msk (row_ids r)"
      unfolding r2 commit_row_ids using sp x l1 by (intro num_masks_commit [OF _ dP]) auto
    moreover have nth2: "row_ids r' ! q = (if q \<in> set P then x else row_ids r ! q)" if "q < length blk0" for q
      unfolding r2 commit_row_ids using index_put_replicate [OF dP, of q "row_ids r"] that l1 by simp
    moreover have "eos_inv ?msk eos_id start (row_ids r')"
      unfolding eos_inv_def
    proof (intro allI impI, elim conjE)
      fix y i j assume y: "eos_id = Some y" and ij: "start \<le> i" "i \<le> j" "j < length (row_ids r')" "row_ids r' ! i = y"
      have jl: "j < length blk0" "i < length blk0" using ij l1 by (simp_all add: r2)
      have "f \<le> i"
      proof (rule ccontr)
        assume nf: "\<not> f \<le> i"
        then have "i \<notin> set P" using sp by simp
        then have "row_ids r' ! i = row_ids r ! i" using nth2 [OF jl(2)] by simp
        moreover have "row_ids r ! i \<noteq> x" using some(5) ij(1) nf by simp
        ultimately show False using y some(1) ij(4) by simp
      qed
      then show "row_ids r' ! j \<noteq> ?msk" using nth2 [OF jl(1)] sp ij(2) jl(1) x(1) by auto
    qed
    ultimately show ?thesis using inv2 by simp
  qed
qed

lemma row_inv_mono: "row_inv V msk start blk0 hi r \<Longrightarrow> hi \<le> hi' \<Longrightarrow> row_inv V msk start blk0 hi' r"
  unfolding row_inv_def by (meson order_trans)

lemma place_tokens_inv:
  assumes env: "fd_env_ok V e" and v: "vocab_ok V (mask_id a) eos_id"
    and l: "length l = length blk0" "\<forall>row\<in>set l. length row = V"
    and inv: "req_inv V (mask_id a) eos_id start blk0 hi r" and hi: "hi \<le> int step"
    and pt: "place_tokens a e eos_id step start l r m = ((r', fin), m')"
  shows "req_inv V (mask_id a) eos_id start blk0 (int step) r' \<and> (fin \<longrightarrow> mask_id a \<notin> set (row_ids r'))
    \<and> (mask_id a \<in> set (row_ids r) \<longrightarrow> (\<exists>conf. num_masks (mask_id a) (row_ids r')
        + nat (min (step_budget a step conf (num_masks (mask_id a) (row_ids r))) (int (num_masks (mask_id a) (row_ids r))))
        \<le> num_masks (mask_id a) (row_ids r)))"
proof (cases "mask_id a \<in> set (row_ids r)")
  case False
  then have "r' = r" using pt by (simp add: place_tokens_def)
  moreover have "row_inv V (mask_id a) start blk0 (int step) r"
    using inv row_inv_mono [OF _ hi] by (simp add: req_inv_def)
  ultimately show ?thesis using inv False by (simp add: req_inv_def)
next
  case True
  let ?msk = "mask_id a" and ?bl = "map (map Some) l"
  obtain idx toks conf where idx: "distinct idx"
      "\<forall>i\<in>set idx. start \<le> i \<and> i < length blk0 \<and> row_ids r ! i = ?msk"
    and toks: "length toks = length idx" "\<forall>t\<in>set toks. t \<noteq> ?msk \<and> 0 \<le> t \<and> t < int V"
    and k: "length idx = nat (min (step_budget a step conf (num_masks ?msk (row_ids r))) (int (num_masks ?msk (row_ids r))))"
    and r': "r' = propagate_eos a e eos_id step start ?bl idx (commit_row a e idx ?bl toks (int step) r)"
    and fin: "fin = (?msk \<notin> set (row_ids r'))"
    by (rule place_tokens_commit [OF env v l inv True pt])
  have rinv: "row_inv V ?msk start blk0 hi r" and einv: "eos_inv ?msk eos_id start (row_ids r)"
    and st: "start \<le> length blk0" "?msk \<notin> set (take start blk0)" and len: "length (row_ids r) = length blk0"
    using inv by (simp_all add: req_inv_def row_inv_def)
  have v0: "0 \<le> ?msk" using v by (simp add: vocab_ok_def)
  have bl: "rows_fine V ?msk (length blk0) ?bl" by (rule fine_some [OF v l])
  define r1 where "r1 = commit_row a e idx ?bl toks (int step) r"
  have inv1: "row_inv V ?msk start blk0 (int step) r1"
    unfolding r1_def using toks idx hi
    by (intro commit_row_inv [OF env bl v0 idx(1) _ toks(1) _ _ _ _ refl rinv]) auto
  have n1: "num_masks ?msk (row_ids r1) + length idx = num_masks ?msk (row_ids r)"
    unfolding r1_def commit_row_ids using toks idx len by (intro num_masks_commit [OF toks(1) idx(1)]) auto
  have none: "eos_inv ?msk eos_id start (row_ids r1)"
    if "\<forall>x. eos_id = Some x \<longrightarrow> (\<forall>i\<in>set idx. start \<le> i \<longrightarrow> row_ids r1 ! i \<noteq> x)"
    using that toks unfolding r1_def commit_row_ids by (intro eos_inv_commit [OF einv toks(1) idx(1)]) auto
  have "\<forall>i\<in>set idx. i < length blk0" using idx(2) by blast
  from propagate_eos_inv [OF env v bl inv1 this none]
  have p: "row_inv V ?msk start blk0 (int step) r'" "eos_inv ?msk eos_id start (row_ids r')"
    "num_masks ?msk (row_ids r') \<le> num_masks ?msk (row_ids r1)"
    unfolding r' r1_def by blast+
  have "num_masks ?msk (row_ids r') + nat (min (step_budget a step conf (num_masks ?msk (row_ids r)))
      (int (num_masks ?msk (row_ids r)))) \<le> num_masks ?msk (row_ids r)"
    using p(3) n1 k by linarith
  moreover have "req_inv V ?msk eos_id start blk0 (int step) r'" using p(1,2) st by (simp add: req_inv_def)
  ultimately show ?thesis using fin by blast
qed

section \<open>The force-commit\<close>

lemma argmax_finite: "finite_row row \<Longrightarrow> argmax row < length row \<and> row ! argmax row \<noteq> None"
proof -
  assume "finite_row row"
  then obtain q where q: "Some q \<in> set row" by (auto simp: finite_row_def)
  then have "Some q \<le> row ! argmax row" by (rule argmax_max)
  then have "row ! argmax row \<noteq> None" by (cases "row ! argmax row") auto
  moreover have "row \<noteq> []" using q by auto
  ultimately show ?thesis using argmax_less by blast
qed

lemma index_put_nonzero:
  assumes "length m = length ids" "length x = length ids"
  shows "torch_where m x ids = index_put (nonzero m) (gather x (nonzero m)) ids"
proof (rule nth_equalityI)
  fix q assume "q < length (torch_where m x ids)"
  then have q: "q < length ids" using assms by simp
  have len: "length (gather x (nonzero m)) = length (nonzero m)" by (simp add: gather_def)
  show "torch_where m x ids ! q = index_put (nonzero m) (gather x (nonzero m)) ids ! q"
  proof (cases "m ! q")
    case True
    then have "q \<in> set (nonzero m)" using q assms by simp
    then obtain j where "j < length (nonzero m)" "nonzero m ! j = q" by (metis in_set_conv_nth)
    then show ?thesis using index_put_at [OF len distinct_nonzero, of j ids] True q assms by (simp add: gather_def)
  next
    case False
    then show ?thesis using index_put_other [OF len, of q ids] q assms by simp
  qed
qed (use assms in simp)

lemma set_clamp_eos:
  "row \<in> set (clamp_eos a eos_id l) \<Longrightarrow>
   row \<in> set l \<or> (\<exists>x row'. eos_id = Some x \<and> row' \<in> set l \<and> row = neg_inf_at x row')"
  by (auto simp: clamp_eos_def split: option.splits if_splits dest: in_set_butlastD)

lemma length_clamp_eos [simp]: "length (clamp_eos a eos_id l) = length l"
  by (cases l rule: rev_cases) (auto simp: clamp_eos_def split: option.splits)

lemma force_commit_eq:
  assumes "eos_inv (mask_id a) eos_id start (row_ids r)" "length l = length (row_ids r)"
  shows "force_commit a e eos_id start l r =
    (if mask_id a \<notin> set (row_ids r) then r
     else commit_row a e (nonzero (mask_index (mask_id a) (row_ids r)))
        (map (\<lambda>row. neg_inf_at (mask_id a) (map Some row)) l)
        (gather (map (\<lambda>row. int (argmax row)) (clamp_eos a eos_id (map (\<lambda>row. neg_inf_at (mask_id a) (map Some row)) l)))
           (nonzero (mask_index (mask_id a) (row_ids r)))) (int (fd_max_steps a)) r)"
proof -
  show ?thesis
    using assms(2) index_put_nonzero [of "mask_index (mask_id a) (row_ids r)" "row_ids r"]
    by (simp add: force_commit_def Let_def active_eq_mask [OF assms(1)] commit_row_def)
qed

lemma force_commit_inv:
  assumes env: "fd_env_ok V e" and v: "vocab_ok V (mask_id a) eos_id"
    and l: "length l = length blk0" "\<forall>row\<in>set l. length row = V"
    and inv: "req_inv V (mask_id a) eos_id start blk0 hi r" and hi: "hi \<le> int (fd_max_steps a)"
  defines "r' \<equiv> force_commit a e eos_id start l r"
  shows "row_inv V (mask_id a) start blk0 (int (fd_max_steps a)) r' \<and> mask_id a \<notin> set (row_ids r')"
proof -
  let ?msk = "mask_id a" and ?ids = "row_ids r" and ?bl = "map (\<lambda>row. neg_inf_at (mask_id a) (map Some row)) l"
  have len: "length ?ids = length blk0" and einv: "eos_inv ?msk eos_id start ?ids" and rinv: "row_inv V ?msk start blk0 hi r"
    using inv by (simp_all add: req_inv_def row_inv_def)
  have r': "r' = (if ?msk \<notin> set ?ids then r else commit_row a e (nonzero (mask_index ?msk ?ids)) ?bl
      (gather (map (\<lambda>row. int (argmax row)) (clamp_eos a eos_id ?bl)) (nonzero (mask_index ?msk ?ids))) (int (fd_max_steps a)) r)"
    unfolding r'_def by (rule force_commit_eq [OF einv]) (simp add: l(1) len)
  show ?thesis
  proof (cases "?msk \<in> set ?ids")
    case False
    then show ?thesis using r' row_inv_mono [OF rinv hi] by simp
  next
    case True
    define idx where "idx = nonzero (mask_index ?msk ?ids)"
    define toks where "toks = gather (map (\<lambda>row. int (argmax row)) (clamp_eos a eos_id ?bl)) idx"
    have v0: "0 \<le> ?msk" "?msk < int V" using v by (simp_all add: vocab_ok_def)
    have nz: "neg_inf_at ?msk (map Some row) ! t \<noteq> None" if "row \<in> set l" "t < V" "int t \<noteq> ?msk" for row t
      using that l(2) v0 by (auto simp: neg_inf_at_def nth_list_update)
    have cl: "rows_fine V ?msk (length blk0) (clamp_eos a eos_id ?bl)"
      using l nz by (intro rows_fine_clamp [OF v]) (auto simp: neg_inf_at_def)
    have bl: "rows_fine V ?msk (length blk0) ?bl"
    proof -
      have "\<exists>t<V. int t \<noteq> ?msk" using fine_some [OF v, of "[replicate V 0]" 1] by (auto simp: rows_fine_def)
      then show ?thesis using l nz by (auto simp: rows_fine_def neg_inf_at_def [of _ "map Some _"])
    qed
    have idx: "distinct idx" "\<forall>i\<in>set idx. start \<le> i \<and> i < length blk0" "\<forall>i\<in>set idx. i < length ?ids \<and> ?ids ! i = ?msk"
      using masked_ge_start [OF inv] len by (auto simp: idx_def)
    have none: "\<forall>row\<in>set (clamp_eos a eos_id ?bl). row ! nat ?msk = None"
    proof
      fix row assume "row \<in> set (clamp_eos a eos_id ?bl)"
      then obtain row' where row': "row' \<in> set l" "row = neg_inf_at ?msk (map Some row')
          \<or> (\<exists>x. eos_id = Some x \<and> row = neg_inf_at x (neg_inf_at ?msk (map Some row')))"
        using set_clamp_eos [of row a eos_id ?bl] by fastforce
      have "nat ?msk < length row'" using row'(1) l(2) v0 by (simp add: nat_less_iff)
      then have "(map Some row')[nat ?msk := None, i := None] ! nat ?msk = None" for i
        by (cases "i = nat ?msk") simp_all
      then show "row ! nat ?msk = None" using row'(2) \<open>nat ?msk < length row'\<close> by (auto simp: neg_inf_at_def)
    qed
    have toks: "length toks = length idx" "\<forall>t\<in>set toks. t \<noteq> ?msk \<and> 0 \<le> t \<and> t < int V"
    proof -
      show "length toks = length idx" by (simp add: toks_def gather_def)
      show "\<forall>t\<in>set toks. t \<noteq> ?msk \<and> 0 \<le> t \<and> t < int V"
      proof
        fix t assume "t \<in> set toks"
        then obtain i where i: "i < length blk0" "t = int (argmax (clamp_eos a eos_id ?bl ! i))"
          using idx(2) cl by (auto simp: toks_def gather_def rows_fine_def)
        let ?row = "clamp_eos a eos_id ?bl ! i"
        have row: "?row \<in> set (clamp_eos a eos_id ?bl)" using i(1) cl by (simp add: rows_fine_def)
        then obtain u where "length ?row = V" "u < V" "?row ! u \<noteq> None" using cl unfolding rows_fine_def by blast
        then have "argmax ?row < V" "?row ! argmax ?row \<noteq> None" using argmax_finite [OF finite_rowI, of u ?row] by simp_all
        moreover have "argmax ?row \<noteq> nat ?msk" using none row calculation(2) by metis
        ultimately show "t \<noteq> ?msk \<and> 0 \<le> t \<and> t < int V" using i(2) by (metis nat_int of_nat_0_le_iff of_nat_less_iff)
      qed
    qed
    have r2: "r' = commit_row a e idx ?bl toks (int (fd_max_steps a)) r" using r' True by (simp add: idx_def toks_def)
    have "row_inv V ?msk start blk0 (int (fd_max_steps a)) r'"
      unfolding r2 using toks idx hi by (intro commit_row_inv [OF env bl v0(1) idx(1) _ toks(1) _ _ _ _ refl rinv]) auto
    moreover have "num_masks ?msk (row_ids r') = 0"
    proof -
      have "num_masks ?msk (row_ids r') + length idx = num_masks ?msk ?ids"
        unfolding r2 commit_row_ids using toks(2) idx(3) by (intro num_masks_commit [OF toks(1) idx(1)]) auto
      moreover have "length idx = num_masks ?msk ?ids" by (simp add: idx_def length_nonzero_mask)
      ultimately show ?thesis by simp
    qed
    ultimately show ?thesis by simp
  qed
qed

section \<open>The loop\<close>

definition same_grids :: "fd_row \<Rightarrow> fd_row \<Rightarrow> bool" where
  "same_grids r r' \<longleftrightarrow> (row_logprobs r' = None \<longleftrightarrow> row_logprobs r = None) \<and> (row_steps r' = None \<longleftrightarrow> row_steps r = None)
     \<and> (row_entropy r' = None \<longleftrightarrow> row_entropy r = None)"

lemma same_grids_refl [simp]: "same_grids r r"
  by (simp add: same_grids_def)

lemma same_grids_trans: "same_grids r r' \<Longrightarrow> same_grids r' r'' \<Longrightarrow> same_grids r r''"
  by (simp add: same_grids_def)

lemma same_grids_record [simp]: "same_grids r (record_token_logprobs a e idx l toks r)"
  by (simp add: same_grids_def)

lemma same_grids_commit [simp]: "same_grids r (commit_row a e idx l toks s r)"
  by (simp add: same_grids_def commit_row_def)

lemma same_grids_propagate: "same_grids r (propagate_eos a e eos_id step start l idx r)"
  by (auto simp: same_grids_def propagate_eos_def Let_def split: option.splits list.splits)

lemma same_grids_place: "place_tokens a e eos_id step start l r m = ((r', fin), m') \<Longrightarrow> same_grids r r'"
proof -
  assume pt: "place_tokens a e eos_id step start l r m = ((r', fin), m')"
  have "same_grids r (propagate_eos a e eos_id step start (map (map Some) l) idx
      ((set_commit_step idx s (record_token_logprobs a e idx l' toks r))\<lparr>row_ids := ids\<rparr>))" for idx s l' toks ids
    by (rule same_grids_trans [OF _ same_grids_propagate]) (simp add: same_grids_def)
  then show ?thesis using pt by (auto simp: place_tokens_def Let_def split: if_splits prod.splits)
qed

lemma same_grids_force: "same_grids r (force_commit a e eos_id start l r)"
  by (simp add: force_commit_def Let_def same_grids_def)

definition st_inv :: "nat \<Rightarrow> fast_diffuser \<Rightarrow> int option \<Rightarrow> nat list \<Rightarrow> int list list \<Rightarrow> bool \<Rightarrow> int \<Rightarrow> fd_state \<Rightarrow> bool" where
  "st_inv V a eos_id starts blks lp hi st \<longleftrightarrow>
     length (fd_rows st) = length blks \<and> length (fd_finished st) = length blks
     \<and> (\<forall>b<length blks. length (blks ! b) = block_size a
          \<and> req_inv V (mask_id a) eos_id (starts ! b) (blks ! b) hi (fd_rows st ! b)
          \<and> (fd_finished st ! b \<longrightarrow> mask_id a \<notin> set (row_ids (fd_rows st ! b)))
          \<and> same_grids (init_row a lp (blks ! b)) (fd_rows st ! b))"

lemma st_inv_mono: "st_inv V a eos_id starts blks lp hi st \<Longrightarrow> hi \<le> hi' \<Longrightarrow> st_inv V a eos_id starts blks lp hi' st"
  unfolding st_inv_def req_inv_def using row_inv_mono by blast

lemma place_request_inv:
  assumes env: "fd_env_ok V e" and v: "vocab_ok V (mask_id a) eos_id"
    and l: "length fl = k * block_size a" "\<forall>row\<in>set fl. length row = V"
    and ib: "i < k" "b < length blks"
    and inv: "st_inv V a eos_id starts blks lp (int step) st"
    and pr: "place_request a e eos_id step starts fl (st, m) (i, b) = (st', m')"
  shows "st_inv V a eos_id starts blks lp (int step) st'"
    and "\<forall>b'<length blks. mask_id a \<notin> set (row_ids (fd_rows st ! b')) \<longrightarrow> mask_id a \<notin> set (row_ids (fd_rows st' ! b'))"
    and "threshold a = None \<and> selection_policy a \<noteq> Policy_leftmost \<and> Suc step = fd_max_steps a \<longrightarrow>
      mask_id a \<notin> set (row_ids (fd_rows st' ! b))"
proof -
  let ?n = "block_size a" and ?r = "fd_rows st ! b" and ?msk = "mask_id a"
  obtain r fin m1 where pt: "place_tokens a e eos_id step (starts ! b) (block ?n i fl) ?r m = ((r, fin), m1)"
    by (metis surj_pair)
  have rb: "length (blks ! b) = ?n" "req_inv V ?msk eos_id (starts ! b) (blks ! b) (int step) ?r"
    "same_grids (init_row a lp (blks ! b)) ?r"
    using inv ib(2) by (simp_all add: st_inv_def)
  have "length (block ?n i fl) = length (blks ! b)" "\<forall>row\<in>set (block ?n i fl). length row = V"
    using length_block_full [OF l(1) ib(1)] rb(1) l(2) by (auto dest: block_in_set)
  note p = place_tokens_inv [OF env v this rb(2) order_refl pt]
  have st': "st' = st\<lparr>fd_rows := (fd_rows st)[b := r],
      fd_finished := (if fin then (fd_finished st)[b := True] else fd_finished st)\<rparr>"
    using pr pt by (simp add: place_request_def)
  have len: "length (fd_rows st) = length blks" "length (fd_finished st) = length blks" using inv by (simp_all add: st_inv_def)
  have mono: "?msk \<notin> set (row_ids ?r) \<Longrightarrow> ?msk \<notin> set (row_ids r)"
    using pt by (auto simp: place_tokens_def)
  show keep: "\<forall>b'<length blks. ?msk \<notin> set (row_ids (fd_rows st ! b')) \<longrightarrow> ?msk \<notin> set (row_ids (fd_rows st' ! b'))"
  proof (intro allI impI)
    fix b' assume "b' < length blks" "?msk \<notin> set (row_ids (fd_rows st ! b'))"
    then show "?msk \<notin> set (row_ids (fd_rows st' ! b'))" using mono len by (cases "b' = b") (simp_all add: st')
  qed
  have sg: "same_grids (init_row a lp (blks ! b)) r" using same_grids_trans [OF rb(3) same_grids_place [OF pt]] .
  show "st_inv V a eos_id starts blks lp (int step) st'"
    unfolding st_inv_def
  proof (intro conjI allI impI)
    fix b' assume b': "b' < length blks"
    have old: "length (blks ! b') = ?n" "req_inv V ?msk eos_id (starts ! b') (blks ! b') (int step) (fd_rows st ! b')"
      "fd_finished st ! b' \<longrightarrow> ?msk \<notin> set (row_ids (fd_rows st ! b'))" "same_grids (init_row a lp (blks ! b')) (fd_rows st ! b')"
      using inv b' by (simp_all add: st_inv_def)
    show "length (blks ! b') = ?n" by (rule old(1))
    show "req_inv V ?msk eos_id (starts ! b') (blks ! b') (int step) (fd_rows st' ! b')"
      "same_grids (init_row a lp (blks ! b')) (fd_rows st' ! b')"
      using old p len b' sg by (cases "b' = b"; simp add: st')+
    show "?msk \<notin> set (row_ids (fd_rows st' ! b'))" if "fd_finished st' ! b'"
      using that old(3) p keep b' len by (cases "b' = b") (auto simp: st' split: if_splits)
  qed (simp_all add: st' len)
  show "threshold a = None \<and> selection_policy a \<noteq> Policy_leftmost \<and> Suc step = fd_max_steps a \<longrightarrow>
      ?msk \<notin> set (row_ids (fd_rows st' ! b))"
  proof (intro impI, elim conjE)
    assume t: "threshold a = None" "selection_policy a \<noteq> Policy_leftmost" "Suc step = fd_max_steps a"
    have "fd_max_steps a - step = 1" using t(3) by simp
    then have "step_budget a step c k = int k" for c k
      using t by (cases "selection_policy a") (auto simp: step_budget_def get_num_transfer_tokens_def Let_def)
    then have "num_masks ?msk (row_ids r) = 0" if "?msk \<in> set (row_ids ?r)" using p that by auto
    then have "?msk \<notin> set (row_ids r)" using mono num_masks_0 by blast
    then show "?msk \<notin> set (row_ids (fd_rows st' ! b))" using len ib(2) by (simp add: st')
  qed
qed

lemma fold_requests_inv:
  assumes env: "fd_env_ok V e" and v: "vocab_ok V (mask_id a) eos_id"
    and l: "length fl = k * block_size a" "\<forall>row\<in>set fl. length row = V"
    and ibs: "\<forall>(i, b)\<in>set ibs. i < k \<and> b < length blks"
    and inv: "st_inv V a eos_id starts blks lp (int step) st"
    and f: "foldl (place_request a e eos_id step starts fl) (st, m) ibs = (st', m')"
  shows "st_inv V a eos_id starts blks lp (int step) st'
    \<and> (\<forall>b<length blks. mask_id a \<notin> set (row_ids (fd_rows st ! b)) \<longrightarrow> mask_id a \<notin> set (row_ids (fd_rows st' ! b)))
    \<and> (threshold a = None \<and> selection_policy a \<noteq> Policy_leftmost \<and> Suc step = fd_max_steps a \<longrightarrow>
        (\<forall>b\<in>snd ` set ibs. mask_id a \<notin> set (row_ids (fd_rows st' ! b))))"
  using ibs inv f
proof (induction ibs arbitrary: st m)
  case (Cons ib ibs)
  obtain i b where ib: "ib = (i, b)" "i < k" "b < length blks" using Cons.prems(1) by (cases ib) auto
  obtain st1 m1 where pr: "place_request a e eos_id step starts fl (st, m) (i, b) = (st1, m1)" by fastforce
  note p = place_request_inv [OF env v l ib(2,3) Cons.prems(2) pr]
  have "st_inv V a eos_id starts blks lp (int step) st'
    \<and> (\<forall>b<length blks. mask_id a \<notin> set (row_ids (fd_rows st1 ! b)) \<longrightarrow> mask_id a \<notin> set (row_ids (fd_rows st' ! b)))
    \<and> (threshold a = None \<and> selection_policy a \<noteq> Policy_leftmost \<and> Suc step = fd_max_steps a \<longrightarrow>
        (\<forall>b\<in>snd ` set ibs. mask_id a \<notin> set (row_ids (fd_rows st' ! b))))"
    using Cons.prems(1,3) pr ib(1) p(1) by (intro Cons.IH) auto
  then show ?case using p(2,3) ib by simp
qed simp

lemma length_compact_ids:
  assumes "length (input_ids fb) = bs * n" "\<forall>b\<in>set act. b < bs"
  shows "length (input_ids (compact_forward_batch n fb act)) = length act * n"
proof -
  have "length (concat (map (\<lambda>x. [x * n..<(x + 1) * n]) act)) = length act * n"
    by (induction act) auto
  then show ?thesis by (simp add: compact_forward_batch_def Let_def gather_def)
qed

lemma length_concat_rows:
  "\<forall>r\<in>set rs. length (row_ids r) = n \<Longrightarrow> length (concat (map row_ids rs)) = length rs * n"
  by (induction rs) auto

lemma length_flat_ids:
  assumes "st_inv V a eos_id starts blks lp hi st"
  shows "length (flat_ids st) = length blks * block_size a"
proof -
  have "\<forall>r\<in>set (fd_rows st). length (row_ids r) = block_size a" "length (fd_rows st) = length blks"
    using assms by (auto simp: st_inv_def req_inv_def row_inv_def in_set_conv_nth)
  then show ?thesis using length_concat_rows [of "fd_rows st" "block_size a"] by (simp add: flat_ids_def)
qed

lemma fd_step_inv:
  assumes env: "fd_env_ok V e" and v: "vocab_ok V (mask_id a) eos_id" and bs: "batch_size fb = length blks"
    and inv: "st_inv V a eos_id starts blks lp hi st" and hi: "hi \<le> int step"
    and s: "fd_step a e eos_id fb starts step (st, m) = (st', m')"
  shows "st_inv V a eos_id starts blks lp (int step) st'
    \<and> (threshold a = None \<and> selection_policy a \<noteq> Policy_leftmost \<and> Suc step = fd_max_steps a \<longrightarrow>
        (\<forall>b<length blks. mask_id a \<notin> set (row_ids (fd_rows st' ! b))))"
proof -
  let ?n = "block_size a"
  define act where "act = nonzero (map Not (fd_finished st))"
  define st1 where "st1 = st\<lparr>req_steps_active := map (\<lambda>b. req_steps_active st ! b + (if b \<in> set act then 1 else 0))
      [0..<length (req_steps_active st)]\<rparr>"
  define fb1 where "fb1 = fb\<lparr>input_ids := flat_ids st1\<rparr>"
  define fb2 where "fb2 = (if length act = batch_size fb1 then fb1 else compact_forward_batch ?n fb1 act)"
  obtain fl g m1 where f: "fd_forward e m fb2 = ((fl, g), m1)" by (metis surj_pair)
  define st2 where "st2 = st1\<lparr>stats := count_forward g (stats st1),
      fully_masked_logits := (if step = 0 \<and> return_logprob fb1 \<and> selection_policy a = Policy_confidence
        then Some fl else fully_masked_logits st1)\<rparr>"
  have fold: "foldl (place_request a e eos_id step starts fl) (st2, m1) (zip [0..<length act] act) = (st', m')"
    using s f unfolding fd_step_def Let_def fb2_def fb1_def st1_def act_def st2_def by simp
  have inv2: "st_inv V a eos_id starts blks lp (int step) st2"
    using st_inv_mono [OF inv hi] by (simp add: st_inv_def st2_def st1_def)
  have lf: "length (fd_finished st) = length blks" using inv by (simp add: st_inv_def)
  have act: "\<forall>b\<in>set act. b < length blks" by (auto simp: act_def lf)
  have "length (input_ids fb1) = length blks * ?n"
    using length_flat_ids [OF inv] by (simp add: fb1_def st1_def flat_ids_def)
  then have "length (input_ids fb2) = length act * ?n"
    using length_compact_ids [of fb1 "length blks" ?n act] act bs by (auto simp: fb2_def fb1_def)
  moreover have "length fl = length (input_ids fb2) \<and> (\<forall>row\<in>set fl. length row = V)"
    using env f unfolding fd_env_ok_def by (metis fst_conv)
  ultimately have fl: "length fl = length act * ?n" "\<forall>row\<in>set fl. length row = V" by simp_all
  have "\<forall>(i, b)\<in>set (zip [0..<length act] act). i < length act \<and> b < length blks"
    using act by (auto dest: set_zip_leftD set_zip_rightD)
  note r = fold_requests_inv [OF env v fl this inv2 fold]
  moreover have "snd ` set (zip [0..<length act] act) = set act"
    by (metis length_map map_nth map_snd_zip set_map)
  moreover have "mask_id a \<notin> set (row_ids (fd_rows st2 ! b))" if "b < length blks" "b \<notin> set act" for b
    using that inv lf by (auto simp: act_def st_inv_def st2_def st1_def)
  ultimately show ?thesis by blast
qed

lemma fd_loop_inv:
  assumes env: "fd_env_ok V e" and v: "vocab_ok V (mask_id a) eos_id" and bs: "batch_size fb = length blks"
    and inv: "st_inv V a eos_id starts blks lp hi st"
    and steps: "sorted steps" "\<forall>s\<in>set steps. hi \<le> int s \<and> s < fd_max_steps a" "hi < int (fd_max_steps a)"
    and r: "fd_loop a e eos_id fb starts steps (st, m) = (st', m')"
  shows "\<exists>hi'. hi' < int (fd_max_steps a) \<and> st_inv V a eos_id starts blks lp hi' st'
    \<and> (threshold a = None \<and> selection_policy a \<noteq> Policy_leftmost \<and> steps \<noteq> [] \<and> Suc (last steps) = fd_max_steps a \<longrightarrow>
        (\<forall>b<length blks. mask_id a \<notin> set (row_ids (fd_rows st' ! b))))"
  using inv steps r
proof (induction steps arbitrary: st m hi)
  case (Cons s steps)
  show ?case
  proof (cases "False \<in> set (fd_finished st)")
    case False
    have "mask_id a \<notin> set (row_ids (fd_rows st ! b))" if "b < length blks" for b
    proof -
      have "fd_finished st ! b \<in> set (fd_finished st)" using that Cons.prems(1) by (simp add: st_inv_def)
      then have "fd_finished st ! b" using False by (metis (full_types))
      then show ?thesis using that Cons.prems(1) by (simp add: st_inv_def)
    qed
    then show ?thesis using Cons.prems False by (auto intro!: exI [of _ hi])
  next
    case True
    obtain st1 m1 where fs: "fd_step a e eos_id fb starts s (st, m) = (st1, m1)" by fastforce
    have hs: "hi \<le> int s" using Cons.prems(3) by simp
    note p = fd_step_inv [OF env v bs Cons.prems(1) hs fs]
    have r1: "fd_loop a e eos_id fb starts steps (st1, m1) = (st', m')" using Cons.prems(5) True fs by simp
    show ?thesis
    proof (cases "steps = []")
      case True
      then show ?thesis using p r1 Cons.prems(3) by (auto intro!: exI [of _ "int s"])
    next
      case False
      have "\<exists>hi'. hi' < int (fd_max_steps a) \<and> st_inv V a eos_id starts blks lp hi' st'
        \<and> (threshold a = None \<and> selection_policy a \<noteq> Policy_leftmost \<and> steps \<noteq> [] \<and> Suc (last steps) = fd_max_steps a \<longrightarrow>
        (\<forall>b<length blks. mask_id a \<notin> set (row_ids (fd_rows st' ! b))))"
        using p Cons.prems(2,3) r1 by (intro Cons.IH [of "int s" st1 m1]) auto
      then show ?thesis using False by simp
    qed
  qed
qed auto

section \<open>The run\<close>

text \<open>A batch of blocks with their masks at the end.\<close>

definition fd_batch_ok :: "fast_diffuser \<Rightarrow> int option \<Rightarrow> forward_batch \<Rightarrow> bool" where
  "fd_batch_ok a eos_id fb \<longleftrightarrow> 0 < block_size a \<and> length (input_ids fb) = batch_size fb * block_size a
     \<and> (\<forall>b<batch_size fb. masked_suffix (mask_id a) (block (block_size a) b (input_ids fb)))
     \<and> eos_id \<noteq> Some (mask_id a)"

definition fd_blks :: "fast_diffuser \<Rightarrow> forward_batch \<Rightarrow> int list list" where
  "fd_blks a fb = map (\<lambda>b. block (block_size a) b (input_ids fb)) [0..<batch_size fb]"

lemma init_state_inv:
  assumes "fd_batch_ok a eos_id fb" and v: "vocab_ok V (mask_id a) eos_id"
  shows "st_inv V a eos_id (start_list (mask_id a) (block_size a) (batch_size fb) (input_ids fb)) (fd_blks a fb)
     (return_logprob fb) (-1) (init_state a fb s)"
  unfolding st_inv_def
proof (intro conjI allI impI)
  fix b assume "b < length (fd_blks a fb)"
  then have b: "b < batch_size fb" by (simp add: fd_blks_def)
  let ?blk = "block (block_size a) b (input_ids fb)" and ?n = "block_size a"
  have len: "length ?blk = ?n" using length_block_full [of "input_ids fb" "batch_size fb" ?n b] b assms by (simp add: fd_batch_ok_def)
  have blk: "fd_blks a fb ! b = ?blk" using b by (simp add: fd_blks_def)
  have ms: "masked_suffix (mask_id a) ?blk" using assms b by (simp add: fd_batch_ok_def)
  note ss = masked_suffix_start [OF ms, unfolded len]
  show "length (fd_blks a fb ! b) = ?n" using blk len by simp
  let ?r = "init_row a (return_logprob fb) ?blk"
  have r: "fd_rows (init_state a fb s) ! b = ?r" using b by (simp add: init_state_def)
  have st: "start_list (mask_id a) ?n (batch_size fb) (input_ids fb) ! b = ?n - num_masks (mask_id a) ?blk"
    using b by (simp add: start_list_def)
  have "eos_inv (mask_id a) eos_id (?n - num_masks (mask_id a) ?blk) ?blk"
    using ss(3) len assms by (auto simp: eos_inv_def fd_batch_ok_def)
  then show "req_inv V (mask_id a) eos_id (start_list (mask_id a) ?n (batch_size fb) (input_ids fb) ! b)
      (fd_blks a fb ! b) (-1) (fd_rows (init_state a fb s) ! b)"
    unfolding r blk st using ss len v by (auto simp: req_inv_def row_inv_def init_row_def vocab_ok_def)
  show "same_grids (init_row a (return_logprob fb) (fd_blks a fb ! b)) (fd_rows (init_state a fb s) ! b)"
    unfolding r blk by simp
  show "mask_id a \<notin> set (row_ids (fd_rows (init_state a fb s) ! b))" if "fd_finished (init_state a fb s) ! b"
    using that b by (simp add: init_state_def)
qed (simp_all add: init_state_def fd_blks_def)

text \<open>The last pass over the log probabilities leaves no gap.\<close>

lemma fully_masked_fields:
  "row_ids (logprobs_from_fully_masked a e fml start b r) = row_ids r"
  "row_steps (logprobs_from_fully_masked a e fml start b r) = row_steps r"
  "row_logprobs r = Some grid \<Longrightarrow>
    \<exists>grid'. row_logprobs (logprobs_from_fully_masked a e fml start b r) = Some grid' \<and> length grid' = length grid"
  by (auto simp: logprobs_from_fully_masked_def Let_def record_token_logprobs_def split: option.splits)

lemma fill_missing_props:
  assumes env: "fd_env_ok V e" and v: "vocab_ok V (mask_id a) eos_id"
    and l: "length l = n" "\<forall>row\<in>set l. length row = V"
    and r: "length (row_ids r) = n" "\<forall>q. start \<le> q \<and> q < n \<longrightarrow> 0 \<le> row_ids r ! q \<and> row_ids r ! q < int V"
    and g: "row_logprobs r = Some grid" "length grid = n"
  shows "\<exists>grid'. row_logprobs (fill_missing_logprobs a e l start r) = Some grid' \<and> length grid' = n
     \<and> (\<forall>q. start \<le> q \<and> q < n \<longrightarrow> grid' ! q \<noteq> NaN)"
proof -
  define idx where "idx = map (\<lambda>i. i + start) (nonzero (map (\<lambda>v. v = NaN) (drop start grid)))"
  have set: "set idx = {q. start \<le> q \<and> q < n \<and> grid ! q = NaN}"
  proof (intro set_eqI iffI)
    fix q assume "q \<in> {q. start \<le> q \<and> q < n \<and> grid ! q = NaN}"
    then have "q - start \<in> set (nonzero (map (\<lambda>v. v = NaN) (drop start grid)))" "q = (q - start) + start" using g(2) by auto
    then show "q \<in> set idx" unfolding idx_def by (metis image_eqI set_map)
  qed (auto simp: idx_def g(2) add.commute)
  have d: "distinct idx" by (simp add: idx_def distinct_map)
  have fm: "fill_missing_logprobs a e l start r = (if idx = [] then r
      else record_token_logprobs a e idx (map (map Some) l) (gather (row_ids r) idx) r)"
    using g(1) by (simp add: fill_missing_logprobs_def Let_def idx_def)
  show ?thesis
  proof (cases "idx = []")
    case True
    then show ?thesis using fm g set by auto
  next
    case False
    have toks: "\<forall>t\<in>set (gather (row_ids r) idx). 0 \<le> t \<and> t < int V" "length (gather (row_ids r) idx) = length idx"
      "\<forall>i\<in>set idx. i < n" "0 \<le> mask_id a"
      using r set v by (auto simp: gather_def vocab_ok_def)
    obtain grid' where g': "row_logprobs (record_token_logprobs a e idx (map (map Some) l) (gather (row_ids r) idx) r) = Some grid'"
      "length grid' = n" "\<And>q. q < n \<Longrightarrow> q \<in> set idx \<Longrightarrow> grid' ! q \<noteq> NaN" "\<And>q. q < n \<Longrightarrow> q \<notin> set idx \<Longrightarrow> grid' ! q = grid ! q"
      by (rule record_token_logprobs_grid [OF env fine_some [OF v l] toks(4) d toks(3) toks(2) toks(1) g]) (rule that)
    have "grid' ! q \<noteq> NaN" if "start \<le> q" "q < n" for q
      using g'(3,4) set that by (metis (mono_tags, lifting) mem_Collect_eq)
    then show ?thesis using fm False g'(1,2) by simp
  qed
qed

lemma record_some [simp]:
  "(\<exists>y. row_logprobs (record_token_logprobs a e idx l toks r) = Some y) \<longleftrightarrow> (\<exists>y. row_logprobs r = Some y)"
  using record_token_logprobs_fields(3) by (metis not_None_eq)

lemma fill_missing_fields [simp]:
  "row_ids (fill_missing_logprobs a e l start r) = row_ids r"
  "row_steps (fill_missing_logprobs a e l start r) = row_steps r"
  by (auto simp: fill_missing_logprobs_def Let_def split: option.splits)

lemma sentinel_fields [simp]:
  "row_ids (final_step_sentinel r) = row_ids r" "row_steps (final_step_sentinel r) = row_steps r"
  by (auto simp: final_step_sentinel_def Let_def split: option.splits)

lemma finish_fields [simp]:
  "row_ids (finish_logprobs a e fml l start b r) = row_ids r"
  "row_steps (finish_logprobs a e fml l start b r) = row_steps r"
  by (simp_all add: finish_logprobs_def Let_def fully_masked_fields)

lemma finish_logprobs_props:
  assumes env: "fd_env_ok V e" and v: "vocab_ok V (mask_id a) eos_id"
    and l: "length l = bs * block_size a" "\<forall>row\<in>set l. length row = V" and b: "b < bs"
    and n: "length blk0 = block_size a"
    and inv: "row_inv V (mask_id a) start blk0 hi r"
    and g: "row_logprobs r \<noteq> None" and cs: "logprob_mode a = Final_step \<Longrightarrow> row_steps r \<noteq> None"
  shows "\<exists>grid'. row_logprobs (finish_logprobs a e fml l start b r) = Some grid' \<and> length grid' = block_size a
     \<and> (\<forall>q. start \<le> q \<and> q < block_size a \<longrightarrow> grid' ! q \<noteq> NaN)"
proof -
  let ?n = "block_size a"
  obtain grid where grid: "row_logprobs r = Some grid" "length grid = ?n" using g inv n by (auto simp: row_inv_def)
  define r1 where "r1 = (if selection_policy a = Policy_confidence \<and> logprob_mode a = Fully_masked
      then logprobs_from_fully_masked a e fml start b r else r)"
  obtain grid1 where g1: "row_logprobs r1 = Some grid1" "length grid1 = ?n"
  proof (cases "selection_policy a = Policy_confidence \<and> logprob_mode a = Fully_masked")
    case True
    then show ?thesis using that fully_masked_fields(3) [OF grid(1), of a e fml start b] grid(2) by (auto simp: r1_def)
  next
    case False
    then have "r1 = r" unfolding r1_def by (rule if_not_P)
    then show ?thesis using that grid by simp
  qed
  have r1: "row_ids r1 = row_ids r" "row_steps r1 = row_steps r" by (simp_all add: r1_def fully_masked_fields)
  define r2 where "r2 = fill_missing_logprobs a e (block ?n b l) start r1"
  have bl: "length (block ?n b l) = ?n" "\<forall>row\<in>set (block ?n b l). length row = V"
    using length_block_full [OF l(1) b] l(2) by (auto dest: block_in_set)
  obtain grid2 where g2: "row_logprobs r2 = Some grid2" "length grid2 = ?n" "\<forall>q. start \<le> q \<and> q < ?n \<longrightarrow> grid2 ! q \<noteq> NaN"
    using fill_missing_props [OF env v bl, of r1 start grid1] g1 inv n r1 unfolding r2_def by (auto simp: row_inv_def)
  have f: "finish_logprobs a e fml l start b r = (if logprob_mode a = Final_step then final_step_sentinel r2 else r2)"
    by (simp add: finish_logprobs_def Let_def r2_def r1_def)
  show ?thesis
  proof (cases "logprob_mode a = Final_step")
    case False
    then show ?thesis using f g2 by simp
  next
    case True
    obtain c where c: "row_steps r = Some c" "length c = ?n" using cs [OF True] inv n by (auto simp: row_inv_def)
    then have "row_steps r2 = Some c" by (simp add: r2_def r1)
    then show ?thesis using True f g2 c(2) by (auto simp: final_step_sentinel_def Let_def)
  qed
qed

lemma same_grids_finish:
  "row_logprobs (finish_logprobs a e fml l start b r) = None \<longleftrightarrow> row_logprobs r = None"
proof -
  have 1: "row_logprobs (logprobs_from_fully_masked a e fml start b r) = None \<longleftrightarrow> row_logprobs r = None" for r
  proof (cases "row_logprobs r")
    case (Some grid)
    then show ?thesis using fully_masked_fields(3) [OF Some, of a e fml start b] by auto
  qed (simp add: logprobs_from_fully_masked_def)
  have 2: "row_logprobs (fill_missing_logprobs a e l start r) = None \<longleftrightarrow> row_logprobs r = None" for l r
    by (cases "row_logprobs r") (simp_all add: fill_missing_logprobs_def Let_def)
  have 3: "row_logprobs (final_step_sentinel r) = None \<longleftrightarrow> row_logprobs r = None" for r
    by (cases "row_logprobs r"; cases "row_steps r") (simp_all add: final_step_sentinel_def Let_def)
  show ?thesis by (simp add: finish_logprobs_def Let_def 1 2 3)
qed

text \<open>The rows after a run, in terms of the block they started from.\<close>

definition final_row_ok ::
  "nat \<Rightarrow> fast_diffuser \<Rightarrow> bool \<Rightarrow> int list \<Rightarrow> int \<Rightarrow> fd_row \<Rightarrow> bool" where
  "final_row_ok V a lp blk hi r \<longleftrightarrow>
     (let start = block_size a - num_masks (mask_id a) blk in
      length (row_ids r) = block_size a \<and> take start (row_ids r) = take start blk
      \<and> mask_id a \<notin> set (row_ids r)
      \<and> (\<forall>q. start \<le> q \<and> q < block_size a \<longrightarrow> 0 \<le> row_ids r ! q \<and> row_ids r ! q < int V)
      \<and> (lp \<longrightarrow> (\<exists>g. row_logprobs r = Some g \<and> length g = block_size a
            \<and> (\<forall>q. start \<le> q \<and> q < block_size a \<longrightarrow> g ! q \<noteq> NaN)))
      \<and> (lp \<and> return_reveal_steps a \<longrightarrow> (\<exists>c. row_steps r = Some c \<and> length c = block_size a
            \<and> (\<forall>q. start \<le> q \<and> q < block_size a \<longrightarrow> 0 \<le> c ! q \<and> c ! q \<le> hi))))"

lemma final_row:
  assumes env: "fd_env_ok V e" and v: "vocab_ok V (mask_id a) eos_id"
    and l: "length l = bs * block_size a" "\<forall>row\<in>set l. length row = V" and b: "b < bs"
    and n: "length blk = block_size a" and start: "start = block_size a - num_masks (mask_id a) blk"
    and inv: "req_inv V (mask_id a) eos_id start blk hi r" and hi: "hi < int (fd_max_steps a)"
    and sg: "same_grids (init_row a lp blk) r"
  shows "final_row_ok V a lp blk (if mask_id a \<in> set (row_ids r) then int (fd_max_steps a) else int (fd_max_steps a) - 1)
     (finish_logprobs a e fml l start b (force_commit a e eos_id start (block (block_size a) b l) r))"
proof -
  let ?hi = "if mask_id a \<in> set (row_ids r) then int (fd_max_steps a) else int (fd_max_steps a) - 1"
  define r1 where "r1 = force_commit a e eos_id start (block (block_size a) b l) r"
  define r2 where "r2 = finish_logprobs a e fml l start b r1"
  have bl: "length (block (block_size a) b l) = length blk" "\<forall>row\<in>set (block (block_size a) b l). length row = V"
    using length_block_full [OF l(1) b] n l(2) by (auto dest: block_in_set)
  have inv1: "row_inv V (mask_id a) start blk ?hi r1" and nomask: "mask_id a \<notin> set (row_ids r1)"
  proof -
    have fc: "row_inv V (mask_id a) start blk (int (fd_max_steps a)) r1 \<and> mask_id a \<notin> set (row_ids r1)"
      unfolding r1_def using hi by (intro force_commit_inv [OF env v bl inv]) simp
    moreover have "row_inv V (mask_id a) start blk (int (fd_max_steps a) - 1) r1" if "mask_id a \<notin> set (row_ids r)"
    proof -
      have "r1 = r" using that by (simp add: r1_def force_commit_def)
      then show ?thesis using inv hi row_inv_mono [of V "mask_id a" start blk hi r] by (simp add: req_inv_def)
    qed
    ultimately show "row_inv V (mask_id a) start blk ?hi r1" "mask_id a \<notin> set (row_ids r1)" by simp_all
  qed
  have "same_grids (init_row a lp blk) r1"
    unfolding r1_def by (rule same_grids_trans [OF sg same_grids_force])
  then have g1: "lp \<Longrightarrow> row_logprobs r1 \<noteq> None" "lp \<and> (logprob_mode a \<noteq> Fully_masked \<or> return_reveal_steps a) \<Longrightarrow> row_steps r1 \<noteq> None"
    by (auto simp: same_grids_def init_row_def)
  have lp: "\<exists>g. row_logprobs r2 = Some g \<and> length g = block_size a \<and> (\<forall>q. start \<le> q \<and> q < block_size a \<longrightarrow> g ! q \<noteq> NaN)"
    if "lp"
    unfolding r2_def using g1 that by (intro finish_logprobs_props [OF env v l b n inv1]) simp_all
  have cs: "\<exists>c. row_steps r2 = Some c \<and> length c = block_size a \<and> (\<forall>q. start \<le> q \<and> q < block_size a \<longrightarrow> 0 \<le> c ! q \<and> c ! q \<le> ?hi)"
    if lr: "lp \<and> return_reveal_steps a"
  proof -
    obtain c where c: "row_steps r1 = Some c" using g1(2) lr by blast
    have "length (row_ids r1) = block_size a" using inv1 n by (simp add: row_inv_def)
    then have nm: "row_ids r1 ! q \<noteq> mask_id a" if "q < block_size a" for q
      using that nomask by (metis nth_mem)
    have "length c = block_size a \<and> (\<forall>q. start \<le> q \<and> q < block_size a \<longrightarrow> 0 \<le> c ! q \<and> c ! q \<le> ?hi)"
      using inv1 c n nm unfolding row_inv_def by simp
    then show ?thesis using c by (simp add: r2_def)
  qed
  have ids: "row_ids r2 = row_ids r1" by (simp add: r2_def)
  show ?thesis
    unfolding r1_def [symmetric] r2_def [symmetric] final_row_ok_def Let_def start [symmetric] ids
    using inv1 nomask n lp cs unfolding row_inv_def by simp
qed

lemma fd_run_rows:
  assumes env: "fd_env_ok V e" and v: "vocab_ok V (mask_id a) eos_id" and ok: "fd_batch_ok a eos_id fb"
    and mem: "mask_id a \<in> set (input_ids fb)" and steps: "0 < fd_max_steps a"
    and run: "fd_run a e eos_id fb s m = ((out, st), m')"
  defines "starts \<equiv> start_list (mask_id a) (block_size a) (batch_size fb) (input_ids fb)"
  obtains hi where "length (fd_rows st) = batch_size fb" "hi \<le> int (fd_max_steps a)"
    "threshold a = None \<and> selection_policy a \<noteq> Policy_leftmost \<longrightarrow> hi < int (fd_max_steps a)"
    "\<forall>b<batch_size fb. final_row_ok V a (return_logprob fb) (block (block_size a) b (input_ids fb)) hi (fd_rows st ! b)"
    "next_token_ids out = map2 (\<lambda>r s. drop s (row_ids r)) (fd_rows st) starts"
    "return_logprob fb \<longrightarrow> next_token_logprobs out = Some (opt_lists row_logprobs starts (fd_rows st))"
    "return_logprob fb \<and> return_reveal_steps a \<longrightarrow> next_token_reveal_steps out = Some (opt_lists row_steps starts (fd_rows st))"
proof -
  obtain st1 m1 where lp: "fd_loop a e eos_id fb starts [0..<fd_max_steps a] (init_state a fb s, m) = (st1, m1)" by fastforce
  define fb1 where "fb1 = fb\<lparr>input_ids := flat_ids st1, dllm_causal_kv_update := fd_causal_context a \<or> dllm_causal_kv_update fb\<rparr>"
  obtain l g m2 where f: "fd_forward e m1 fb1 = ((l, g), m2)" by (metis surj_pair)
  define r1 where "r1 = map (\<lambda>b. force_commit a e eos_id (starts ! b) (block (block_size a) b l) (fd_rows st1 ! b)) [0..<batch_size fb]"
  define r2 where "r2 = map (\<lambda>b. finish_logprobs a e (fully_masked_logits st1) l (starts ! b) b (r1 ! b)) [0..<batch_size fb]"
  have st: "fd_rows st = r2" and out: "next_token_ids out = map2 (\<lambda>r s. drop s (row_ids r)) r2 starts"
    "return_logprob fb \<longrightarrow> next_token_logprobs out = Some (opt_lists row_logprobs starts r2)"
    "return_logprob fb \<and> return_reveal_steps a \<longrightarrow> next_token_reveal_steps out = Some (opt_lists row_steps starts r2)"
    using run mem lp f unfolding fd_run_def Let_def starts_def [symmetric] fb1_def r2_def r1_def by auto
  have lb: "length (fd_blks a fb) = batch_size fb" by (simp add: fd_blks_def)
  have "\<exists>hi. hi < int (fd_max_steps a) \<and> st_inv V a eos_id starts (fd_blks a fb) (return_logprob fb) hi st1
      \<and> (threshold a = None \<and> selection_policy a \<noteq> Policy_leftmost \<and> [0..<fd_max_steps a] \<noteq> []
         \<and> Suc (last [0..<fd_max_steps a]) = fd_max_steps a \<longrightarrow>
         (\<forall>b<length (fd_blks a fb). mask_id a \<notin> set (row_ids (fd_rows st1 ! b))))"
    using steps lb init_state_inv [OF ok v, of s, folded starts_def]
    by (intro fd_loop_inv [OF env v _ _ _ _ _ lp]) auto
  then obtain hi where hi: "hi < int (fd_max_steps a)" "st_inv V a eos_id starts (fd_blks a fb) (return_logprob fb) hi st1"
    "threshold a = None \<and> selection_policy a \<noteq> Policy_leftmost \<longrightarrow>
       (\<forall>b<batch_size fb. mask_id a \<notin> set (row_ids (fd_rows st1 ! b)))"
    using steps lb by auto
  have "length l = length (input_ids fb1) \<and> (\<forall>row\<in>set l. length row = V)"
    using env f unfolding fd_env_ok_def by (metis fst_conv)
  then have l: "length l = batch_size fb * block_size a" "\<forall>row\<in>set l. length row = V"
    using length_flat_ids [OF hi(2)] lb by (simp_all add: fb1_def)
  define H where "H = (if threshold a = None \<and> selection_policy a \<noteq> Policy_leftmost then int (fd_max_steps a) - 1 else int (fd_max_steps a))"
  have "final_row_ok V a (return_logprob fb) (block (block_size a) b (input_ids fb)) H (r2 ! b)" if b: "b < batch_size fb" for b
  proof -
    let ?blk = "block (block_size a) b (input_ids fb)"
    have blk: "fd_blks a fb ! b = ?blk" using b by (simp add: fd_blks_def)
    have sb: "starts ! b = block_size a - num_masks (mask_id a) ?blk" using b by (simp add: starts_def start_list_def)
    have row: "length ?blk = block_size a" "req_inv V (mask_id a) eos_id (starts ! b) ?blk hi (fd_rows st1 ! b)"
      "same_grids (init_row a (return_logprob fb) ?blk) (fd_rows st1 ! b)"
      using hi(2) b blk lb by (auto simp: st_inv_def)
    have "final_row_ok V a (return_logprob fb) ?blk (if mask_id a \<in> set (row_ids (fd_rows st1 ! b)) then int (fd_max_steps a)
        else int (fd_max_steps a) - 1) (r2 ! b)"
      using final_row [OF env v l b row(1) sb row(2) hi(1) row(3)] b by (simp add: r2_def r1_def)
    then show ?thesis using hi(3) b unfolding final_row_ok_def Let_def H_def by (fastforce split: if_splits)
  qed
  then show ?thesis
    using that [of H] st out by (simp add: r2_def H_def split: if_splits)
qed

section \<open>Properties\<close>

lemma starts_nth:
  "b < batch_size fb \<Longrightarrow> start_list (mask_id a) (block_size a) (batch_size fb) (input_ids fb) ! b
     = block_size a - num_masks (mask_id a) (block (block_size a) b (input_ids fb))"
  "length (start_list (mask_id a) (block_size a) (batch_size fb) (input_ids fb)) = batch_size fb"
  by (simp_all add: start_list_def)

lemma all_drop_nth: "(\<forall>q. s \<le> q \<and> q < length xs \<longrightarrow> P (xs ! q)) \<longleftrightarrow> (\<forall>x\<in>set (drop s xs). P x)"
proof
  assume l: "\<forall>q. s \<le> q \<and> q < length xs \<longrightarrow> P (xs ! q)"
  show "\<forall>x\<in>set (drop s xs). P x"
  proof
    fix x assume "x \<in> set (drop s xs)"
    then obtain i where "i < length xs - s" "x = xs ! (s + i)" by (auto simp: in_set_conv_nth)
    then show "P x" using l by simp
  qed
next
  assume r: "\<forall>x\<in>set (drop s xs). P x"
  show "\<forall>q. s \<le> q \<and> q < length xs \<longrightarrow> P (xs ! q)"
  proof (intro allI impI)
    fix q assume "s \<le> q \<and> q < length xs"
    then have "xs ! q = drop s xs ! (q - s)" "q - s < length (drop s xs)" by auto
    then show "P (xs ! q)" using r by (metis nth_mem)
  qed
qed

text \<open>
  C10. A run of FastDiffuser on a batch with masks fills every block: it keeps the prompt part of the
  block, leaves no mask, returns exactly the generated part, and every generated token is a token of
  the vocabulary. This holds for every reveal policy, threshold, EOS setting and noise.
\<close>

theorem fd_run_fills_blocks:
  assumes "fd_env_ok V e" and "vocab_ok V (mask_id a) eos_id" and "fd_batch_ok a eos_id fb"
    and "mask_id a \<in> set (input_ids fb)" and "0 < fd_max_steps a"
    and "fd_run a e eos_id fb s m = ((out, st), m')" and "b < batch_size fb"
  shows "length (next_token_ids out) = batch_size fb
    \<and> row_ids (fd_rows st ! b)
        = takeWhile (\<lambda>t. t \<noteq> mask_id a) (block (block_size a) b (input_ids fb)) @ next_token_ids out ! b
    \<and> length (row_ids (fd_rows st ! b)) = block_size a
    \<and> mask_id a \<notin> set (row_ids (fd_rows st ! b))
    \<and> (\<forall>t\<in>set (next_token_ids out ! b). 0 \<le> t \<and> t < int V)"
proof (intro conjI)
  let ?blk = "block (block_size a) b (input_ids fb)"
  obtain hi where r: "length (fd_rows st) = batch_size fb"
    "\<forall>b<batch_size fb. final_row_ok V a (return_logprob fb) (block (block_size a) b (input_ids fb)) hi (fd_rows st ! b)"
    "next_token_ids out = map2 (\<lambda>r s. drop s (row_ids r)) (fd_rows st)
       (start_list (mask_id a) (block_size a) (batch_size fb) (input_ids fb))"
    using fd_run_rows [OF assms(1-6)] by metis
  have f: "final_row_ok V a (return_logprob fb) ?blk hi (fd_rows st ! b)" using r(2) assms(7) by blast
  have len: "length ?blk = block_size a"
    using length_block_full [of "input_ids fb" "batch_size fb" "block_size a" b] assms(3,7) by (simp add: fd_batch_ok_def)
  have ms: "masked_suffix (mask_id a) ?blk" using assms(3,7) by (simp add: fd_batch_ok_def)
  have out: "next_token_ids out ! b = drop (block_size a - num_masks (mask_id a) ?blk) (row_ids (fd_rows st ! b))"
    using r(1,3) assms(7) by (simp add: starts_nth)
  show "length (next_token_ids out) = batch_size fb" using r by (simp add: starts_nth)
  show len': "length (row_ids (fd_rows st ! b)) = block_size a" and "mask_id a \<notin> set (row_ids (fd_rows st ! b))"
    using f by (simp_all add: final_row_ok_def Let_def)
  show "row_ids (fd_rows st ! b) = takeWhile (\<lambda>t. t \<noteq> mask_id a) ?blk @ next_token_ids out ! b"
    using masked_suffix_start(1) [OF ms] len out f unfolding final_row_ok_def Let_def by (metis append_take_drop_id)
  show "\<forall>t\<in>set (next_token_ids out ! b). 0 \<le> t \<and> t < int V"
    unfolding out all_drop_nth [symmetric] using f len' by (simp add: final_row_ok_def Let_def)
qed

text \<open>
  C11. When the batch asks for log probabilities, the run returns one number for every generated
  token, in every mode (fully masked, final step, trajectory): no returned value is left at the \<open>nan\<close>
  the grid starts with.
\<close>

theorem fd_run_logprobs:
  assumes "fd_env_ok V e" and "vocab_ok V (mask_id a) eos_id" and "fd_batch_ok a eos_id fb"
    and "mask_id a \<in> set (input_ids fb)" and "0 < fd_max_steps a" and "return_logprob fb"
    and "fd_run a e eos_id fb s m = ((out, st), m')"
  shows "\<exists>L. next_token_logprobs out = Some L \<and> map length L = map length (next_token_ids out)
     \<and> (\<forall>row\<in>set L. NaN \<notin> set row)"
proof -
  let ?starts = "start_list (mask_id a) (block_size a) (batch_size fb) (input_ids fb)"
  let ?L = "opt_lists row_logprobs ?starts (fd_rows st)"
  obtain hi where r: "length (fd_rows st) = batch_size fb"
    "\<forall>b<batch_size fb. final_row_ok V a (return_logprob fb) (block (block_size a) b (input_ids fb)) hi (fd_rows st ! b)"
    "next_token_ids out = map2 (\<lambda>r s. drop s (row_ids r)) (fd_rows st) ?starts"
    "return_logprob fb \<longrightarrow> next_token_logprobs out = Some ?L"
    using fd_run_rows [OF assms(1-5,7)] by metis
  have row: "length (?L ! b) = length (next_token_ids out ! b) \<and> NaN \<notin> set (?L ! b)" if b: "b < batch_size fb" for b
  proof -
    let ?s = "block_size a - num_masks (mask_id a) (block (block_size a) b (input_ids fb))"
    obtain g where g: "row_logprobs (fd_rows st ! b) = Some g" "length g = block_size a"
      "\<forall>q. ?s \<le> q \<and> q < block_size a \<longrightarrow> g ! q \<noteq> NaN" "length (row_ids (fd_rows st ! b)) = block_size a"
      using r(2) b assms(6) unfolding final_row_ok_def Let_def by blast
    have "NaN \<notin> set (drop ?s g)"
      using g(2,3) all_drop_nth [of ?s g "\<lambda>x. x \<noteq> NaN"] by auto
    then show ?thesis using r(1,3) b g(1,2,4) by (simp add: opt_lists_def starts_nth)
  qed
  have len: "length ?L = batch_size fb" "length (next_token_ids out) = batch_size fb"
    using r(1,3) by (simp_all add: opt_lists_def starts_nth)
  have "map length ?L = map length (next_token_ids out)" using row len by (auto intro!: nth_equalityI)
  moreover have "\<forall>row\<in>set ?L. NaN \<notin> set row" using row len by (metis in_set_conv_nth)
  ultimately show ?thesis using r(4) assms(6) by blast
qed

text \<open>
  C12. The reveal steps returned with the tokens are steps of the run: between 0 and \<open>max_steps\<close>. With
  the scheduled budget (no threshold, not leftmost) no position is left for the final force-commit, so
  every step is below \<open>max_steps\<close>.
\<close>

theorem fd_run_reveal_steps:
  assumes "fd_env_ok V e" and "vocab_ok V (mask_id a) eos_id" and "fd_batch_ok a eos_id fb"
    and "mask_id a \<in> set (input_ids fb)" and "0 < fd_max_steps a" and "return_logprob fb" and "return_reveal_steps a"
    and "fd_run a e eos_id fb s m = ((out, st), m')"
  shows "\<exists>S. next_token_reveal_steps out = Some S \<and> map length S = map length (next_token_ids out)
     \<and> (\<forall>row\<in>set S. \<forall>c\<in>set row. 0 \<le> c \<and> c \<le> int (fd_max_steps a)
          \<and> (threshold a = None \<and> selection_policy a \<noteq> Policy_leftmost \<longrightarrow> c < int (fd_max_steps a)))"
proof -
  let ?starts = "start_list (mask_id a) (block_size a) (batch_size fb) (input_ids fb)"
  let ?S = "opt_lists row_steps ?starts (fd_rows st)"
  obtain hi where r: "length (fd_rows st) = batch_size fb" "hi \<le> int (fd_max_steps a)"
    "threshold a = None \<and> selection_policy a \<noteq> Policy_leftmost \<longrightarrow> hi < int (fd_max_steps a)"
    "\<forall>b<batch_size fb. final_row_ok V a (return_logprob fb) (block (block_size a) b (input_ids fb)) hi (fd_rows st ! b)"
    "next_token_ids out = map2 (\<lambda>r s. drop s (row_ids r)) (fd_rows st) ?starts"
    "return_logprob fb \<and> return_reveal_steps a \<longrightarrow> next_token_reveal_steps out = Some ?S"
    using fd_run_rows [OF assms(1-5,8)] by metis
  have row: "length (?S ! b) = length (next_token_ids out ! b) \<and> (\<forall>c\<in>set (?S ! b). 0 \<le> c \<and> c \<le> hi)"
    if b: "b < batch_size fb" for b
  proof -
    let ?s = "block_size a - num_masks (mask_id a) (block (block_size a) b (input_ids fb))"
    obtain g where g: "row_steps (fd_rows st ! b) = Some g" "length g = block_size a"
      "\<forall>q. ?s \<le> q \<and> q < block_size a \<longrightarrow> 0 \<le> g ! q \<and> g ! q \<le> hi" "length (row_ids (fd_rows st ! b)) = block_size a"
      using r(4) b assms(6,7) unfolding final_row_ok_def Let_def by blast
    have "\<forall>c\<in>set (drop ?s g). 0 \<le> c \<and> c \<le> hi"
      using g(2,3) all_drop_nth [of ?s g "\<lambda>c. 0 \<le> c \<and> c \<le> hi"] by auto
    then show ?thesis using r(1,5) b g(1,2,4) by (simp add: opt_lists_def starts_nth)
  qed
  have len: "length ?S = batch_size fb" "length (next_token_ids out) = batch_size fb"
    using r(1,5) by (simp_all add: opt_lists_def starts_nth)
  have "map length ?S = map length (next_token_ids out)" using row len by (auto intro!: nth_equalityI)
  moreover have "\<forall>row\<in>set ?S. \<forall>c\<in>set row. 0 \<le> c \<and> c \<le> hi" using row len by (metis in_set_conv_nth)
  ultimately show ?thesis using r(2,3,6) assms(6,7) by fastforce
qed

text \<open>
  C13. The transfer schedule distributes the masks over the steps: it has one entry per step, the
  entries add up to the number of masks, and an earlier step gets at most one token more than a later
  one and never fewer.
\<close>

theorem transfer_schedule:
  assumes "0 < steps"
  shows "length (get_num_transfer_tokens n steps) = steps \<and> sum_list (get_num_transfer_tokens n steps) = n
     \<and> (\<forall>i j. i < j \<and> j < steps \<longrightarrow>
          get_num_transfer_tokens n steps ! j \<le> get_num_transfer_tokens n steps ! i
          \<and> get_num_transfer_tokens n steps ! i \<le> get_num_transfer_tokens n steps ! j + 1)"
proof -
  have extra: "sum_list (map (\<lambda>i. b + (if i < r then 1 else 0)) [0..<k]) = k * b + min k r" for b r k :: nat
    by (induction k) auto
  have "min steps (n mod steps) = n mod steps" using assms by (simp add: min_absorb2 order_less_imp_le)
  then have "sum_list (get_num_transfer_tokens n steps) = n"
    unfolding get_num_transfer_tokens_def Let_def extra by simp
  then show ?thesis by (auto simp: get_num_transfer_tokens_def Let_def)
qed

theorem transfer_schedule_witness:
  "get_num_transfer_tokens 7 3 = [3, 2, 2] \<and> sum_list (get_num_transfer_tokens 7 3) = 7"
  using transfer_schedule [of 3 7] by (simp add: get_num_transfer_tokens_def upt_rec)

lemma block_gather_rows:
  assumes "length xs = n * bs" "\<forall>i\<in>set act. i < n" "j < length act"
  shows "block bs j (gather xs (concat (map (\<lambda>i. [i * bs..<(i + 1) * bs]) act))) = block bs (act ! j) xs"
proof -
  have row: "gather xs [i * bs..<(i + 1) * bs] = block bs i xs" if "i < n" for i
    using length_block_full [OF assms(1) that] nth_block [OF that assms(1)]
    by (intro nth_equalityI) (auto simp: gather_def)
  have "gather xs (concat (map (\<lambda>i. [i * bs..<(i + 1) * bs]) act)) = concat (map (\<lambda>i. gather xs [i * bs..<(i + 1) * bs]) act)"
    by (induction act) (auto simp: gather_def)
  also have "\<dots> = concat (map (\<lambda>i. block bs i xs) act)"
    using row assms(2) by (simp cong: map_cong)
  also have "map (\<lambda>i. block bs i xs) act = map (\<lambda>k. block bs (act ! k) xs) [0..<length act]"
    by (rule nth_equalityI) auto
  finally show ?thesis
    using assms(2,3) length_block_full [OF assms(1)] block_concat [of "length act" "\<lambda>k. block bs (act ! k) xs" bs j] by simp
qed

text \<open>
  C14. Compaction of the batch keeps the active requests and nothing else: row \<open>j\<close> of the compacted
  batch carries the block of tokens, cache slots and positions, and the lengths, of the \<open>j\<close>-th active
  request, and the start offsets are the prefix sums of the compacted extend lengths.
\<close>

theorem compact_forward_batch_rows:
  assumes "length (input_ids fb) = batch_size fb * bs" and "length (out_cache_loc fb) = batch_size fb * bs"
    and "length (positions fb) = batch_size fb * bs" and "\<forall>i\<in>set act. i < batch_size fb" and "j < length act"
  shows "let fb' = compact_forward_batch bs fb act in
     batch_size fb' = length act
     \<and> block bs j (input_ids fb') = block bs (act ! j) (input_ids fb)
     \<and> block bs j (out_cache_loc fb') = block bs (act ! j) (out_cache_loc fb)
     \<and> block bs j (positions fb') = block bs (act ! j) (positions fb)
     \<and> req_pool_indices fb' ! j = req_pool_indices fb ! (act ! j)
     \<and> seq_lens fb' ! j = seq_lens fb ! (act ! j)
     \<and> extend_seq_lens fb' ! j = extend_seq_lens fb ! (act ! j)
     \<and> extend_prefix_lens fb' ! j = extend_prefix_lens fb ! (act ! j)
     \<and> extend_start_loc fb' ! j = sum_list (take j (extend_seq_lens fb'))
     \<and> length (input_ids fb') = extend_num_tokens fb'"
proof -
  define toks where "toks = concat (map (\<lambda>a. [a * bs..<(a + 1) * bs]) act)"
  have len: "length toks = length act * bs" unfolding toks_def by (induction act) auto
  define E where "E = gather (extend_seq_lens fb) act"
  have E: "length E = length act" by (simp add: E_def gather_def)
  have start: "take (length act) (0 # cumsum (butlast E)) ! j = sum_list (take j E)"
  proof (cases j)
    case (Suc k)
    then have "k < length (butlast E)" using assms(5) E by simp
    then show ?thesis using Suc assms(5) E by (simp add: nth_cumsum take_butlast)
  qed (use assms(5) in simp)
  note rows = block_gather_rows [OF _ assms(4,5), folded toks_def]
  show ?thesis
    using start rows [OF assms(1)] rows [OF assms(2)] rows [OF assms(3)] assms(5) len
    unfolding compact_forward_batch_def Let_def toks_def [symmetric] E_def [symmetric] by (simp add: gather_def E_def)
qed

section \<open>A concrete environment\<close>

definition demo_row :: "rat list" where
  "demo_row = [1/2, 1/4, 1/4]"

definition demo_env :: "nat fd_env" where
  "demo_env = \<lparr>fd_forward = (\<lambda>m fb. ((map (\<lambda>_. demo_row) (input_ids fb), True), Suc m)),
     fd_softmax = map (\<lambda>o'. case o' of None \<Rightarrow> 0 | Some q \<Rightarrow> q),
     fd_log_softmax = map (\<lambda>o'. case o' of None \<Rightarrow> NegInf | Some q \<Rightarrow> Fin (q - 1)),
     fd_entropy = (\<lambda>_. Fin 0), fd_topk = first_topk, fd_gumbel = (\<lambda>m t l. (l, Suc m)),
     fd_randperm = (\<lambda>m n. ([0..<n], Suc m))\<rparr>"

definition demo_fd :: fast_diffuser where
  "demo_fd = \<lparr>block_size = 2, mask_id = 2, temperature = 0, threshold = None, fd_max_steps = 2,
     fd_causal_context = True, selection_policy = Policy_confidence, tokens_per_step = None,
     logprob_mode = Trajectory, return_reveal_steps = True, return_entropy = True, eos_block_end_only = False\<rparr>"

definition demo_fb :: forward_batch where
  "demo_fb = \<lparr>batch_size = 2, input_ids = [0, 2, 2, 2], req_pool_indices = [4, 7], seq_lens = [2, 2],
     out_cache_loc = [10, 11, 20, 21], seq_lens_sum = 4, positions = [0, 1, 0, 1], extend_num_tokens = 4,
     extend_seq_lens = [2, 2], extend_prefix_lens = [0, 0], extend_start_loc = [0, 2],
     extend_prefix_lens_cpu = None, extend_seq_lens_cpu = None, seq_lens_cpu = None,
     dllm_causal_kv_update = False, return_logprob = True\<rparr>"

definition demo_stats :: fd_stats where
  "demo_stats = \<lparr>forward_passes = 0, stats_cuda_graph = 0, stats_eager = 0\<rparr>"

lemma demo_env_ok: "fd_env_ok 3 demo_env"
  using argmax_finite
  by (auto simp: fd_env_ok_def demo_env_def demo_row_def is_topk_first_topk split: option.splits)

lemma demo_fd_ok:
  "vocab_ok 3 (mask_id demo_fd) (Some 1)" "fd_batch_ok demo_fd (Some 1) demo_fb"
  "mask_id demo_fd \<in> set (input_ids demo_fb)" "0 < fd_max_steps demo_fd" "return_logprob demo_fb" "return_reveal_steps demo_fd"
  by (auto simp: vocab_ok_def fd_batch_ok_def demo_fd_def demo_fb_def masked_suffix_def num_masks_def block_def less_2_cases_iff)

theorem fd_run_fills_blocks_witness:
  "let ((out, st), m) = fd_run demo_fd demo_env (Some 1) demo_fb demo_stats 0 in
     mask_id demo_fd \<notin> set (row_ids (fd_rows st ! 1)) \<and> length (row_ids (fd_rows st ! 1)) = block_size demo_fd"
proof -
  obtain out st m where r: "fd_run demo_fd demo_env (Some 1) demo_fb demo_stats 0 = ((out, st), m)" by (metis surj_pair)
  have "1 < batch_size demo_fb" by (simp add: demo_fb_def)
  note res = fd_run_fills_blocks [OF demo_env_ok demo_fd_ok(1-4) r this]
  show ?thesis unfolding r Let_def prod.case using res by blast
qed

theorem fd_run_logprobs_witness:
  "let ((out, st), m) = fd_run demo_fd demo_env (Some 1) demo_fb demo_stats 0 in
     \<exists>L. next_token_logprobs out = Some L \<and> (\<forall>row\<in>set L. NaN \<notin> set row)"
proof -
  obtain out st m where r: "fd_run demo_fd demo_env (Some 1) demo_fb demo_stats 0 = ((out, st), m)" by (metis surj_pair)
  show ?thesis using fd_run_logprobs [OF demo_env_ok demo_fd_ok(1-5) r] r by auto
qed

theorem fd_run_reveal_steps_witness:
  "let ((out, st), m) = fd_run demo_fd demo_env (Some 1) demo_fb demo_stats 0 in
     \<exists>S. next_token_reveal_steps out = Some S \<and> (\<forall>row\<in>set S. \<forall>c\<in>set row. 0 \<le> c \<and> c < 2)"
proof -
  obtain out st m where r: "fd_run demo_fd demo_env (Some 1) demo_fb demo_stats 0 = ((out, st), m)" by (metis surj_pair)
  have "threshold demo_fd = None \<and> selection_policy demo_fd \<noteq> Policy_leftmost" "int (fd_max_steps demo_fd) = 2"
    by (simp_all add: demo_fd_def)
  then show ?thesis using fd_run_reveal_steps [OF demo_env_ok demo_fd_ok r] r by auto
qed

theorem compact_forward_batch_rows_witness:
  "block 2 0 (input_ids (compact_forward_batch 2 demo_fb [1])) = [2, 2]
   \<and> block 2 0 (out_cache_loc (compact_forward_batch 2 demo_fb [1])) = [20, 21]"
  using compact_forward_batch_rows [of demo_fb 2 "[1]" 0] by (simp add: demo_fb_def Let_def block_def)

end
