(* ===== verification/Linear_Spec.thy ===== *)
theory Linear_Spec
  imports Low_Confidence Fast_Diffuser
begin

text \<open>
  \<open>dllm/algorithm/linear_spec.py\<close>: the diffusion model as the speculator of its own causal mode. A
  block is drafted by one bidirectional pass, verified by one causal pass, and the longest prefix on
  which the two agree is accepted; LoRA deltas are added to the weights for the passes that use them.

  The state of a run is \<open>ls_state\<close>: the mutable fields of the object, the input ids of the batch, the
  weights of the model and the rest of the model's state. Weights are rational matrices, so adding
  and subtracting a delta is exact. \<open>ls_forward m w causal ids\<close> is the model's forward pass.
\<close>

section \<open>LoRA deltas\<close>

type_synonym matrix = "rat list list"
type_synonym weights = "matrix list"

record lora_ckpt =
  lora_r :: int
  lora_alpha :: int
  lora_items :: "(string \<times> matrix) list"

text \<open>Where the fused projections of a layer are among the weights of the model.\<close>

record lora_layer =
  qkv_weight :: nat
  o_weight :: nat

fun py_split :: "char \<Rightarrow> string \<Rightarrow> string list" where
  "py_split c [] = [[]]"
| "py_split c (x # xs) =
     (if x = c then [] # py_split c xs
      else case py_split c xs of [] \<Rightarrow> [[x]] | p # ps \<Rightarrow> (x # p) # ps)"

definition py_index :: "'a \<Rightarrow> 'a list \<Rightarrow> nat res" where
  "py_index x xs = (if x \<in> set xs then Inr (length (takeWhile (\<lambda>y. y \<noteq> x) xs)) else Inl ValueError)"

definition py_nth :: "'a list \<Rightarrow> nat \<Rightarrow> 'a res" where
  "py_nth xs i = (if i < length xs then Inr (xs ! i) else Inl IndexError)"

definition is_digit :: "char \<Rightarrow> bool" where
  "is_digit c \<longleftrightarrow> 48 \<le> (of_char c :: nat) \<and> (of_char c :: nat) \<le> 57"

definition py_int :: "string \<Rightarrow> nat res" where
  "py_int s = (if s \<noteq> [] \<and> (\<forall>c\<in>set s. is_digit c)
               then Inr (foldl (\<lambda>n c. 10 * n + (of_char c - 48)) 0 s) else Inl ValueError)"

definition dict_find :: "('k, 'v) dict \<Rightarrow> 'k \<Rightarrow> 'v res" where
  "dict_find d k = (case dict_get d k of Some v \<Rightarrow> Inr v | None \<Rightarrow> Inl KeyError)"

definition matmul :: "matrix \<Rightarrow> matrix \<Rightarrow> matrix" where
  "matmul B A = map (\<lambda>row. foldl (map2 (+)) (replicate (length (hd A)) 0) (map2 (\<lambda>x r. map (\<lambda>y. x * y) r) row A)) B"

definition mat_scale :: "rat \<Rightarrow> matrix \<Rightarrow> matrix" where
  "mat_scale s A = map (map (\<lambda>x. x * s)) A"

type_synonym layer_projs = "(nat, (string, (string, matrix) dict) dict) dict"

definition lora_group_item :: "layer_projs \<Rightarrow> string \<times> matrix \<Rightarrow> layer_projs res" where
  "lora_group_item lp = (\<lambda>(key, tensor).
     let parts = py_split (CHR ''.'') key
     in rbind (py_index ''layers'' parts) (\<lambda>i. rbind (py_nth parts (i + 1)) (\<lambda>s. rbind (py_int s) (\<lambda>layer_idx.
          let grp = (if ''self_attn'' \<in> set parts then Some ''self_attn''
                     else if ''mlp'' \<in> set parts then Some ''mlp'' else None)
          in case grp of
               None \<Rightarrow> Inr lp
             | Some g \<Rightarrow>
                 rbind (py_index g parts) (\<lambda>j. rbind (py_nth parts (j + 1)) (\<lambda>proj.
                   let ab = parts ! (length parts - 2);
                       projs = get_or (dict_get lp layer_idx) [];
                       entry = get_or (dict_get projs proj) []
                   in Inr (dict_set layer_idx (dict_set proj (dict_set ab tensor entry) projs) lp)))))))"

fun lora_group :: "layer_projs \<Rightarrow> (string \<times> matrix) list \<Rightarrow> layer_projs res" where
  "lora_group lp [] = Inr lp"
| "lora_group lp (it # its) = rbind (lora_group_item lp it) (\<lambda>lp. lora_group lp its)"

definition lora_delta :: "rat \<Rightarrow> (string, matrix) dict \<Rightarrow> matrix res" where
  "lora_delta scale entry =
     rbind (dict_find entry ''lora_A'') (\<lambda>A. rbind (dict_find entry ''lora_B'') (\<lambda>B.
       Inr (mat_scale scale (matmul B A))))"

fun lora_qkv :: "rat \<Rightarrow> (string, (string, matrix) dict) dict \<Rightarrow> string list \<Rightarrow> matrix res" where
  "lora_qkv scale projs [] = Inr []"
| "lora_qkv scale projs (proj # ps) =
     (case dict_get projs proj of
        None \<Rightarrow> Inl ValueError
      | Some entry \<Rightarrow> rbind (lora_delta scale entry) (\<lambda>d. rbind (lora_qkv scale projs ps) (\<lambda>ds. Inr (d @ ds))))"

definition QKV :: "string list" where
  "QKV = [''q_proj'', ''k_proj'', ''v_proj'']"

definition lora_layer_deltas ::
  "lora_layer list \<Rightarrow> rat \<Rightarrow> nat \<times> (string, (string, matrix) dict) dict \<Rightarrow> (nat \<times> matrix) list res" where
  "lora_layer_deltas layers scale = (\<lambda>(layer_idx, projs).
     rbind (py_nth layers layer_idx) (\<lambda>layer.
       rbind (if \<exists>p\<in>set QKV. dict_get projs p \<noteq> None
              then rbind (lora_qkv scale projs QKV) (\<lambda>d. Inr [(qkv_weight layer, d)]) else Inr []) (\<lambda>qkv.
         rbind (case dict_get projs ''o_proj'' of
                  Some entry \<Rightarrow> rbind (lora_delta scale entry) (\<lambda>d. Inr [(o_weight layer, d)])
                | None \<Rightarrow> Inr []) (\<lambda>oo.
           Inr (qkv @ oo)))))"

fun lora_all_deltas ::
  "lora_layer list \<Rightarrow> rat \<Rightarrow> (nat \<times> (string, (string, matrix) dict) dict) list \<Rightarrow> (nat \<times> matrix) list res" where
  "lora_all_deltas layers scale [] = Inr []"
| "lora_all_deltas layers scale (x # xs) =
     rbind (lora_layer_deltas layers scale x) (\<lambda>d. rbind (lora_all_deltas layers scale xs) (\<lambda>ds. Inr (d @ ds)))"

section \<open>The algorithm object\<close>

record linear_spec = dllm_alg +
  ls_causal_context :: bool
  seed_tokens :: "(string, int) dict"
  lora_path :: "string option"
  lora_mode :: string
  lora_deltas :: "(nat \<times> matrix) list option"
  dual_weights :: "(nat \<times> matrix \<times> matrix) list option"
  graphs_baked :: bool
  ls_forward_passes :: nat

definition linear_spec_init :: "dllm_config \<Rightarrow> string option \<Rightarrow> string option \<Rightarrow> linear_spec" where
  "linear_spec_init config cfg_lora_path cfg_lora_mode =
     \<lparr>block_size = dc_block_size config, mask_id = dc_mask_id config, ls_causal_context = causal_context config,
      seed_tokens = [], lora_path = cfg_lora_path, lora_mode = get_or cfg_lora_mode ''draft_only'',
      lora_deltas = None, dual_weights = None, graphs_baked = False, ls_forward_passes = 0\<rparr>"

definition load_lora_deltas :: "lora_ckpt \<Rightarrow> lora_layer list \<Rightarrow> linear_spec \<Rightarrow> linear_spec res" where
  "load_lora_deltas ckpt layers a =
     (if lora_deltas a \<noteq> None \<or> lora_path a = None then Inr a
      else if lora_r ckpt = 0 then Inl ZeroDivisionError
      else
        let scale = of_int (lora_alpha ckpt) / of_int (lora_r ckpt)
        in rbind (lora_group [] (lora_items ckpt)) (\<lambda>lp.
             rbind (lora_all_deltas layers scale (sort_key fst lp)) (\<lambda>ds.
               Inr (a\<lparr>lora_deltas := Some ds\<rparr>))))"

definition add_mat :: "matrix \<Rightarrow> matrix \<Rightarrow> matrix" where
  "add_mat = map2 (map2 (+))"

definition sub_mat :: "matrix \<Rightarrow> matrix \<Rightarrow> matrix" where
  "sub_mat = map2 (map2 (-))"

text \<open>\<open>param.data.add_(delta)\<close> and \<open>param.data.sub_(delta)\<close> for every delta.\<close>

definition add_deltas :: "(nat \<times> matrix) list \<Rightarrow> weights \<Rightarrow> weights" where
  "add_deltas ds w = foldl (\<lambda>w (i, d). w[i := add_mat (w ! i) d]) w ds"

definition sub_deltas :: "(nat \<times> matrix) list \<Rightarrow> weights \<Rightarrow> weights" where
  "sub_deltas ds w = foldl (\<lambda>w (i, d). w[i := sub_mat (w ! i) d]) w ds"

text \<open>
  The hooks that point the parameters at the fused or at the base copy before a graph is captured.
  The FP8 fusion (dequantise, add, requantise; a weight and its scale) is the parameter \<open>fuse_fp8\<close>,
  \<open>None\<close> when the weights are not FP8.
\<close>

definition set_lora :: "(nat \<times> matrix \<times> matrix) list \<Rightarrow> weights \<Rightarrow> weights" where
  "set_lora dual w = foldl (\<lambda>w (i, b, d). w[i := d]) w dual"

definition set_base :: "(nat \<times> matrix \<times> matrix) list \<Rightarrow> weights \<Rightarrow> weights" where
  "set_base dual w = foldl (\<lambda>w (i, b, d). w[i := b]) w dual"

definition bake_dual ::
  "(matrix \<Rightarrow> matrix \<Rightarrow> matrix \<Rightarrow> matrix \<times> matrix) option \<Rightarrow> (nat \<Rightarrow> nat) \<Rightarrow> weights \<Rightarrow> (nat \<times> matrix) list
    \<Rightarrow> (nat \<times> matrix \<times> matrix) list" where
  "bake_dual fuse_fp8 scale_of w ds =
     concat (map (\<lambda>(i, d).
       case fuse_fp8 of
         None \<Rightarrow> [(i, w ! i, add_mat (w ! i) d)]
       | Some f \<Rightarrow>
           let (q, s) = f (w ! i) (w ! scale_of i) d
           in [(i, w ! i, q), (scale_of i, w ! scale_of i, s)]) ds)"

text \<open>The object afterwards, and the draft and verify hooks of the graph runner.\<close>

definition bake_dual_weights_into_graphs ::
  "(matrix \<Rightarrow> matrix \<Rightarrow> matrix \<Rightarrow> matrix \<times> matrix) option \<Rightarrow> (nat \<Rightarrow> nat) \<Rightarrow> bool \<Rightarrow> weights
    \<Rightarrow> linear_spec \<Rightarrow> linear_spec \<times> (weights \<Rightarrow> weights) \<times> (weights \<Rightarrow> weights)" where
  "bake_dual_weights_into_graphs fuse_fp8 scale_of defer w a =
     (let dual = bake_dual fuse_fp8 scale_of w (get_or (lora_deltas a) []);
          a = a\<lparr>dual_weights := Some dual\<rparr>;
          pre_draft_hook = set_lora dual;
          pre_verify_hook = (if lora_mode a = ''both'' then set_lora dual else set_base dual);
          a = (if defer then a\<lparr>graphs_baked := True, lora_deltas := None\<rparr> else a)
      in (a, pre_draft_hook, pre_verify_hook))"

definition ls_setup ::
  "(matrix \<Rightarrow> matrix \<Rightarrow> matrix \<Rightarrow> matrix \<times> matrix) option \<Rightarrow> (nat \<Rightarrow> nat) \<Rightarrow> bool \<Rightarrow> bool \<Rightarrow> lora_ckpt
    \<Rightarrow> lora_layer list \<Rightarrow> weights \<Rightarrow> linear_spec
    \<Rightarrow> (linear_spec \<times> ((weights \<Rightarrow> weights) \<times> (weights \<Rightarrow> weights)) option) res" where
  "ls_setup fuse_fp8 scale_of has_graph_runner defer ckpt layers w a =
     (if lora_path a = None then Inr (a, None)
      else rbind (load_lora_deltas ckpt layers a) (\<lambda>a.
        if get_or (lora_deltas a) [] \<noteq> [] \<and> has_graph_runner
        then let (a, h) = bake_dual_weights_into_graphs fuse_fp8 scale_of defer w a in Inr (a, Some h)
        else Inr (a, None)))"

section \<open>The run\<close>

record ls_logits =
  next_token_logits :: "logits option"
  full_logits :: logits
  can_run_graph :: bool

record 'm ls_env =
  ls_forward :: "'m \<Rightarrow> weights \<Rightarrow> bool \<Rightarrow> int list \<Rightarrow> ls_logits \<times> 'm"
  ls_ckpt :: lora_ckpt
  ls_layers :: "lora_layer list"

record 'm ls_state =
  ls_alg :: linear_spec
  ls_ids :: "int list"
  ls_weights :: weights
  ls_model :: 'm

text \<open>\<open>logits[:, mask_id] = -1e9\<close> and the argmax of the rows.\<close>

definition argmax_no_mask :: "int \<Rightarrow> rat list \<Rightarrow> int" where
  "argmax_no_mask msk row = int (argmax (row[nat msk := -1000000000]))"

text \<open>The same with \<open>-inf\<close>, for the seeds of a prefill.\<close>

definition prefill_seed :: "int \<Rightarrow> rat list \<Rightarrow> int" where
  "prefill_seed msk row = int (argmax (neg_inf_at msk (map Some row)))"

definition ls_prefill ::
  "'m ls_env \<Rightarrow> string list \<Rightarrow> 'm ls_state \<Rightarrow> ((ls_logits option \<times> int list list \<times> bool) \<times> 'm ls_state) res" where
  "ls_prefill e rids st =
     (if ls_ids st = [] then Inr ((None, [], False), st)
      else
        let (out, m) = ls_forward e (ls_model st) (ls_weights st) False (ls_ids st);
            st = st\<lparr>ls_model := m\<rparr>
        in case next_token_logits out of
             None \<Rightarrow> Inr ((Some out, [], can_run_graph out), st)
           | Some l \<Rightarrow>
               if length l < length rids then Inl IndexError
               else
                 let a = ls_alg st;
                     seeds = map (prefill_seed (mask_id a)) l;
                     a = a\<lparr>seed_tokens := foldl (\<lambda>d (rid, s). dict_set rid s d) (seed_tokens a) (zip rids seeds)\<rparr>
                 in Inr ((Some out, [], can_run_graph out), st\<lparr>ls_alg := a\<rparr>))"

text \<open>The seed of a request goes to its first masked position.\<close>

definition inject_seeds ::
  "(string, int) dict \<Rightarrow> nat \<Rightarrow> string list \<Rightarrow> nat list \<Rightarrow> nat \<Rightarrow> int list \<Rightarrow> int list" where
  "inject_seeds seeds bs rids starts bsz ids =
     foldl (\<lambda>ids b.
       case dict_get seeds (rids ! b) of
         None \<Rightarrow> ids
       | Some seed \<Rightarrow>
           let block_start = b * bs + starts ! b
           in if block_start < length ids then ids[block_start := seed] else ids) ids [0..<bsz]"

definition need_swap :: "linear_spec \<Rightarrow> bool" where
  "need_swap a \<longleftrightarrow> lora_deltas a \<noteq> None \<and> \<not> graphs_baked a"

definition ls_draft :: "'m ls_env \<Rightarrow> 'm ls_state \<Rightarrow> 'm ls_state" where
  "ls_draft e st =
     (let a = ls_alg st;
          ds = get_or (lora_deltas a) [];
          w = (if need_swap a then add_deltas ds (ls_weights st) else ls_weights st);
          (out, m) = ls_forward e (ls_model st) w False (ls_ids st);
          w = (if need_swap a \<and> lora_mode a = ''draft_only'' then sub_deltas ds w else w);
          draft_all = map (argmax_no_mask (mask_id a)) (full_logits out)
      in st\<lparr>ls_alg := a\<lparr>ls_forward_passes := ls_forward_passes a + 1\<rparr>, ls_weights := w, ls_model := m,
            ls_ids := torch_where (mask_index (mask_id a) (ls_ids st)) draft_all (ls_ids st)\<rparr>)"

definition ls_verify :: "'m ls_env \<Rightarrow> 'm ls_state \<Rightarrow> (ls_logits \<times> int list) \<times> 'm ls_state" where
  "ls_verify e st =
     (let a = ls_alg st;
          ds = get_or (lora_deltas a) [];
          (out, m) = ls_forward e (ls_model st) (ls_weights st) True (ls_ids st);
          w = (if need_swap a \<and> lora_mode a = ''both'' then sub_deltas ds (ls_weights st) else ls_weights st);
          ar_all = map (argmax_no_mask (mask_id a)) (full_logits out)
      in ((out, ar_all), st\<lparr>ls_alg := a\<lparr>ls_forward_passes := ls_forward_passes a + 1\<rparr>, ls_weights := w, ls_model := m\<rparr>))"

text \<open>The accepted tokens of a request, and the number of matches.\<close>

definition leading_matches :: "int list \<Rightarrow> int list \<Rightarrow> nat" where
  "leading_matches xs ys = length (takeWhile (\<lambda>b. b) (map2 (=) xs ys))"

definition cut_at_eos :: "int option \<Rightarrow> int list \<Rightarrow> int list" where
  "cut_at_eos eos_id toks =
     (case eos_id of
        None \<Rightarrow> toks
      | Some e \<Rightarrow> if e \<in> set toks then take (length (takeWhile (\<lambda>t. t \<noteq> e) toks) + 1) toks else toks)"

definition accept_block :: "nat \<Rightarrow> int option \<Rightarrow> nat \<Rightarrow> nat \<Rightarrow> int list \<Rightarrow> int list \<Rightarrow> int list \<times> nat" where
  "accept_block bs eos_id b gen_start ids ar_all =
     (let gen_len = bs - gen_start;
          offset = b * bs + gen_start;
          c = (if gen_len > 1
               then leading_matches (take (gen_len - 1) (drop (offset + 1) ids)) (take (gen_len - 1) (drop offset ar_all))
               else 0);
          seed_tensor = take 1 (drop offset ids);
          output_tokens = (if c > 0 then seed_tensor @ take c (drop offset ar_all) else seed_tensor)
      in (cut_at_eos eos_id output_tokens, c))"

text \<open>The seed of the next block, and the seeds dropped for requests that ended.\<close>

definition next_seed :: "nat \<Rightarrow> nat \<Rightarrow> nat \<Rightarrow> nat \<Rightarrow> int list \<Rightarrow> int" where
  "next_seed bs b gen_start c ar_all =
     (let ar_c_pos = b * bs + gen_start + c
      in if ar_c_pos < b * bs + bs then ar_all ! ar_c_pos else ar_all ! (b * bs + bs - 1))"

definition update_seeds ::
  "nat \<Rightarrow> int option \<Rightarrow> string list \<Rightarrow> nat list \<Rightarrow> int list \<Rightarrow> (int list \<times> nat) list \<Rightarrow> nat
    \<Rightarrow> (string, int) dict \<Rightarrow> (string, int) dict" where
  "update_seeds bs eos_id rids starts ar_all accs bsz seeds =
     (let seeds = foldl (\<lambda>d b. dict_set (rids ! b) (next_seed bs b (starts ! b) (snd (accs ! b)) ar_all) d)
                    seeds [0..<bsz]
      in foldl (\<lambda>d b.
           let tokens = fst (accs ! b)
           in if eos_id \<noteq> None \<and> tokens \<noteq> [] \<and> Some (last tokens) = eos_id then dict_pop (rids ! b) d else d)
           seeds [0..<bsz])"

definition ls_run ::
  "'m ls_env \<Rightarrow> int option \<Rightarrow> string list \<Rightarrow> nat \<Rightarrow> 'm ls_state
    \<Rightarrow> ((ls_logits option \<times> int list list \<times> bool) \<times> 'm ls_state) res" where
  "ls_run e eos_id rids bsz st =
     (let a = ls_alg st; bs = block_size a
      in if True \<notin> set (mask_index (mask_id a) (ls_ids st)) then ls_prefill e rids st
         else if length rids < bsz then Inl IndexError
         else
           let starts = start_list (mask_id a) bs bsz (ls_ids st);
               st = st\<lparr>ls_ids := inject_seeds (seed_tokens a) bs rids starts bsz (ls_ids st)\<rparr>
           in rbind (load_lora_deltas (ls_ckpt e) (ls_layers e) a) (\<lambda>a.
                let ((out, ar_all), st) = ls_verify e (ls_draft e (st\<lparr>ls_alg := a\<rparr>));
                    accs = map (\<lambda>b. accept_block bs eos_id b (starts ! b) (ls_ids st) ar_all) [0..<bsz];
                    a = ls_alg st;
                    a = a\<lparr>seed_tokens := update_seeds bs eos_id rids starts ar_all accs bsz (seed_tokens a)\<rparr>
                in Inr ((Some out, map fst accs, can_run_graph out), st\<lparr>ls_alg := a\<rparr>)))"

end
