(* ===== verification/Linear_Spec_Correct.thy ===== *)
theory Linear_Spec_Correct
  imports Linear_Spec
begin

text \<open>
  LinearSpec against greedy decoding: whatever the draft pass proposes, the tokens of a block are the
  ones greedy decoding with the causal model gives after the seed, and the seed kept for the next
  block is the greedy token after them. The LoRA deltas leave the weights as they were, and captured
  graphs read the weights the run-time swap would give.
\<close>

section \<open>Greedy decoding\<close>

fun greedy :: "(int list \<Rightarrow> int) \<Rightarrow> int list \<Rightarrow> int \<Rightarrow> nat \<Rightarrow> int list" where
  "greedy f pre t 0 = []"
| "greedy f pre t (Suc n) = t # greedy f (pre @ [t]) (f (pre @ [t])) n"

lemma length_greedy [simp]: "length (greedy f pre t n) = n"
  by (induction n arbitrary: pre t) auto

lemma greedy_snoc: "greedy f pre t (Suc (Suc n)) = greedy f pre t (Suc n) @ [f (pre @ greedy f pre t (Suc n))]"
proof (induction n arbitrary: pre t)
  case (Suc n)
  have "greedy f pre t (Suc (Suc (Suc n))) = t # greedy f (pre @ [t]) (f (pre @ [t])) (Suc (Suc n))" by (rule greedy.simps)
  also have "\<dots> = t # greedy f (pre @ [t]) (f (pre @ [t])) (Suc n)
      @ [f ((pre @ [t]) @ greedy f (pre @ [t]) (f (pre @ [t])) (Suc n))]" unfolding Suc.IH ..
  also have "\<dots> = greedy f pre t (Suc (Suc n)) @ [f (pre @ greedy f pre t (Suc (Suc n)))]"
    unfolding greedy.simps(2) [of f pre t "Suc n"] by simp
  finally show ?case .
qed simp

text \<open>
  A causal model: the logits after position \<open>i\<close> of a request depend on its tokens up to \<open>i\<close> only;
  \<open>lg m w b ctx\<close> are the logits after \<open>ctx\<close> for the request in row \<open>b\<close>.
\<close>

definition causal_model ::
  "nat \<Rightarrow> 'm ls_env \<Rightarrow> ('m \<Rightarrow> weights \<Rightarrow> nat \<Rightarrow> int list \<Rightarrow> rat list) \<Rightarrow> bool" where
  "causal_model n e lg \<longleftrightarrow>
     (\<forall>m w c ids. length (full_logits (fst (ls_forward e m w c ids))) = length ids)
     \<and> (\<forall>m w ids b i. b * n + i < length ids \<and> i < n \<longrightarrow>
          full_logits (fst (ls_forward e m w True ids)) ! (b * n + i) = lg m w b (take (Suc i) (block n b ids)))"

section \<open>The accepted prefix\<close>

lemma leading_matches_le: "leading_matches xs ys \<le> min (length xs) (length ys)"
  unfolding leading_matches_def using length_takeWhile_le [of "\<lambda>b. b" "map2 (=) xs ys"] by simp

lemma leading_matches_nth: "i < leading_matches xs ys \<Longrightarrow> xs ! i = ys ! i"
proof -
  assume i: "i < leading_matches xs ys"
  then have "takeWhile (\<lambda>b. b) (map2 (=) xs ys) ! i" 
    unfolding leading_matches_def by (metis nth_mem set_takeWhileD)
  then have "map2 (=) xs ys ! i" using i unfolding leading_matches_def by (simp add: takeWhile_nth)
  then show ?thesis using i leading_matches_le [of xs ys] by simp
qed

lemma accepted_greedy:
  assumes "gs + j < length blk" and "\<forall>i<length blk. ar ! i = f (take (Suc i) blk)"
    and "\<forall>i<j. blk ! (gs + 1 + i) = ar ! (gs + i)"
  shows "take (Suc j) (drop gs blk) = greedy f (take gs blk) (blk ! gs) (Suc j)"
  using assms
proof (induction j)
  case 0
  then show ?case by (simp add: take_Suc_conv_app_nth)
next
  case (Suc j)
  have ih: "take (Suc j) (drop gs blk) = greedy f (take gs blk) (blk ! gs) (Suc j)" using Suc by simp
  have "take (Suc (Suc j)) (drop gs blk) = take (Suc j) (drop gs blk) @ [blk ! (gs + 1 + j)]"
    using Suc.prems(1) by (simp add: take_Suc_conv_app_nth)
  moreover have "blk ! (gs + 1 + j) = f (take gs blk @ take (Suc j) (drop gs blk))"
  proof -
    have "blk ! (gs + 1 + j) = ar ! (gs + j)" using Suc.prems(3) by simp
    also have "\<dots> = f (take (Suc (gs + j)) blk)" using Suc.prems(1,2) by simp
    also have "take (Suc (gs + j)) blk = take gs blk @ take (Suc j) (drop gs blk)"
      using take_add [of gs "Suc j" blk] by simp
    finally show ?thesis .
  qed
  ultimately show ?case unfolding ih greedy_snoc by simp
qed

lemma block_drop_take:
  assumes "length ids = bsz * n" "b < bsz" "q + k \<le> n"
  shows "take k (drop (b * n + q) ids) = take k (drop q (block n b ids))"
proof -
  have "drop q (block n b ids) = take (n - q) (drop (b * n + q) ids)"
    by (simp add: block_def drop_take add.commute)
  then show ?thesis using assms(3) by (simp add: min_def)
qed

lemma accept_block_greedy:
  fixes eos_id :: "int option" and ids ar_all :: "int list"
  assumes len: "length ids = bsz * n" "length ar_all = bsz * n" and b: "b < bsz" and gs: "gs < n"
    and ar: "\<forall>i<n. ar_all ! (b * n + i) = f (take (Suc i) (block n b ids))"
  defines "c \<equiv> snd (accept_block n eos_id b gs ids ar_all)"
    and "pre \<equiv> take gs (block n b ids)" and "s \<equiv> block n b ids ! gs"
  shows "c < n - gs" and "fst (accept_block n eos_id b gs ids ar_all) = cut_at_eos eos_id (greedy f pre s (Suc c))"
    and "next_seed n b gs c ar_all = f (pre @ greedy f pre s (Suc c))"
    and "gs + c + 1 < n \<Longrightarrow> block n b ids ! (gs + c + 1) \<noteq> ar_all ! (b * n + gs + c)"
proof -
  let ?blk = "block n b ids" and ?ar = "block n b ar_all"
  have lb: "length ?blk = n" "length ?ar = n" using length_block_full [OF len(1) b] length_block_full [OF len(2) b] by auto
  let ?X = "take (n - gs - 1) (drop (gs + 1) ?blk)" and ?Y = "take (n - gs - 1) (drop gs ?ar)"
  have sl: "take (n - gs - 1) (drop (b * n + gs + 1) ids) = ?X" "take (n - gs - 1) (drop (b * n + gs) ar_all) = ?Y"
    using block_drop_take [OF len(1) b, of "gs + 1" "n - gs - 1"] block_drop_take [OF len(2) b, of gs "n - gs - 1"] gs
    by (simp_all add: add.assoc)
  have c: "c = (if n - gs > 1 then leading_matches ?X ?Y else 0)"
    unfolding c_def accept_block_def Let_def sl by simp
  have lXY: "length ?X = n - gs - 1" "length ?Y = n - gs - 1" using lb by simp_all
  have "leading_matches ?X ?Y \<le> n - gs - 1" using leading_matches_le [of ?X ?Y] unfolding lXY by simp
  then show c_less: "c < n - gs" unfolding c using gs by (cases "n - gs > 1") simp_all
  have arn: "\<forall>i<length ?blk. ?ar ! i = f (take (Suc i) ?blk)"
    using ar nth_block [OF b len(2)] lb by simp
  have match: "?blk ! (gs + 1 + i) = ?ar ! (gs + i)" if "i < c" for i
  proof -
    have "i < leading_matches ?X ?Y" using that unfolding c by (metis not_less_zero)
    moreover have "i < n - gs - 1" using that c_less by linarith
    ultimately have "?X ! i = ?Y ! i" "i < n - gs - 1" using leading_matches_nth by blast+
    then show ?thesis using lb by (simp add: add.assoc)
  qed
  have g: "take (Suc c) (drop gs ?blk) = greedy f pre s (Suc c)"
    unfolding pre_def s_def using accepted_greedy [of gs c ?blk ?ar f] c_less lb arn match by simp
  have "take 1 (drop (b * n + gs) ids) @ take c (drop (b * n + gs) ar_all) = take (Suc c) (drop gs ?blk)"
  proof (rule nth_equalityI)
    have t: "take 1 (drop (b * n + gs) ids) = take 1 (drop gs ?blk)" "take c (drop (b * n + gs) ar_all) = take c (drop gs ?ar)"
      using block_drop_take [OF len(1) b, of gs 1] block_drop_take [OF len(2) b, of gs c] gs c_less by simp_all
    show "length (take 1 (drop (b * n + gs) ids) @ take c (drop (b * n + gs) ar_all)) = length (take (Suc c) (drop gs ?blk))"
      unfolding t using lb c_less by simp
    fix i assume "i < length (take 1 (drop (b * n + gs) ids) @ take c (drop (b * n + gs) ar_all))"
    then have "i < Suc c" unfolding t using lb c_less by simp
    then show "(take 1 (drop (b * n + gs) ids) @ take c (drop (b * n + gs) ar_all)) ! i = take (Suc c) (drop gs ?blk) ! i"
      unfolding t using lb c_less gs match [of "i - 1"] by (cases i) (auto simp: nth_append)
  qed
  then have "(if c > 0 then take 1 (drop (b * n + gs) ids) @ take c (drop (b * n + gs) ar_all) else take 1 (drop (b * n + gs) ids))
     = greedy f pre s (Suc c)" using g by (cases c) simp_all
  moreover have "fst (accept_block n eos_id b gs ids ar_all) = cut_at_eos eos_id
     (if c > 0 then take 1 (drop (b * n + gs) ids) @ take c (drop (b * n + gs) ar_all) else take 1 (drop (b * n + gs) ids))"
    unfolding c_def accept_block_def Let_def by simp
  ultimately show "fst (accept_block n eos_id b gs ids ar_all) = cut_at_eos eos_id (greedy f pre s (Suc c))" by simp
  have "gs + c < n" using c_less by linarith
  then have "next_seed n b gs c ar_all = ar_all ! (b * n + (gs + c))" by (simp add: next_seed_def Let_def add.assoc)
  also have "\<dots> = f (take (gs + Suc c) ?blk)" using ar c_less by simp
  also have "take (gs + Suc c) ?blk = pre @ greedy f pre s (Suc c)" unfolding take_add pre_def g [unfolded pre_def] ..
  finally show "next_seed n b gs c ar_all = f (pre @ greedy f pre s (Suc c))" .
  assume more: "gs + c + 1 < n"
  have "\<not> map2 (=) ?X ?Y ! c"
  proof -
    have "n - gs > 1" using more by linarith
    then have "c = length (takeWhile (\<lambda>b. b) (map2 (=) ?X ?Y))" unfolding c leading_matches_def by (rule if_P)
    moreover have "c < length (map2 (=) ?X ?Y)" unfolding length_map length_zip lXY using more by simp
    ultimately show ?thesis using nth_length_takeWhile [of "\<lambda>b. b" "map2 (=) ?X ?Y"] by metis
  qed
  then show "?blk ! (gs + c + 1) \<noteq> ar_all ! (b * n + gs + c)"
    using more lb nth_block [OF b len(2), of "gs + c"] by (simp add: add.assoc)
qed

section \<open>Seeds\<close>

lemma block_list_update:
  assumes "length xs = bsz * n" "i < bsz" "j < bsz" "q < n"
  shows "block n j (xs[i * n + q := v]) = (if j = i then (block n j xs)[q := v] else block n j xs)"
proof (rule nth_equalityI)
  have l: "length (xs[i * n + q := v]) = bsz * n" using assms(1) by simp
  show "length (block n j (xs[i * n + q := v])) = length (if j = i then (block n j xs)[q := v] else block n j xs)"
    using length_block_full [OF l assms(3)] length_block_full [OF assms(1,3)] by auto
  fix p assume "p < length (block n j (xs[i * n + q := v]))"
  then have p: "p < n" using length_block_full [OF l assms(3)] by simp
  have jp: "j * n + p < bsz * n" using block_bound [OF assms(3), of n] p by linarith
  have iq: "i * n + q < bsz * n" using block_bound [OF assms(2), of n] assms(4) by linarith
  have ne: "j * n + p \<noteq> i * n + q" if "j \<noteq> i \<or> p \<noteq> q"
    using block_index_neq [of i j p n] block_index_neq [of j i q n] that p assms(4) by (cases "i = j") auto
  show "block n j (xs[i * n + q := v]) ! p = (if j = i then (block n j xs)[q := v] else block n j xs) ! p"
    using nth_block [OF assms(3) l p] nth_block [OF assms(3,1) p] length_block_full [OF assms(1,3)] p jp ne iq assms(1,4)
    by (cases "j = i"; cases "p = q") simp_all
qed

lemma inject_seeds_block:
  assumes len: "length ids = bsz * n" and st: "\<forall>b<bsz. starts ! b < n" and b: "b < bsz"
  shows "length (inject_seeds seeds n rids starts bsz ids) = bsz * n"
    and "block n b (inject_seeds seeds n rids starts bsz ids) =
      (case dict_get seeds (rids ! b) of None \<Rightarrow> block n b ids | Some s \<Rightarrow> (block n b ids)[starts ! b := s])"
proof -
  let ?step = "\<lambda>ids b. case dict_get seeds (rids ! b) of None \<Rightarrow> ids
     | Some seed \<Rightarrow> let p = b * n + starts ! b in if p < length ids then ids[p := seed] else ids"
  let ?new = "\<lambda>b. case dict_get seeds (rids ! b) of None \<Rightarrow> block n b ids | Some s \<Rightarrow> (block n b ids)[starts ! b := s]"
  have run: "length (foldl ?step ids [0..<k]) = bsz * n
      \<and> (\<forall>b<bsz. block n b (foldl ?step ids [0..<k]) = (if b < k then ?new b else block n b ids))" if "k \<le> bsz" for k
    using that
  proof (induction k)
    case 0
    then show ?case using len by simp
  next
    case (Suc k)
    let ?ids = "foldl ?step ids [0..<k]"
    have ih: "length ?ids = bsz * n" "\<forall>b<bsz. block n b ?ids = (if b < k then ?new b else block n b ids)"
      using Suc by simp_all
    have k: "k < bsz" "starts ! k < n" using Suc.prems st by auto
    have "k * n + starts ! k < bsz * n" using block_bound [OF k(1), of n] k(2) by linarith
    then have "foldl ?step ids [0..<Suc k] = (case dict_get seeds (rids ! k) of None \<Rightarrow> ?ids | Some s \<Rightarrow> ?ids[k * n + starts ! k := s])"
      using ih(1) by (simp add: Let_def split: option.splits)
    then show ?case
      using ih block_list_update [OF ih(1) k(1) _ k(2)] by (auto simp: less_Suc_eq split: option.splits)
  qed
  show "length (inject_seeds seeds n rids starts bsz ids) = bsz * n"
    and "block n b (inject_seeds seeds n rids starts bsz ids) = ?new b"
    using run [of bsz] b unfolding inject_seeds_def by simp_all
qed

lemma update_seeds_get:
  assumes "distinct (take bsz rids)" "bsz \<le> length rids" "b < bsz"
  shows "dict_get (update_seeds n eos_id rids starts ar_all accs bsz seeds) (rids ! b) =
     (let tokens = fst (accs ! b)
      in if eos_id \<noteq> None \<and> tokens \<noteq> [] \<and> Some (last tokens) = eos_id then None
         else Some (next_seed n b (starts ! b) (snd (accs ! b)) ar_all))"
proof -
  have inj: "rids ! i = rids ! j \<longleftrightarrow> i = j" if "i < bsz" "j < bsz" for i j
    using assms(1,2) that nth_eq_iff_index_eq [of "take bsz rids" i j] by simp
  let ?set = "\<lambda>d b. dict_set (rids ! b) (next_seed n b (starts ! b) (snd (accs ! b)) ar_all) d"
  have s: "dict_get (foldl ?set seeds [0..<k]) (rids ! b) =
      (if b < k then Some (next_seed n b (starts ! b) (snd (accs ! b)) ar_all) else dict_get seeds (rids ! b))" if "k \<le> bsz" for k
    using that by (induction k) (use inj assms(3) in \<open>auto simp: less_Suc_eq\<close>)
  have d: "dict_get (foldl (\<lambda>d b. if P b then dict_pop (rids ! b) d else d) D [0..<k]) (rids ! b) =
      (if b < k \<and> P b then None else dict_get D (rids ! b))" if "k \<le> bsz" for k D P
    using that by (induction k) (use inj assms(3) in \<open>auto simp: less_Suc_eq\<close>)
  show ?thesis
    unfolding update_seeds_def Let_def d [OF order_refl] s [OF order_refl] using assms(3) by simp
qed

section \<open>LoRA weights\<close>

text \<open>Every delta belongs to a weight of its shape.\<close>

definition same_shape :: "matrix \<Rightarrow> matrix \<Rightarrow> bool" where
  "same_shape A B \<longleftrightarrow> map length A = map length B"

definition deltas_fit :: "(nat \<times> matrix) list \<Rightarrow> weights \<Rightarrow> bool" where
  "deltas_fit ds w \<longleftrightarrow> (\<forall>(i, d)\<in>set ds. i < length w \<and> same_shape d (w ! i))"

lemma same_shape_nth: "same_shape A B \<Longrightarrow> length A = length B \<and> (\<forall>r<length A. length (A ! r) = length (B ! r))"
  unfolding same_shape_def by (metis length_map nth_map)

lemma mat_eqI:
  "length A = length B \<Longrightarrow> (\<And>r. r < length A \<Longrightarrow> length (A ! r) = length (B ! r)) \<Longrightarrow>
   (\<And>r c. r < length A \<Longrightarrow> c < length (A ! r) \<Longrightarrow> A ! r ! c = B ! r ! c) \<Longrightarrow> A = (B :: matrix)"
  by (intro nth_equalityI) auto

lemma sub_add_mat: "same_shape D A \<Longrightarrow> sub_mat (add_mat A D) D = A"
  using same_shape_nth [of D A] by (intro mat_eqI) (simp_all add: sub_mat_def add_mat_def)

lemma sub_add_mat_comm: "sub_mat (add_mat A D) D' = add_mat (sub_mat A D') D"
  by (intro mat_eqI) (simp_all add: sub_mat_def add_mat_def min.commute min.left_commute)

lemma add_mat_shape: "same_shape D A \<Longrightarrow> same_shape (add_mat A D) A"
  using same_shape_nth [of D A] unfolding same_shape_def [of "add_mat A D"]
  by (intro nth_equalityI) (simp_all add: add_mat_def)

lemma sub_one_add_deltas:
  "(add_deltas ds w)[i := sub_mat (add_deltas ds w ! i) d] = add_deltas ds (w[i := sub_mat (w ! i) d])"
proof (induction ds arbitrary: w)
  case Nil
  then show ?case by (simp add: add_deltas_def)
next
  case (Cons x ds)
  obtain j d' where x: "x = (j, d')" by fastforce
  have step: "add_deltas (x # ds) w = add_deltas ds (w[j := add_mat (w ! j) d'])" for w by (simp add: add_deltas_def x)
  have "(w[j := add_mat (w ! j) d'])[i := sub_mat (w[j := add_mat (w ! j) d'] ! i) d]
      = (w[i := sub_mat (w ! i) d])[j := add_mat (w[i := sub_mat (w ! i) d] ! j) d']"
    by (cases "i = j"; cases "i < length w") (simp_all add: sub_add_mat_comm list_update_swap list_update_beyond)
  then show ?case unfolding step Cons.IH by simp
qed

lemma sub_add_deltas: "deltas_fit ds w \<Longrightarrow> sub_deltas ds (add_deltas ds w) = w"
proof (induction ds arbitrary: w)
  case Nil
  then show ?case by (simp add: add_deltas_def sub_deltas_def)
next
  case (Cons x ds)
  obtain i d where x: "x = (i, d)" by fastforce
  have i: "i < length w" "same_shape d (w ! i)" using Cons.prems by (auto simp: deltas_fit_def x)
  let ?w = "w[i := add_mat (w ! i) d]"
  have "sub_deltas (x # ds) (add_deltas (x # ds) w)
      = sub_deltas ds ((add_deltas ds ?w)[i := sub_mat (add_deltas ds ?w ! i) d])"
    by (simp add: sub_deltas_def add_deltas_def x)
  also have "\<dots> = sub_deltas ds (add_deltas ds (?w[i := sub_mat (?w ! i) d]))" unfolding sub_one_add_deltas ..
  also have "?w[i := sub_mat (?w ! i) d] = w" using i by (simp add: sub_add_mat)
  finally show ?case using Cons by (simp add: deltas_fit_def x)
qed

text \<open>Captured graphs read what the swap at run time would give.\<close>

lemma bake_dual_None: "bake_dual None sc w ds = map (\<lambda>(i, d). (i, w ! i, add_mat (w ! i) d)) ds"
  by (induction ds) (auto simp: bake_dual_def)

lemma set_lora_bake:
  assumes "distinct (map fst ds)"
  shows "set_lora (bake_dual None sc w ds) w = add_deltas ds w"
proof -
  have "foldl (\<lambda>v x. v[fst x := add_mat (w ! fst x) (snd x)]) v ds = foldl (\<lambda>v x. v[fst x := add_mat (v ! fst x) (snd x)]) v ds"
    if "\<forall>x\<in>set ds. v ! fst x = w ! fst x" "distinct (map fst ds)" for v ds
    using that
  proof (induction ds arbitrary: v)
    case (Cons x ds)
    have "\<forall>y\<in>set ds. v[fst x := add_mat (w ! fst x) (snd x)] ! fst y = w ! fst y"
      using Cons.prems by (auto simp: nth_list_update image_iff)
    then show ?case using Cons by simp
  qed simp
  then show ?thesis
    using assms unfolding set_lora_def bake_dual_None add_deltas_def foldl_map by (simp add: case_prod_unfold)
qed

lemma foldl_writes:
  "\<exists>h. \<forall>v. length (foldl (\<lambda>v x. v[fst x := g x]) v ds) = length v
     \<and> (\<forall>j<length v. foldl (\<lambda>v x. v[fst x := g x]) v ds ! j = (if j \<in> fst ` set ds then h j else v ! j))"
proof (induction ds)
  case Nil
  then show ?case by simp
next
  case (Cons x ds)
  then obtain h where h: "\<And>v. length (foldl (\<lambda>v x. v[fst x := g x]) v ds) = length v
     \<and> (\<forall>j<length v. foldl (\<lambda>v x. v[fst x := g x]) v ds ! j = (if j \<in> fst ` set ds then h j else v ! j))" by blast
  show ?case
  proof (intro exI [of _ "\<lambda>j. if j \<in> fst ` set ds then h j else g x"] allI)
    fix v
    show "length (foldl (\<lambda>v x. v[fst x := g x]) v (x # ds)) = length v
      \<and> (\<forall>j<length v. foldl (\<lambda>v x. v[fst x := g x]) v (x # ds) ! j
            = (if j \<in> fst ` set (x # ds) then if j \<in> fst ` set ds then h j else g x else v ! j))"
      using h [of "v[fst x := g x]"] by (auto simp: nth_list_update)
  qed
qed

lemma set_base_bake: "set_base (bake_dual None sc w ds) (set_lora (bake_dual None sc w ds) w) = w"
proof -
  have base: "length (foldl (\<lambda>v x. v[fst x := w ! fst x]) v ds) = length v
      \<and> (\<forall>j<length v. foldl (\<lambda>v x. v[fst x := w ! fst x]) v ds ! j = (if j \<in> fst ` set ds then w ! j else v ! j))" for v ds
    by (induction ds arbitrary: v) (auto simp: nth_list_update)
  have lora: "length (foldl (\<lambda>v x. v[fst x := g x]) v ds) = length v
      \<and> (\<forall>j<length v. j \<notin> fst ` set ds \<longrightarrow> foldl (\<lambda>v x. v[fst x := g x]) v ds ! j = v ! j)"
    for v ds and g :: "nat \<times> matrix \<Rightarrow> matrix"
    by (induction ds arbitrary: v) (auto simp: nth_list_update)
  have "foldl (\<lambda>v x. v[fst x := w ! fst x]) (foldl (\<lambda>v x. v[fst x := add_mat (w ! fst x) (snd x)]) w ds) ds = w"
  proof (rule nth_equalityI)
    let ?v = "foldl (\<lambda>v x. v[fst x := add_mat (w ! fst x) (snd x)]) w ds"
    have l: "length ?v = length w \<and> (\<forall>j<length w. j \<notin> fst ` set ds \<longrightarrow> ?v ! j = w ! j)" by (rule lora)
    note b = base [of ?v ds]
    show "length (foldl (\<lambda>v x. v[fst x := w ! fst x]) ?v ds) = length w" using b l by simp
    then show "foldl (\<lambda>v x. v[fst x := w ! fst x]) ?v ds ! i = w ! i"
      if "i < length (foldl (\<lambda>v x. v[fst x := w ! fst x]) ?v ds)" for i
      using b l that by (metis (no_types, lifting))
  qed
  then show ?thesis
    unfolding set_base_def set_lora_def bake_dual_None foldl_map by (simp add: case_prod_unfold)
qed

lemma set_lora_idem: "set_lora (bake_dual None sc w ds) (set_lora (bake_dual None sc w ds) v) = set_lora (bake_dual None sc w ds) v"
proof -
  let ?F = "\<lambda>v. foldl (\<lambda>v x. v[fst x := add_mat (w ! fst x) (snd x)]) v ds"
  obtain h where h: "\<forall>v. length (?F v) = length v \<and> (\<forall>j<length v. ?F v ! j = (if j \<in> fst ` set ds then h j else v ! j))"
    using foldl_writes [where g = "\<lambda>x. add_mat (w ! fst x) (snd x)" and ds = ds] by (elim exE)
  have "?F (?F v) = ?F v"
  proof (rule nth_equalityI)
    note h1 = spec [OF h, of v] and h2 = spec [OF h, of "?F v"]
    show "length (?F (?F v)) = length (?F v)" using h2 ..
    show "?F (?F v) ! j = ?F v ! j" if "j < length (?F (?F v))" for j
      using that h1 h2 by (cases "j \<in> fst ` set ds") auto
  qed
  then show ?thesis unfolding set_lora_def bake_dual_None foldl_map by (simp add: case_prod_unfold)
qed

section \<open>Properties\<close>

lemma load_lora_fields:
  "load_lora_deltas ckpt layers a = Inr a1 \<Longrightarrow> block_size a1 = block_size a \<and> mask_id a1 = mask_id a
     \<and> seed_tokens a1 = seed_tokens a \<and> lora_mode a1 = lora_mode a \<and> graphs_baked a1 = graphs_baked a"
  by (auto simp: load_lora_deltas_def Let_def rbind_eq_Inr split: if_splits)

text \<open>The weights the verify pass runs with.\<close>

definition verify_weights :: "linear_spec \<Rightarrow> weights \<Rightarrow> weights" where
  "verify_weights a w =
     (if need_swap a \<and> lora_mode a \<noteq> ''draft_only'' then add_deltas (get_or (lora_deltas a) []) w else w)"

lemma ls_draft_props:
  assumes "causal_model n e lg" and "deltas_fit (get_or (lora_deltas (ls_alg st)) []) (ls_weights st)"
  shows "length (ls_ids (ls_draft e st)) = length (ls_ids st)"
    and "\<forall>i<length (ls_ids st). ls_ids st ! i \<noteq> mask_id (ls_alg st) \<longrightarrow> ls_ids (ls_draft e st) ! i = ls_ids st ! i"
    and "ls_weights (ls_draft e st) = verify_weights (ls_alg st) (ls_weights st)"
    and "ls_alg (ls_draft e st) = (ls_alg st)\<lparr>ls_forward_passes := ls_forward_passes (ls_alg st) + 1\<rparr>"
proof -
  let ?a = "ls_alg st" and ?w = "if need_swap (ls_alg st) then add_deltas (get_or (lora_deltas (ls_alg st)) []) (ls_weights st) else ls_weights st"
  obtain out m where f: "ls_forward e (ls_model st) ?w False (ls_ids st) = (out, m)" by fastforce
  have len: "length (full_logits out) = length (ls_ids st)" using assms(1) f unfolding causal_model_def by (metis fst_conv)
  have ids: "ls_ids (ls_draft e st) = torch_where (mask_index (mask_id ?a) (ls_ids st)) (map (argmax_no_mask (mask_id ?a)) (full_logits out)) (ls_ids st)"
    unfolding ls_draft_def Let_def f by simp
  show "length (ls_ids (ls_draft e st)) = length (ls_ids st)" unfolding ids using len by simp
  show "\<forall>i<length (ls_ids st). ls_ids st ! i \<noteq> mask_id (ls_alg st) \<longrightarrow> ls_ids (ls_draft e st) ! i = ls_ids st ! i"
    unfolding ids using len by simp
  show "ls_weights (ls_draft e st) = verify_weights (ls_alg st) (ls_weights st)"
    unfolding ls_draft_def Let_def f verify_weights_def using sub_add_deltas [OF assms(2)] by simp
  show "ls_alg (ls_draft e st) = ?a\<lparr>ls_forward_passes := ls_forward_passes ?a + 1\<rparr>"
    unfolding ls_draft_def Let_def f by simp
qed

text \<open>What a decode run needs of the batch: whole blocks, each a prompt part and then at least one mask.\<close>

definition ls_batch_ok :: "string list \<Rightarrow> nat \<Rightarrow> 'm ls_state \<Rightarrow> bool" where
  "ls_batch_ok rids bsz st \<longleftrightarrow>
     (let n = block_size (ls_alg st); msk = mask_id (ls_alg st)
      in 0 < bsz \<and> length (ls_ids st) = bsz * n \<and> length rids = bsz \<and> distinct rids
         \<and> (\<forall>b<bsz. masked_suffix msk (block n b (ls_ids st)) \<and> msk \<in> set (block n b (ls_ids st))))"

text \<open>
  A request with the seed \<open>s\<close>: its tokens \<open>toks\<close> and its next seed are those of greedy decoding.
\<close>

definition speculates ::
  "(int list \<Rightarrow> int) \<Rightarrow> int option \<Rightarrow> int list \<Rightarrow> int \<Rightarrow> nat \<Rightarrow> int list \<Rightarrow> int option \<Rightarrow> bool" where
  "speculates f eos_id pre s n toks seed' \<longleftrightarrow>
     (\<exists>k. 1 \<le> k \<and> length pre + k \<le> n \<and> toks = cut_at_eos eos_id (greedy f pre s k)
        \<and> seed' = (if eos_id \<noteq> None \<and> Some (last toks) = eos_id then None else Some (f (pre @ greedy f pre s k))))"

lemma cut_at_eos_nonempty [simp]: "cut_at_eos eos_id ts = [] \<longleftrightarrow> ts = []"
  by (auto simp: cut_at_eos_def split: option.splits)

lemma ls_run_block:
  fixes st :: "'m ls_state" and bsz b :: nat and rids :: "string list" and a1 :: linear_spec and e :: "'m ls_env"
  defines "a \<equiv> ls_alg st"
  defines "n \<equiv> block_size a" and "msk \<equiv> mask_id a"
  defines "starts \<equiv> start_list msk n bsz (ls_ids st)"
  defines "st1 \<equiv> st\<lparr>ls_ids := inject_seeds (seed_tokens a) n rids starts bsz (ls_ids st)\<rparr>\<lparr>ls_alg := a1\<rparr>"
  assumes cm: "causal_model n e lg" and ok: "ls_batch_ok rids bsz st"
    and a1: "mask_id a1 = msk" and fit: "deltas_fit (get_or (lora_deltas a1) []) (ls_weights st)"
    and b: "b < bsz" and s: "dict_get (seed_tokens a) (rids ! b) = Some s" "s \<noteq> msk"
  defines "st2 \<equiv> ls_draft e st1" and "pre \<equiv> takeWhile (\<lambda>t. t \<noteq> msk) (block n b (ls_ids st))"
  shows "length (ls_ids st2) = bsz * n" and "starts ! b = length pre" and "length pre < n"
    and "take (length pre) (block n b (ls_ids st2)) = pre" and "block n b (ls_ids st2) ! length pre = s"
proof -
  let ?blk = "block n b (ls_ids st)" and ?b1 = "block n b (ls_ids st1)" and ?b2 = "block n b (ls_ids st2)"
  have len: "length (ls_ids st) = bsz * n"
    and blocks: "\<forall>b<bsz. masked_suffix msk (block n b (ls_ids st)) \<and> msk \<in> set (block n b (ls_ids st))"
    using ok unfolding ls_batch_ok_def Let_def a_def n_def msk_def by simp_all
  have lb: "length ?blk = n" using length_block_full [OF len b] .
  have st_b: "starts ! b = n - num_masks msk (block n b (ls_ids st))" if "b < bsz" for b
    using that by (simp add: starts_def start_list_def)
  have less: "\<forall>b<bsz. starts ! b < n"
  proof (intro allI impI)
    fix b assume b': "b < bsz"
    have "num_masks msk (block n b (ls_ids st)) \<noteq> 0" using blocks b' by simp
    moreover have "num_masks msk (block n b (ls_ids st)) \<le> n"
      using num_masks_le [of msk "block n b (ls_ids st)"] length_block_full [OF len b'] by simp
    ultimately show "starts ! b < n" using st_b [OF b'] by linarith
  qed
  have ms: "masked_suffix msk ?blk" using blocks b by blast
  note pre_take = masked_suffix_start [OF ms, unfolded lb, folded st_b [OF b]]
  show gs: "starts ! b = length pre" using pre_take(1) lb less b by (simp add: pre_def)
  show lp: "length pre < n" using less [rule_format, OF b] unfolding gs .
  have inj: "length (ls_ids st1) = bsz * n" "?b1 = ?blk[length pre := s]"
    using inject_seeds_block [OF len less b, of "seed_tokens a" rids] s(1) gs by (simp_all add: st1_def)
  have d: "length (ls_ids st2) = length (ls_ids st1)"
    "\<forall>i<length (ls_ids st1). ls_ids st1 ! i \<noteq> msk \<longrightarrow> ls_ids st2 ! i = ls_ids st1 ! i"
    using ls_draft_props(1,2) [of n e lg st1] cm fit a1 unfolding st2_def by (simp_all add: st1_def)
  show l2: "length (ls_ids st2) = bsz * n" using d(1) inj(1) by simp
  have keep: "?b2 ! i = ?b1 ! i" if "i < n" "?b1 ! i \<noteq> msk" for i
  proof -
    have "b * n + i < bsz * n" using block_bound [OF b, of n] that(1) by linarith
    then show ?thesis
      using that d inj(1) nth_block [OF b inj(1) that(1)] nth_block [OF b l2 that(1)] by simp
  qed
  have b1: "?b1 ! i = pre ! i \<and> ?b1 ! i \<noteq> msk" if "i < length pre" for i
  proof -
    have "?blk ! i = pre ! i" using pre_take(1) that lp lb gs unfolding pre_def [symmetric] by (metis nth_take)
    moreover have "pre ! i \<noteq> msk" using nth_mem [OF that] unfolding pre_def by (metis set_takeWhileD)
    ultimately show ?thesis using that inj(2) by simp
  qed
  have "?b2 ! i = pre ! i" if "i < length pre" for i using keep [of i] b1 [OF that] that lp by simp
  then show "take (length pre) ?b2 = pre"
    using lp length_block_full [OF l2 b] by (intro nth_equalityI) auto
  show "?b2 ! length pre = s" using keep [of "length pre"] inj(2) lp lb s(2) by simp
qed

text \<open>
  C15. Speculative decoding with LinearSpec is greedy decoding: on a batch of masked blocks the run
  succeeds, and for every request with a seed the tokens returned are the greedy continuation of its
  block after the seed, at least one of them and cut at the first EOS, whatever the draft pass
  proposed; the seed kept for the next block is the greedy token after them, and it is dropped
  when the request ended.
\<close>

theorem ls_run_is_greedy:
  fixes st :: "'m ls_state"
  assumes "causal_model (block_size (ls_alg st)) e lg" and "ls_batch_ok rids bsz st"
    and "load_lora_deltas (ls_ckpt e) (ls_layers e) (ls_alg st) = Inr a1"
    and "deltas_fit (get_or (lora_deltas a1) []) (ls_weights st)"
  shows "\<exists>out toks g st' m0. ls_run e eos_id rids bsz st = Inr ((Some out, toks, g), st') \<and> length toks = bsz
     \<and> (\<forall>b<bsz. \<forall>s. dict_get (seed_tokens (ls_alg st)) (rids ! b) = Some s \<and> s \<noteq> mask_id (ls_alg st) \<longrightarrow>
          speculates (\<lambda>ctx. argmax_no_mask (mask_id (ls_alg st)) (lg m0 (verify_weights a1 (ls_weights st)) b ctx)) eos_id
            (takeWhile (\<lambda>t. t \<noteq> mask_id (ls_alg st)) (block (block_size (ls_alg st)) b (ls_ids st))) s
            (block_size (ls_alg st)) (toks ! b) (dict_get (seed_tokens (ls_alg st')) (rids ! b)))"
proof -
  define a n msk where "a = ls_alg st" and "n = block_size a" and "msk = mask_id a"
  define starts where "starts = start_list msk n bsz (ls_ids st)"
  define st1 where "st1 = st\<lparr>ls_ids := inject_seeds (seed_tokens a) n rids starts bsz (ls_ids st)\<rparr>\<lparr>ls_alg := a1\<rparr>"
  define st2 where "st2 = ls_draft e st1"
  obtain out m3 where f: "ls_forward e (ls_model st2) (ls_weights st2) True (ls_ids st2) = (out, m3)" by fastforce
  define ar_all where "ar_all = map (argmax_no_mask msk) (full_logits out)"
  define accs where "accs = map (\<lambda>b. accept_block n eos_id b (starts ! b) (ls_ids st2) ar_all) [0..<bsz]"
  note defs = a_def n_def msk_def
  have cm: "causal_model n e lg" using assms(1) by (simp add: defs)
  have ok: "0 < bsz" "length (ls_ids st) = bsz * n" "length rids = bsz" "distinct rids"
    "\<forall>b<bsz. msk \<in> set (block n b (ls_ids st))"
    using assms(2) unfolding ls_batch_ok_def Let_def defs by simp_all
  have mem: "msk \<in> set (ls_ids st)" using ok(5) [rule_format, OF ok(1)] by (rule block_in_set)
  have a1: "block_size a1 = n" "mask_id a1 = msk" "seed_tokens a1 = seed_tokens a"
    using load_lora_fields [OF assms(3)] by (simp_all add: defs)
  have d: "ls_alg st2 = a1\<lparr>ls_forward_passes := ls_forward_passes a1 + 1\<rparr>"
    "ls_weights st2 = verify_weights a1 (ls_weights st)"
    using ls_draft_props(3,4) [OF cm, of st1] assms(4) unfolding st2_def by (simp_all add: st1_def)
  define v where "v = snd (ls_verify e st2)"
  have v: "ls_verify e st2 = ((out, ar_all), v)" "ls_ids v = ls_ids st2" "seed_tokens (ls_alg v) = seed_tokens a"
    unfolding v_def ls_verify_def Let_def f ar_all_def using d(1) a1 by simp_all
  define st' where "st' = v\<lparr>ls_alg := (ls_alg v)\<lparr>seed_tokens := update_seeds n eos_id rids starts ar_all accs bsz (seed_tokens a)\<rparr>\<rparr>"
  have run: "ls_run e eos_id rids bsz st = Inr ((Some out, map fst accs, can_run_graph out), st')"
    using mem ok(3) assms(3) v
    unfolding ls_run_def Let_def a_def [symmetric] n_def [symmetric] msk_def [symmetric] starts_def [symmetric]
    by (simp del: map_map add: st1_def [symmetric] st2_def [symmetric] accs_def [symmetric] st'_def [symmetric])
  have "speculates (\<lambda>ctx. argmax_no_mask msk (lg (ls_model st2) (ls_weights st2) b ctx)) eos_id
      (takeWhile (\<lambda>t. t \<noteq> msk) (block n b (ls_ids st))) s n (map fst accs ! b) (dict_get (seed_tokens (ls_alg st')) (rids ! b))"
    if b: "b < bsz" and s: "dict_get (seed_tokens a) (rids ! b) = Some s" "s \<noteq> msk" for b s
  proof -
    let ?f = "\<lambda>ctx. argmax_no_mask msk (lg (ls_model st2) (ls_weights st2) b ctx)"
    let ?pre = "takeWhile (\<lambda>t. t \<noteq> msk) (block n b (ls_ids st))"
    note B = ls_run_block [of st e lg rids bsz a1 b s, folded a_def, folded n_def msk_def, folded starts_def,
        folded st1_def, folded st2_def, OF cm assms(2) a1(2) assms(4) b s]
    have l: "length ar_all = bsz * n" using cm f B(1) unfolding causal_model_def ar_all_def by (metis fst_conv length_map)
    have ar: "\<forall>i<n. ar_all ! (b * n + i) = ?f (take (Suc i) (block n b (ls_ids st2)))"
    proof (intro allI impI)
      fix i assume i: "i < n"
      then have bi: "b * n + i < bsz * n" using block_bound [OF b, of n] by linarith
      then have "full_logits out ! (b * n + i) = lg (ls_model st2) (ls_weights st2) b (take (Suc i) (block n b (ls_ids st2)))"
        using cm f B(1) i unfolding causal_model_def by (metis fst_conv)
      then show "ar_all ! (b * n + i) = ?f (take (Suc i) (block n b (ls_ids st2)))" using bi l by (simp add: ar_all_def)
    qed
    let ?c = "snd (accept_block n eos_id b (length ?pre) (ls_ids st2) ar_all)"
    note A = accept_block_greedy [OF B(1) l b B(3) ar, of eos_id, unfolded B(4,5)]
    have acc: "accs ! b = accept_block n eos_id b (length ?pre) (ls_ids st2) ar_all" using b B(2) by (simp add: accs_def)
    have toks: "fst (accs ! b) = cut_at_eos eos_id (greedy ?f ?pre s (Suc ?c))" unfolding acc by (rule A(2))
    moreover have "dict_get (seed_tokens (ls_alg st')) (rids ! b) =
        (if eos_id \<noteq> None \<and> Some (last (fst (accs ! b))) = eos_id then None else Some (?f (?pre @ greedy ?f ?pre s (Suc ?c))))"
    proof -
      have "fst (accs ! b) \<noteq> []" unfolding toks by simp
      moreover have "next_seed n b (starts ! b) (snd (accs ! b)) ar_all = ?f (?pre @ greedy ?f ?pre s (Suc ?c))"
        unfolding acc B(2) by (rule A(3))
      moreover have "dict_get (seed_tokens (ls_alg st')) (rids ! b) = dict_get (update_seeds n eos_id rids starts ar_all accs bsz (seed_tokens a)) (rids ! b)"
        by (simp add: st'_def)
      moreover have "distinct (take bsz rids)" "bsz \<le> length rids" using ok(3,4) by simp_all
      ultimately show ?thesis using update_seeds_get [OF _ _ b] by (simp only: Let_def simp_thms)
    qed
    moreover have "length ?pre + Suc ?c \<le> n" using A(1) B(3) by linarith
    ultimately show ?thesis
      unfolding speculates_def using b by (intro exI [of _ "Suc ?c"]) (simp add: accs_def)
  qed
  then show ?thesis
    using run d(2) unfolding defs [symmetric] by (intro exI [of _ out] exI [of _ "map fst accs"] exI [of _ "can_run_graph out"]
        exI [of _ st'] exI [of _ "ls_model st2"]) (simp add: accs_def defs)
qed



section \<open>A concrete model\<close>

definition demo_next :: "int \<Rightarrow> rat list" where
  "demo_next t = (if t = 0 then [0, 1, 2] else [1, 0, 2])"

definition demo_ckpt :: lora_ckpt where
  "demo_ckpt = \<lparr>lora_r = 2, lora_alpha = 4,
     lora_items = [(''model.layers.0.self_attn.o_proj.lora_A.weight'', [[1]]),
                   (''model.layers.0.self_attn.o_proj.lora_B.weight'', [[3]]),
                   (''model.layers.0.mlp.up_proj.lora_A.weight'', [[1]])]\<rparr>"

definition demo_ls_env :: "nat ls_env" where
  "demo_ls_env = \<lparr>ls_forward = (\<lambda>m w c ids. (\<lparr>next_token_logits = None, full_logits = map demo_next ids, can_run_graph = c\<rparr>, Suc m)),
     ls_ckpt = demo_ckpt, ls_layers = [\<lparr>qkv_weight = 0, o_weight = 1\<rparr>]\<rparr>"

definition demo_ls :: linear_spec where
  "demo_ls = \<lparr>block_size = 3, mask_id = 2, ls_causal_context = True, seed_tokens = [(''r0'', 1)], lora_path = Some ''adapter'',
     lora_mode = ''draft_only'', lora_deltas = None, dual_weights = None, graphs_baked = False, ls_forward_passes = 0\<rparr>"

definition demo_ls_state :: "nat ls_state" where
  "demo_ls_state = \<lparr>ls_alg = demo_ls, ls_ids = [0, 2, 2], ls_weights = [[[7]], [[5]]], ls_model = 0\<rparr>"

lemma demo_causal: "causal_model n demo_ls_env (\<lambda>m w b ctx. demo_next (last ctx))"
proof -
  have "last (take (Suc i) (block n b ids)) = ids ! (b * n + i)" if "b * n + i < length ids" "i < n" for b i and ids :: "int list"
  proof -
    have "i < length (block n b ids)" using that by (simp add: block_def)
    then show ?thesis using that by (simp add: take_Suc_conv_app_nth block_def)
  qed
  then show ?thesis by (simp add: causal_model_def demo_ls_env_def)
qed

lemma demo_load:
  "load_lora_deltas (ls_ckpt demo_ls_env) (ls_layers demo_ls_env) (ls_alg demo_ls_state) = Inr (demo_ls\<lparr>lora_deltas := Some [(1, [[6]])]\<rparr>)"
  by code_simp

lemma demo_fit: "deltas_fit (get_or (lora_deltas (demo_ls\<lparr>lora_deltas := Some [(1, [[6]])]\<rparr>)) []) (ls_weights demo_ls_state)"
  by (simp add: deltas_fit_def same_shape_def get_or_def demo_ls_state_def)

lemma demo_ls_batch: "ls_batch_ok [''r0''] 1 demo_ls_state"
  by (simp add: ls_batch_ok_def demo_ls_state_def demo_ls_def block_def masked_suffix_def num_masks_def)

theorem ls_run_is_greedy_witness:
  "\<exists>out toks g st'. ls_run demo_ls_env (Some 9) [''r0''] 1 demo_ls_state = Inr ((Some out, toks, g), st')
     \<and> speculates (\<lambda>ctx. argmax_no_mask 2 (demo_next (last ctx))) (Some 9) [0] 1 3 (toks ! 0)
         (dict_get (seed_tokens (ls_alg st')) ''r0'')"
  using ls_run_is_greedy [OF demo_causal demo_ls_batch demo_load demo_fit, of "Some 9"]
  by (force simp: demo_ls_state_def demo_ls_def block_def)



section \<open>Findings\<close>

text \<open>
  \<open>lora_mode\<close> is not validated. With any other string the deltas are added before the draft pass and
  never taken back, so they pile up from block to block.
\<close>

lemma unknown_lora_mode_keeps_deltas:
  "\<exists>res st'. ls_run demo_ls_env None [''r0''] 1 (demo_ls_state\<lparr>ls_alg := demo_ls\<lparr>lora_mode := ''draft'', lora_deltas := Some [(1, [[6]])]\<rparr>\<rparr>)
     = Inr (res, st') \<and> ls_weights st' = [[[7]], [[11]]]"
  by (simp add: ls_run_def load_lora_deltas_def ls_draft_def ls_verify_def need_swap_def Let_def case_prod_unfold)
    (simp add: demo_ls_state_def demo_ls_def add_deltas_def add_mat_def get_or_def)

text \<open>
  Capturing the graphs frees the deltas, but the next decode run loads the checkpoint again, since
  \<open>_load_lora_deltas\<close> only tests whether the deltas are there.
\<close>

lemma baked_deltas_reloaded:
  assumes "lora_path a \<noteq> None" and "load_lora_deltas ckpt layers (a\<lparr>lora_deltas := None\<rparr>) = Inr a1"
  shows "\<exists>ds. load_lora_deltas ckpt layers (fst (bake_dual_weights_into_graphs fz sc True w a))
     = Inr ((fst (bake_dual_weights_into_graphs fz sc True w a))\<lparr>lora_deltas := Some ds\<rparr>)"
  using assms by (auto simp: bake_dual_weights_into_graphs_def load_lora_deltas_def Let_def rbind_def split: sum.splits if_splits)

text \<open>
  A request whose block has no mask but which has a seed overwrites the first token of the next
  request's block.
\<close>

lemma seed_spills_into_next_block: "inject_seeds [(''r0'', 5)] 2 [''r0'', ''r1''] (start_list 9 2 2 [1, 2, 3, 9]) 2 [1, 2, 3, 9] = [1, 2, 5, 9]"
  by code_simp

end
