(* ===== verification/Tidar_Inputs.thy ===== *)
theory Tidar_Inputs
  imports KV_Pool Low_Confidence
begin

text \<open>
  The inputs of a TiDAR quadratic decode step: \<open>dllm/algorithm/tidar_utils.py\<close> (positions, draft
  tokens and attention masks, the reference builder), \<open>tidar_kernels.py\<close> (the builder that writes into
  pre-allocated buffers, and the stochastic verification kernel) and \<open>tidar_input.py\<close> (the attention
  arguments). A step has \<open>B = n * (n + 1)\<close> queries for a block size \<open>n\<close>: one causal block of \<open>n\<close> draft
  tokens, then \<open>n\<close> blocks of \<open>n\<close> masks. A two-dimensional tensor is the list of its rows, and a view
  of a flat buffer with rows of \<open>k\<close> elements is addressed by row offsets \<open>r * k\<close>.
\<close>

section \<open>tidar_utils.py\<close>

text \<open>\<open>m[r0:r1, c0:c1] = f\<close>.\<close>

definition fill_rect :: "nat \<Rightarrow> nat \<Rightarrow> nat \<Rightarrow> nat \<Rightarrow> (nat \<Rightarrow> nat \<Rightarrow> 'a) \<Rightarrow> 'a list list \<Rightarrow> 'a list list" where
  "fill_rect r0 r1 c0 c1 f m =
     map (\<lambda>r. map (\<lambda>c. if r0 \<le> r \<and> r < r1 \<and> c0 \<le> c \<and> c < c1 then f r c else m ! r ! c)
                 [0..<length (m ! r)]) [0..<length m]"

text \<open>The causal rows, then one diffusion block at a time.\<close>

definition draft_mask_causal :: "nat \<Rightarrow> bool list list" where
  "draft_mask_causal n =
     (let B = n * (n + 1) in fill_rect 0 n 0 n (\<lambda>r c. c \<le> r) (replicate B (replicate B False)))"

definition draft_mask_block :: "nat \<Rightarrow> bool list list \<Rightarrow> nat \<Rightarrow> bool list list" where
  "draft_mask_block n m j =
     (let row_start = j * n; row_end = (j + 1) * n
      in fill_rect row_start row_end 0 j (\<lambda>_ _. True)
           (fill_rect row_start row_end row_start row_end (\<lambda>_ _. True) m))"

definition build_tidar_draft_mask :: "nat \<Rightarrow> bool list list" where
  "build_tidar_draft_mask n = foldl (draft_mask_block n) (draft_mask_causal n) [1..<n + 1]"

definition build_tidar_position_offsets :: "nat \<Rightarrow> int list" where
  "build_tidar_position_offsets n =
     concat (map (\<lambda>j. take n (map (\<lambda>k. int k + int j) [0..<n + 1])) [0..<n + 1])"

text \<open>\<open>torch.repeat_interleave(xs, k) + offsets.repeat(len(xs))\<close>.\<close>

definition interleave_add :: "int list \<Rightarrow> int list \<Rightarrow> int list" where
  "interleave_add xs offsets = concat (map (\<lambda>x. map (\<lambda>d. x + d) offsets) xs)"

definition build_tidar_positions_and_mask_prefill ::
  "int list \<Rightarrow> nat \<Rightarrow> int \<Rightarrow> int list \<times> int list \<times> bool list" where
  "build_tidar_positions_and_mask_prefill seq_lens n mask_token_id =
     (let bs = length seq_lens;
          positions = interleave_add seq_lens (map int [0..<n]);
          draft_tokens = replicate (bs * n) mask_token_id;
          total_mask_len = int n * sum_list seq_lens + int (bs * n * n)
      in (draft_tokens, positions, replicate (nat total_mask_len) True))"

definition build_tidar_positions_and_mask_decode ::
  "nat list \<Rightarrow> nat \<Rightarrow> int list \<Rightarrow> int \<Rightarrow> bool list list option \<Rightarrow> int list option \<Rightarrow> int list option
    \<Rightarrow> int list \<times> int list \<times> bool list" where
  "build_tidar_positions_and_mask_decode seq_lens n prev_draft_tokens mask_token_id
     cached_draft_mask cached_offsets cached_mask_tokens =
     (let bs = length seq_lens; B = n * (n + 1);
          offsets = (case cached_offsets of Some os \<Rightarrow> os | None \<Rightarrow> build_tidar_position_offsets n);
          positions = interleave_add (map int seq_lens) offsets;
          masks = (case cached_mask_tokens of
                     Some ms \<Rightarrow> if bs = 1 then ms else replicate (n * n) mask_token_id
                   | None \<Rightarrow> replicate (n * n) mask_token_id);
          draft_token = concat (map (\<lambda>b. block n b prev_draft_tokens @ masks) [0..<bs]);
          dm = (case cached_draft_mask of Some d \<Rightarrow> d | None \<Rightarrow> build_tidar_draft_mask n);
          custom_mask = concat (map (\<lambda>prefix_len.
                          concat (map2 (@) (replicate B (replicate prefix_len True)) dm)) seq_lens)
      in (draft_token, positions, custom_mask))"

section \<open>tidar_kernels.py\<close>

text \<open>
  The builder on pre-allocated buffers. A slice that runs past the end of its buffer is shorter than
  the view asks for, and \<open>view\<close> raises.
\<close>

definition write_positions :: "nat \<Rightarrow> int list \<Rightarrow> int list \<Rightarrow> int list \<Rightarrow> int list" where
  "write_positions B offsets prefixes buf =
     foldl (\<lambda>buf b. put_slice (b * B) (map (\<lambda>d. d + prefixes ! b) offsets) buf) buf [0..<length prefixes]"

definition write_draft_tokens :: "nat \<Rightarrow> nat \<Rightarrow> nat \<Rightarrow> int \<Rightarrow> int list \<Rightarrow> int list \<Rightarrow> int list" where
  "write_draft_tokens bs n B mask_token_id prev_draft_tokens buf =
     foldl (\<lambda>buf b. put_slice (b * B + n) (replicate (B - n) mask_token_id)
                       (put_slice (b * B) (block n b prev_draft_tokens) buf)) buf [0..<bs]"

text \<open>The rows of one request's mask, each \<open>prefix_len + B\<close> wide.\<close>

definition write_mask_rows :: "nat \<Rightarrow> nat \<Rightarrow> nat \<Rightarrow> bool list list \<Rightarrow> bool list \<Rightarrow> bool list" where
  "write_mask_rows B offset prefix_len draft_mask buf =
     (let total_kv = prefix_len + B
      in foldl (\<lambda>buf r. put_slice (offset + r * total_kv + prefix_len) (draft_mask ! r)
                          (put_slice (offset + r * total_kv) (replicate prefix_len True) buf)) buf [0..<B])"

fun write_custom_mask :: "nat \<Rightarrow> bool list list \<Rightarrow> nat list \<Rightarrow> nat \<Rightarrow> bool list \<Rightarrow> (nat \<times> bool list) res" where
  "write_custom_mask B draft_mask [] offset buf = Inr (offset, buf)"
| "write_custom_mask B draft_mask (prefix_len # ps) offset buf =
     (let total_kv = prefix_len + B
      in if length buf < offset + B * total_kv then Inl RuntimeError
         else write_custom_mask B draft_mask ps (offset + B * total_kv) (write_mask_rows B offset prefix_len draft_mask buf))"

record tidar_pool =
  pool_positions :: "int list"
  pool_draft_tokens :: "int list"
  pool_custom_mask :: "bool list"

definition build_tidar_decode_inputs_pooled ::
  "nat list \<Rightarrow> int list \<Rightarrow> nat \<Rightarrow> nat \<Rightarrow> int \<Rightarrow> int list \<Rightarrow> int list \<Rightarrow> bool list list \<Rightarrow> tidar_pool
    \<Rightarrow> ((int list \<times> int list \<times> bool list) \<times> tidar_pool) res" where
  "build_tidar_decode_inputs_pooled seq_lens_cpu cur_prefix_gpu n B mask_token_id prev_draft_tokens
     cached_offsets cached_draft_mask pool =
     (let bs = length seq_lens_cpu
      in if length (pool_positions pool) < bs * B \<or> length (pool_draft_tokens pool) < bs * B then Inl RuntimeError
         else
           let pos = write_positions B cached_offsets (take bs cur_prefix_gpu) (pool_positions pool);
               dt = write_draft_tokens bs n B mask_token_id prev_draft_tokens (pool_draft_tokens pool)
           in rbind (write_custom_mask B cached_draft_mask seq_lens_cpu 0 (pool_custom_mask pool)) (\<lambda>(offset, cm).
                Inr ((take (bs * B) dt, take (bs * B) pos, take offset cm),
                     \<lparr>pool_positions = pos, pool_draft_tokens = dt, pool_custom_mask = cm\<rparr>)))"

text \<open>The verification kernel: one program for each request.\<close>

definition verify_step ::
  "rat list \<Rightarrow> int list \<Rightarrow> rat list \<Rightarrow> rat list \<Rightarrow> nat \<Rightarrow> nat \<Rightarrow> nat \<Rightarrow> nat \<Rightarrow> nat \<times> bool \<Rightarrow> nat \<Rightarrow> nat \<times> bool" where
  "verify_step mixed_probs prev_draft prev_probs rand_vals n vocab bid n_verify = (\<lambda>(accept_cnt, found_rejection) pos.
     if pos < n_verify \<and> \<not> found_rejection then
       let draft_idx = prev_draft ! (bid * n + pos);
           target_prob = mixed_probs ! (bid * n * vocab + (pos - 1) * vocab + nat draft_idx);
           draft_prob = prev_probs ! (bid * n + pos);
           ratio = (if draft_prob > 0 then target_prob / draft_prob else 0);
           rand_val = rand_vals ! (bid * n + pos)
       in if ratio < rand_val then (pos, True) else (accept_cnt, found_rejection)
     else (accept_cnt, found_rejection))"

definition stochastic_verify_kernel ::
  "rat list \<Rightarrow> int list \<Rightarrow> rat list \<Rightarrow> rat list \<Rightarrow> int list \<Rightarrow> bool \<Rightarrow> nat \<Rightarrow> nat \<Rightarrow> nat \<Rightarrow> int list \<Rightarrow> int list" where
  "stochastic_verify_kernel mixed_probs prev_draft prev_probs rand_vals remaining_ptr is_last_iter n vocab bid accept_cnt_out =
     (let remaining = remaining_ptr ! bid
      in if remaining \<le> 0 then accept_cnt_out[bid := 0]
         else
           let n_verify = nat (min (int n) remaining)
           in if is_last_iter then accept_cnt_out[bid := int n_verify]
              else
                let (accept_cnt, _) = foldl (verify_step mixed_probs prev_draft prev_probs rand_vals n vocab bid n_verify)
                                        (n_verify, False) [1..<n]
                in accept_cnt_out[bid := min (int accept_cnt) remaining])"

definition stochastic_verify_triton ::
  "rat list \<Rightarrow> int list \<Rightarrow> rat list \<Rightarrow> rat list \<Rightarrow> int list \<Rightarrow> bool \<Rightarrow> nat \<Rightarrow> nat \<Rightarrow> nat \<Rightarrow> int list \<Rightarrow> int list" where
  "stochastic_verify_triton mixed_probs prev_draft prev_probs rand_vals remaining is_last_iter n vocab bs accept_cnt_out =
     run_grid (stochastic_verify_kernel mixed_probs prev_draft prev_probs rand_vals remaining is_last_iter n vocab) bs accept_cnt_out"

section \<open>tidar_input.py\<close>

record tidar_input =
  ti_draft_token :: "int list"
  ti_positions :: "int list"
  ti_custom_mask :: "bool list"
  num_queries :: nat
  draft_token_num :: nat
  ti_seq_lens_cpu :: "nat list"
  ti_seq_lens_sum :: nat

definition tidar_input_init :: "int list \<Rightarrow> int list \<Rightarrow> bool list \<Rightarrow> nat \<Rightarrow> nat option \<Rightarrow> nat list \<Rightarrow> tidar_input" where
  "tidar_input_init draft positions custom_mask nq dtn seq_lens_cpu =
     \<lparr>ti_draft_token = draft, ti_positions = positions, ti_custom_mask = custom_mask, num_queries = nq,
      draft_token_num = (case dtn of None \<Rightarrow> nq | Some k \<Rightarrow> k),
      ti_seq_lens_cpu = seq_lens_cpu, ti_seq_lens_sum = sum_list seq_lens_cpu\<rparr>"

definition get_spec_adjust_token_coefficient :: "tidar_input \<Rightarrow> nat \<times> nat" where
  "get_spec_adjust_token_coefficient t = (num_queries t, num_queries t)"

text \<open>
  \<open>create_flashinfer_kv_indices_triton\<close> of \<open>layers/attention/utils.py\<close>: a program copies the slots of
  its request, in blocks of 512 lanes.
\<close>

definition KV_BLOCK :: int where
  "KV_BLOCK = 512"

definition create_flashinfer_kv_indices ::
  "int list \<Rightarrow> int list \<Rightarrow> int list \<Rightarrow> int list \<Rightarrow> int list option \<Rightarrow> int \<Rightarrow> nat \<Rightarrow> int list \<Rightarrow> int list" where
  "create_flashinfer_kv_indices req_to_token req_pool_indices page_kernel_lens kv_indptr kv_start_idx stride pid kv_indices =
     (let req_pool_index = tl_load req_pool_indices (int pid);
          kv_indices_offset = tl_load kv_indptr (int pid);
          kv_start = (case kv_start_idx of None \<Rightarrow> 0 | Some ss \<Rightarrow> tl_load ss (int pid));
          kv_end = kv_start + tl_load page_kernel_lens (int pid);
          num_loop = ceil_div (kv_end - kv_start) KV_BLOCK
      in foldl (\<lambda>out i.
           tl_store (map (\<lambda>lane.
             let offset = i * KV_BLOCK + lane
             in (kv_indices_offset + offset,
                 tl_load req_to_token (req_pool_index * stride + kv_start + offset),
                 offset < kv_end - kv_start)) [0..KV_BLOCK - 1]) out) kv_indices [0..num_loop - 1])"

definition generate_attn_arg_prefill ::
  "tidar_input \<Rightarrow> int list \<Rightarrow> int list \<Rightarrow> int list \<Rightarrow> int \<Rightarrow> int \<Rightarrow> int list \<times> int list \<times> int list \<times> bool list" where
  "generate_attn_arg_prefill t req_pool_indices lens req_to_token stride garbage =
     (let bs = length req_pool_indices;
          qo_indptr = map (\<lambda>i. int (i * num_queries t)) [0..<bs + 1];
          paged_kernel_lens = map (\<lambda>l. l + int (num_queries t)) lens;
          cum_kv_seq_len = 0 # cumsum paged_kernel_lens;
          kv_indices = run_grid (create_flashinfer_kv_indices req_to_token req_pool_indices paged_kernel_lens
                          cum_kv_seq_len None stride) bs (replicate (nat (last cum_kv_seq_len)) garbage);
          mask_numel = nat (\<Sum>b<bs. int (num_queries t) * paged_kernel_lens ! b);
          custom_mask = (if length (ti_custom_mask t) < mask_numel
                         then ti_custom_mask t @ replicate (mask_numel - length (ti_custom_mask t)) False
                         else ti_custom_mask t)
      in (kv_indices, cum_kv_seq_len, qo_indptr, custom_mask))"

end
