(* ===== verification/Tidar.thy ===== *)
theory Tidar
  imports Tidar_Inputs Linear_Spec
begin

text \<open>
  \<open>dllm/algorithm/tidar.py\<close>: self-speculation with one quadratic forward pass for each step. The
  allocator of KV slots is a parameter with the operations \<open>alloc\<close> and \<open>free\<close> of its class, in the
  record \<open>td_env\<close> with the model's forward pass and softmax; \<open>req_to_token\<close> is the flat table whose rows
  of \<open>td_pool_len\<close> entries belong to the requests. The draft probabilities, which the greedy
  verification never reads, are left out.
\<close>

section \<open>Writing slots into req_to_token\<close>

text \<open>\<open>assign_req_to_token_pool\<close> of \<open>speculative/spec_utils.py\<close>, one program for each request.\<close>

definition ASSIGN_BLOCK :: int where
  "ASSIGN_BLOCK = 32"

definition assign_req_to_token_pool ::
  "int list \<Rightarrow> int list \<Rightarrow> int list \<Rightarrow> int list \<Rightarrow> int \<Rightarrow> nat \<Rightarrow> nat \<Rightarrow> int list \<Rightarrow> int list" where
  "assign_req_to_token_pool rows start_offset end_offset out_cache pool_len bs_upper pid req_to_token =
     (let kv_start = tl_load start_offset (int pid);
          kv_end = tl_load end_offset (int pid);
          token_pool = tl_load rows (int pid) * pool_len;
          start = map (\<lambda>i. if i < pid then tl_load start_offset (int i) else 0) [0..<bs_upper];
          ends = map (\<lambda>i. if i < pid then tl_load end_offset (int i) else 0) [0..<bs_upper];
          out_offset = sum_list (map2 (-) ends start);
          num_loop = ceil_div (kv_end - kv_start) ASSIGN_BLOCK
      in foldl (\<lambda>rtt i.
           tl_store (map (\<lambda>lane.
             let load_offset = i * ASSIGN_BLOCK + lane; save_offset = load_offset + kv_start
             in (token_pool + save_offset, tl_load out_cache (out_offset + load_offset), save_offset < kv_end))
             [0..ASSIGN_BLOCK - 1]) rtt) req_to_token [0..num_loop - 1])"

definition assign_req_to_token_pool_func ::
  "int list \<Rightarrow> int list \<Rightarrow> int list \<Rightarrow> int list \<Rightarrow> int \<Rightarrow> nat \<Rightarrow> int list \<Rightarrow> int list" where
  "assign_req_to_token_pool_func rows start_offset end_offset out_cache pool_len bs req_to_token =
     run_grid (assign_req_to_token_pool rows start_offset end_offset out_cache pool_len (next_power_of_2 bs)) bs req_to_token"

section \<open>The algorithm object\<close>

record tidar = dllm_alg +
  ar_mix_weight :: "rat option"
  accept_all :: bool
  max_quad_iters :: nat
  td_causal_context :: bool
  td_pool :: tidar_pool
  pool_max_bs :: nat
  td_forward_passes :: nat
  td_cg_forwards :: nat
  td_eager_forwards :: nat

definition tidar_init :: "dllm_config \<Rightarrow> rat option \<Rightarrow> bool option \<Rightarrow> nat option \<Rightarrow> tidar" where
  "tidar_init config cfg_mix cfg_accept_all cfg_iters =
     \<lparr>block_size = dc_block_size config, mask_id = dc_mask_id config, ar_mix_weight = cfg_mix,
      accept_all = get_or cfg_accept_all False, max_quad_iters = get_or cfg_iters (dc_block_size config),
      td_causal_context = causal_context config,
      td_pool = \<lparr>pool_positions = [], pool_draft_tokens = [], pool_custom_mask = []\<rparr>,
      pool_max_bs = 0, td_forward_passes = 0, td_cg_forwards = 0, td_eager_forwards = 0\<rparr>"

text \<open>\<open>torch.empty\<close> buffers: their contents are the parameters \<open>gi\<close> and \<open>gb\<close>.\<close>

definition init_pool :: "int \<Rightarrow> bool \<Rightarrow> nat \<Rightarrow> nat \<Rightarrow> tidar \<Rightarrow> tidar" where
  "init_pool gi gb max_bs B a =
     (let max_prefix = 8192; max_mask_per_req = B * (max_prefix + B)
      in a\<lparr>td_pool := \<lparr>pool_positions = replicate (max_bs * B) gi, pool_draft_tokens = replicate (max_bs * B) gi,
                        pool_custom_mask = replicate (max_bs * max_mask_per_req) gb\<rparr>,
           pool_max_bs := max_bs\<rparr>)"

section \<open>The run\<close>

record td_batch =
  tb_mode :: forward_mode
  tb_input_ids :: "int list"
  tb_positions :: "int list"
  tb_out_cache_loc :: "int list"
  tb_seq_lens :: "nat list"
  tb_spec_info :: "tidar_input option"

record ('s, 'm) td_env =
  td_forward :: "'m \<Rightarrow> td_batch \<Rightarrow> (logits \<times> bool) \<times> 'm"
  td_softmax :: "rat list \<Rightarrow> rat list"
  td_alloc :: "nat \<Rightarrow> 's \<Rightarrow> (int list option \<times> 's) res"
  td_free :: "int list \<Rightarrow> 's \<Rightarrow> 's res"
  td_pool_len :: nat
  td_rows :: "int list"

record ('s, 'm) td_state =
  td_alg :: tidar
  td_kv :: 's
  td_model :: 'm
  td_rtt :: "int list"
  td_committed :: "int list list"
  td_found_eos :: "bool list"
  td_prefix :: "nat list"
  td_draft :: "int list"
  td_logits :: logits

text \<open>Greedy tokens of the verification: causal logits, or their mix with the diffusion logits.\<close>

definition mix_rows :: "rat \<Rightarrow> rat list \<Rightarrow> rat list \<Rightarrow> rat list" where
  "mix_rows w ar df = map2 (\<lambda>x y. x * w + y * (1 - w)) ar df"

definition target_argmax :: "tidar \<Rightarrow> logits \<Rightarrow> nat \<Rightarrow> nat \<Rightarrow> int" where
  "target_argmax a l b k =
     (let n = block_size a; B = n * (n + 1);
          ar = l ! (b * B + k);
          diff = l ! (b * B + (k + 1) * n)
      in int (argmax (case ar_mix_weight a of None \<Rightarrow> ar | Some w \<Rightarrow> mix_rows w ar diff)))"

text \<open>The number of accepted tokens of request \<open>b\<close>, which still needs \<open>r\<close> tokens.\<close>

definition accept_count :: "nat \<Rightarrow> int \<Rightarrow> int list \<Rightarrow> int list \<Rightarrow> nat" where
  "accept_count n r targets prev_draft =
     (if r \<le> 0 then 0
      else
        let n_verify = nat (min (int n) r);
            matches = map2 (=) (take (n_verify - 1) targets) (take (n_verify - 1) (drop 1 prev_draft))
        in if False \<in> set matches then 1 + length (takeWhile (\<lambda>b. b) matches) else n_verify)"

definition td_remaining :: "nat \<Rightarrow> ('s, 'm) td_state \<Rightarrow> nat \<Rightarrow> int" where
  "td_remaining n st b = (if td_found_eos st ! b then 0 else int n - int (length (td_committed st ! b)))"

text \<open>Post-processing of one request: keep the accepted slots, free the others, take the new draft.\<close>

definition td_post ::
  "('s, 'm) td_env \<Rightarrow> int option \<Rightarrow> int list \<Rightarrow> logits \<Rightarrow> nat list \<Rightarrow> ('s, 'm) td_state \<Rightarrow> nat \<Rightarrow> ('s, 'm) td_state res" where
  "td_post e eos_id out_cache l accept_cnts st b =
     (let a = td_alg st; n = block_size a; B = n * (n + 1);
          accept_cnt = accept_cnts ! b;
          slots = block B b out_cache
      in if accept_cnt = 0 then
           rbind (td_free e slots (td_kv st)) (\<lambda>s. Inr (st\<lparr>td_kv := s\<rparr>))
         else
           let select_draft_idx = min accept_cnt n;
               accepted = take accept_cnt (block n b (td_draft st));
               eos_hit = (case eos_id of Some x \<Rightarrow> x \<in> set accepted | None \<Rightarrow> False);
               accepted = cut_at_eos eos_id accepted;
               accept_cnt = (if eos_hit then length accepted else accept_cnt);
               st = st\<lparr>td_found_eos := (if eos_hit then (td_found_eos st)[b := True] else td_found_eos st),
                       td_committed := (td_committed st)[b := td_committed st ! b @ accepted]\<rparr>
           in rbind (if accept_cnt < B then td_free e (drop accept_cnt slots) (td_kv st) else Inr (td_kv st)) (\<lambda>s.
                let st = st\<lparr>td_kv := s, td_prefix := (td_prefix st)[b := td_prefix st ! b + accept_cnt]\<rparr>
                in Inr (if select_draft_idx < n + 1
                        then let block_logits = take n (drop (b * B + select_draft_idx * n) l);
                                 new_draft = map (\<lambda>row. int (argmax (td_softmax e row))) block_logits
                             in st\<lparr>td_draft := put_slice (b * n) new_draft (td_draft st)\<rparr>
                        else st)))"

fun td_posts ::
  "('s, 'm) td_env \<Rightarrow> int option \<Rightarrow> int list \<Rightarrow> logits \<Rightarrow> nat list \<Rightarrow> nat list \<Rightarrow> ('s, 'm) td_state \<Rightarrow> ('s, 'm) td_state res" where
  "td_posts e eos_id out_cache l accept_cnts [] st = Inr st"
| "td_posts e eos_id out_cache l accept_cnts (b # bs) st =
     rbind (td_post e eos_id out_cache l accept_cnts st b) (\<lambda>st. td_posts e eos_id out_cache l accept_cnts bs st)"

text \<open>One quadratic step; the flag tells that the slots ran out and the loop is left.\<close>

definition td_step ::
  "('s, 'm) td_env \<Rightarrow> int option \<Rightarrow> ('s, 'm) td_state \<Rightarrow> (bool \<times> ('s, 'm) td_state) res" where
  "td_step e eos_id st =
     (let a = td_alg st; n = block_size a; B = n * (n + 1); bs = length (td_prefix st)
      in rbind (build_tidar_decode_inputs_pooled (td_prefix st) (map int (td_prefix st)) n B (mask_id a) (td_draft st)
                  (build_tidar_position_offsets n) (build_tidar_draft_mask n) (td_pool a)) (\<lambda>((draft, positions, custom_mask), pool).
           let st = st\<lparr>td_alg := a\<lparr>td_pool := pool\<rparr>\<rparr>
           in rbind (td_alloc e (B * bs) (td_kv st)) (\<lambda>(slots, s).
                let st = st\<lparr>td_kv := s\<rparr>
                in case slots of
                     None \<Rightarrow> Inr (True, st)
                   | Some out_cache \<Rightarrow>
                       let rtt = assign_req_to_token_pool_func (td_rows e) (map int (td_prefix st))
                                   (map (\<lambda>p. int (p + B)) (td_prefix st)) out_cache (int (td_pool_len e)) bs (td_rtt st);
                           spec = tidar_input_init draft positions custom_mask B None (td_prefix st);
                           fb = \<lparr>tb_mode = TARGET_VERIFY, tb_input_ids = draft, tb_positions = positions,
                                 tb_out_cache_loc = out_cache, tb_seq_lens = td_prefix st, tb_spec_info = Some spec\<rparr>;
                           ((l, g), m) = td_forward e (td_model st) fb;
                           a = td_alg st;
                           a = a\<lparr>td_forward_passes := td_forward_passes a + 1,
                                 td_cg_forwards := (if g then td_cg_forwards a + 1 else td_cg_forwards a),
                                 td_eager_forwards := (if g then td_eager_forwards a else td_eager_forwards a + 1)\<rparr>;
                           st = st\<lparr>td_alg := a, td_rtt := rtt, td_model := m, td_logits := l\<rparr>;
                           l = take (bs * B) l;
                           accept_cnts = map (\<lambda>b. accept_count n (td_remaining n st b)
                                           (map (target_argmax a l b) [0..<n]) (block n b (td_draft st))) [0..<bs]
                       in rbind (td_posts e eos_id out_cache l accept_cnts [0..<bs] st) (\<lambda>st. Inr (False, st)))))"

fun td_loop :: "('s, 'm) td_env \<Rightarrow> int option \<Rightarrow> nat \<Rightarrow> ('s, 'm) td_state \<Rightarrow> ('s, 'm) td_state res" where
  "td_loop e eos_id 0 st = Inr st"
| "td_loop e eos_id (Suc k) st =
     (if \<forall>c\<in>set (td_committed st). block_size (td_alg st) \<le> length c then Inr st
      else rbind (td_step e eos_id st) (\<lambda>(oom, st). if oom then Inr st else td_loop e eos_id k st))"

record td_input =
  in_ids :: "int list"
  in_positions :: "int list"
  in_out_cache_loc :: "int list"
  in_seq_lens :: "nat list"
  in_prefix_lens :: "nat list"

definition td_extend_batch :: "td_input \<Rightarrow> td_batch" where
  "td_extend_batch x = \<lparr>tb_mode = DLLM_EXTEND, tb_input_ids = in_ids x, tb_positions = in_positions x,
     tb_out_cache_loc = in_out_cache_loc x, tb_seq_lens = in_seq_lens x, tb_spec_info = None\<rparr>"

definition td_run ::
  "('s, 'm) td_env \<Rightarrow> int option \<Rightarrow> int \<Rightarrow> bool \<Rightarrow> td_input \<Rightarrow> tidar \<Rightarrow> 's \<Rightarrow> int list \<Rightarrow> 'm
    \<Rightarrow> ((logits option \<times> int list list \<times> bool) \<times> ('s, 'm) td_state) res" where
  "td_run e eos_id gi gb x a kv rtt m =
     (let bs = length (in_prefix_lens x); n = block_size a; B = n * (n + 1);
          a = (if bs > pool_max_bs a then init_pool gi gb bs B a else a);
          st = \<lparr>td_alg = a, td_kv = kv, td_model = m, td_rtt = rtt, td_committed = replicate bs [],
                td_found_eos = replicate bs False, td_prefix = in_prefix_lens x, td_draft = [], td_logits = []\<rparr>
      in if True \<notin> set (mask_index (mask_id a) (in_ids x)) then
           if in_ids x = [] then Inr ((None, [], False), st)
           else let ((l, g), m) = td_forward e m (td_extend_batch x) in Inr ((Some l, [], g), st\<lparr>td_model := m\<rparr>)
         else
           let ((l, g), m) = td_forward e m (td_extend_batch x);
               a = a\<lparr>td_forward_passes := td_forward_passes a + 1\<rparr>;
               draft = map (\<lambda>row. int (argmax (neg_inf_at (mask_id a) (map Some row)))) l
           in rbind (td_free e (in_out_cache_loc x) kv) (\<lambda>kv.
                rbind (td_loop e eos_id (max_quad_iters a)
                         (st\<lparr>td_alg := a, td_kv := kv, td_model := m, td_draft := draft, td_logits := l\<rparr>)) (\<lambda>st.
                  Inr ((Some (td_logits st), td_committed st, False), st))))"

end
