(* ===== verification/Tidar_Inputs_Correct.thy ===== *)
theory Tidar_Inputs_Correct
  imports Tidar_Inputs
begin

text \<open>
  The shape of the TiDAR attention mask and positions, the builder on pooled buffers against the
  reference builder, the verification kernel against its specification, and the attention arguments.
\<close>

section \<open>The draft mask and the positions\<close>

lemma fill_rect_shape [simp]:
  "length (fill_rect r0 r1 c0 c1 f m) = length m"
  "r < length m \<Longrightarrow> length (fill_rect r0 r1 c0 c1 f m ! r) = length (m ! r)"
  by (simp_all add: fill_rect_def)

lemma nth_fill_rect [simp]:
  "r < length m \<Longrightarrow> c < length (m ! r) \<Longrightarrow>
   fill_rect r0 r1 c0 c1 f m ! r ! c = (if r0 \<le> r \<and> r < r1 \<and> c0 \<le> c \<and> c < c1 then f r c else m ! r ! c)"
  by (simp add: fill_rect_def)

definition tidar_attends :: "nat \<Rightarrow> nat \<Rightarrow> nat \<Rightarrow> bool" where
  "tidar_attends n r c \<longleftrightarrow> (if r div n = 0 then c \<le> r else c < r div n \<or> c div n = r div n)"

lemma div_between: "0 < n \<Longrightarrow> j * n \<le> r \<and> r < (j + 1) * n \<longleftrightarrow> r div n = (j::nat)"
  by (metis Suc_eq_plus1 div_nat_eqI dividend_less_times_div le_refl less_mult_imp_div_less mult.commute mult_Suc_right
      times_div_less_eq_dividend)

lemma draft_mask_steps:
  assumes n: "0 < n" and k: "k \<le> n"
  defines "B \<equiv> n * (n + 1)"
  shows "length (foldl (draft_mask_block n) (draft_mask_causal n) [1..<k + 1]) = B
     \<and> (\<forall>r<B. length (foldl (draft_mask_block n) (draft_mask_causal n) [1..<k + 1] ! r) = B
     \<and> (\<forall>c<B. foldl (draft_mask_block n) (draft_mask_causal n) [1..<k + 1] ! r ! c
          \<longleftrightarrow> (if r div n = 0 then c \<le> r else r div n \<le> k \<and> (c < r div n \<or> c div n = r div n))))"
  using k
proof (induction k)
  case 0
  have "c < n" if "c \<le> r" "r div n = 0" for c r using that n by (simp add: div_eq_0_iff)
  then show ?case using n unfolding draft_mask_causal_def Let_def B_def [symmetric] by (auto simp: div_eq_0_iff)
next
  case (Suc k)
  define M where "M = foldl (draft_mask_block n) (draft_mask_causal n) [1..<k + 1]"
  let ?j = "k + 1"
  have ih: "length M = B" "\<And>r. r < B \<Longrightarrow> length (M ! r) = B"
    "\<And>r c. r < B \<Longrightarrow> c < B \<Longrightarrow> M ! r ! c \<longleftrightarrow> (if r div n = 0 then c \<le> r else r div n \<le> k \<and> (c < r div n \<or> c div n = r div n))"
    using Suc.IH Suc.prems unfolding M_def by simp_all
  have M': "foldl (draft_mask_block n) (draft_mask_causal n) [1..<Suc k + 1] = draft_mask_block n M ?j"
    by (simp add: M_def)
  have nth: "draft_mask_block n M ?j ! r ! c \<longleftrightarrow> r div n = ?j \<and> (c < ?j \<or> c div n = ?j) \<or> M ! r ! c" if "r < B" "c < B" for r c
  proof -
    note rc = div_between [OF n, of ?j r] div_between [OF n, of ?j c]
    have l: "r < length M" "c < length (M ! r)" using that ih by simp_all
    have "draft_mask_block n M ?j ! r ! c
        \<longleftrightarrow> (?j * n \<le> r \<and> r < (?j + 1) * n) \<and> (c < ?j \<or> ?j * n \<le> c \<and> c < (?j + 1) * n) \<or> M ! r ! c"
      unfolding draft_mask_block_def Let_def using l by (auto simp del: mult_Suc)
    then show ?thesis unfolding rc .
  qed
  show ?case unfolding M'
  proof (intro conjI allI impI)
    show "length (draft_mask_block n M ?j) = B" "\<And>r. r < B \<Longrightarrow> length (draft_mask_block n M ?j ! r) = B"
      using ih by (simp_all add: draft_mask_block_def Let_def)
    fix r c assume "r < B" "c < B"
    then show "draft_mask_block n M ?j ! r ! c \<longleftrightarrow> (if r div n = 0 then c \<le> r else r div n \<le> Suc k \<and> (c < r div n \<or> c div n = r div n))"
      using nth ih(3) by auto
  qed
qed

lemma build_tidar_draft_mask_shape:
  assumes "0 < n"
  shows "length (build_tidar_draft_mask n) = n * (n + 1)" "r < n * (n + 1) \<Longrightarrow> length (build_tidar_draft_mask n ! r) = n * (n + 1)"
  using draft_mask_steps [OF assms order_refl] unfolding build_tidar_draft_mask_def by blast+

text \<open>
  C20. The draft mask of a quadratic step is the intended one: a causal query attends to the causal
  queries up to itself and to nothing else, and a query of the \<open>j\<close>-th diffusion block attends to its
  own block and to the first \<open>j\<close> causal queries. In particular no query sees another diffusion block.
\<close>

theorem draft_mask_attends:
  assumes "0 < n" "r < n * (n + 1)" "c < n * (n + 1)"
  shows "length (build_tidar_draft_mask n) = n * (n + 1) \<and> length (build_tidar_draft_mask n ! r) = n * (n + 1)
     \<and> (build_tidar_draft_mask n ! r ! c \<longleftrightarrow> tidar_attends n r c)"
proof -
  have "r div n \<le> n" using assms(2) by (metis add.commute less_Suc_eq_le less_mult_imp_div_less mult.commute plus_1_eq_Suc)
  then show ?thesis
    using draft_mask_steps [OF assms(1) order_refl, folded build_tidar_draft_mask_def] assms by (simp add: tidar_attends_def)
qed

theorem draft_mask_attends_witness:
  "build_tidar_draft_mask 2 ! 4 ! 1 \<and> \<not> build_tidar_draft_mask 2 ! 3 ! 1 \<and> \<not> build_tidar_draft_mask 2 ! 4 ! 2"
  using draft_mask_attends [of 2 4 1] draft_mask_attends [of 2 3 1] draft_mask_attends [of 2 4 2]
  by (simp add: tidar_attends_def)

lemma length_offsets [simp]: "length (build_tidar_position_offsets n) = n * (n + 1)"
proof -
  have "length (concat (map (\<lambda>j. take n (map (\<lambda>k. int k + int j) [0..<n + 1])) [0..<m])) = n * m" for m
    by (induction m) auto
  then show ?thesis unfolding build_tidar_position_offsets_def .
qed

lemma nth_offsets:
  assumes "j \<le> n" "k < n"
  shows "build_tidar_position_offsets n ! (j * n + k) = int (j + k)"
proof -
  have len: "length (build_tidar_position_offsets n) = (n + 1) * n" by (simp add: mult.commute)
  have "block n j (build_tidar_position_offsets n) = take n (map (\<lambda>k. int k + int j) [0..<n + 1])"
    unfolding build_tidar_position_offsets_def
  proof (rule block_concat)
    show "j < n + 1" using assms(1) by simp
  qed simp
  moreover have "block n j (build_tidar_position_offsets n) ! k = build_tidar_position_offsets n ! (j * n + k)"
    using nth_block [OF _ len assms(2), of j] assms(1) by simp
  ultimately show ?thesis using assms(2) by (simp del: upt_Suc)
qed

section \<open>The pooled builder\<close>

lemma foldl_put_slices_at:
  assumes "\<And>i out. i < k \<Longrightarrow> step i out = put_slice (a + length (concat (map f [0..<i]))) (f i) out"
  shows "foldl (\<lambda>out i. step i out) out [0..<k] = put_slice a (concat (map f [0..<k])) out"
  using assms by (induction k) (auto simp: put_slice_append)

lemma length_concat_const: "(\<And>x. x \<in> set xs \<Longrightarrow> length (f x) = n) \<Longrightarrow> length (concat (map f xs)) = length xs * n"
  by (induction xs) auto

lemma take_put_slice_0: "length vs \<le> length buf \<Longrightarrow> take (length vs) (put_slice 0 vs buf) = vs"
  by (simp add: put_slice_def)

lemma map_nth_upt: "map (\<lambda>i. f (xs ! i)) [0..<length xs] = map f xs"
  by (rule nth_equalityI) auto

lemma write_positions_eq:
  assumes "length offsets = B" "length prefixes * B \<le> length buf"
  shows "take (length prefixes * B) (write_positions B offsets prefixes buf) = interleave_add prefixes offsets"
proof -
  let ?f = "\<lambda>b. map (\<lambda>d. d + prefixes ! b) offsets"
  have len: "length (concat (map ?f [0..<i])) = i * B" for i using length_concat_const [of "[0..<i]" ?f B] assms(1) by simp
  have "write_positions B offsets prefixes buf = put_slice 0 (concat (map ?f [0..<length prefixes])) buf"
    unfolding write_positions_def by (rule foldl_put_slices_at) (simp add: len)
  moreover have "concat (map ?f [0..<length prefixes]) = interleave_add prefixes offsets"
    using map_nth_upt [of "\<lambda>p. map (\<lambda>d. d + p) offsets" prefixes] by (simp add: interleave_add_def add.commute)
  moreover have "length (interleave_add prefixes offsets) = length prefixes * B"
    unfolding interleave_add_def using assms(1) by (intro length_concat_const) simp
  ultimately show ?thesis using take_put_slice_0 [of "interleave_add prefixes offsets" buf] assms(2) by simp
qed

lemma write_draft_tokens_eq:
  assumes "n \<le> B" "length prev = bs * n" "bs * B \<le> length buf"
  shows "take (bs * B) (write_draft_tokens bs n B msk prev buf)
     = concat (map (\<lambda>b. block n b prev @ replicate (B - n) msk) [0..<bs])"
proof -
  let ?f = "\<lambda>b. block n b prev @ replicate (B - n) msk"
  have lf: "length (?f b) = B" if "b < bs" for b using length_block_full [OF assms(2) that] assms(1) by simp
  have len: "length (concat (map ?f [0..<i])) = i * B" if "i \<le> bs" for i
    using length_concat_const [of "[0..<i]" ?f B] lf that by simp
  have "write_draft_tokens bs n B msk prev buf = put_slice 0 (concat (map ?f [0..<bs])) buf"
    unfolding write_draft_tokens_def
  proof (rule foldl_put_slices_at)
    fix i out assume i: "i < bs"
    have "length (concat (map ?f [0..<i])) = i * B" using len i by simp
    then show "put_slice (i * B + n) (replicate (B - n) msk) (put_slice (i * B) (block n i prev) out)
       = put_slice (0 + length (concat (map ?f [0..<i]))) (?f i) out"
      using length_block_full [OF assms(2) i] unfolding put_slice_append by (simp del: length_concat)
  qed
  then show ?thesis using take_put_slice_0 [of "concat (map ?f [0..<bs])" buf] len [of bs] assms(3) by (simp del: length_concat)
qed

text \<open>The mask of one request, as the reference builds it.\<close>

definition request_mask :: "nat \<Rightarrow> bool list list \<Rightarrow> nat \<Rightarrow> bool list" where
  "request_mask B dm prefix_len = concat (map2 (@) (replicate B (replicate prefix_len True)) dm)"

lemma length_request_mask:
  assumes "length dm = B" "\<forall>row\<in>set dm. length row = B"
  shows "length (request_mask B dm p) = B * (p + B)"
proof -
  have "map2 (@) (replicate k (replicate p True)) ds = map (\<lambda>row. replicate p True @ row) ds" if "length ds = k" for k ds
    using that by (induction ds arbitrary: k) auto
  from this [OF assms(1)] have "request_mask B dm p = concat (map (\<lambda>row. replicate p True @ row) dm)" by (simp add: request_mask_def)
  then show ?thesis using length_concat_const [of dm "\<lambda>row. replicate p True @ row" "p + B"] assms by simp
qed

lemma write_mask_rows_eq:
  assumes "length dm = B" "\<forall>row\<in>set dm. length row = B"
  shows "write_mask_rows B offset p dm buf = put_slice offset (request_mask B dm p) buf"
proof -
  let ?f = "\<lambda>r. replicate p True @ dm ! r"
  have len: "length (concat (map ?f [0..<i])) = i * (p + B)" if "i \<le> B" for i
    using length_concat_const [of "[0..<i]" ?f "p + B"] assms that by simp
  have "write_mask_rows B offset p dm buf = put_slice offset (concat (map ?f [0..<B])) buf"
    unfolding write_mask_rows_def Let_def
  proof (rule foldl_put_slices_at)
    fix i out assume i: "i < B"
    have "length (concat (map ?f [0..<i])) = i * (p + B)" using len i by simp
    then show "put_slice (offset + i * (p + B) + p) (dm ! i) (put_slice (offset + i * (p + B)) (replicate p True) out)
       = put_slice (offset + length (concat (map ?f [0..<i]))) (?f i) out"
      unfolding put_slice_append by (simp del: length_concat)
  qed
  moreover have "map ?f [0..<B] = map2 (@) (replicate B (replicate p True)) dm"
    using assms(1) by (intro nth_equalityI) auto
  ultimately show ?thesis by (simp add: request_mask_def)
qed

lemma write_custom_mask_eq:
  assumes dm: "length dm = B" "\<forall>row\<in>set dm. length row = B"
    and "offset + sum_list (map (\<lambda>p. B * (p + B)) ps) \<le> length buf"
  shows "write_custom_mask B dm ps offset buf = Inr (offset + sum_list (map (\<lambda>p. B * (p + B)) ps),
     put_slice offset (concat (map (request_mask B dm) ps)) buf)"
  using assms(3)
proof (induction ps arbitrary: offset buf)
  case (Cons p ps)
  have "\<not> length buf < offset + B * (p + B)" using Cons.prems by simp
  then have "write_custom_mask B dm (p # ps) offset buf
      = write_custom_mask B dm ps (offset + B * (p + B)) (put_slice offset (request_mask B dm p) buf)"
    by (simp add: write_mask_rows_eq [OF dm] Let_def)
  also have "\<dots> = Inr (offset + B * (p + B) + sum_list (map (\<lambda>p. B * (p + B)) ps),
      put_slice (offset + B * (p + B)) (concat (map (request_mask B dm) ps)) (put_slice offset (request_mask B dm p) buf))"
    using Cons.prems by (intro Cons.IH) simp
  finally show ?case using length_request_mask [OF dm, of p] by (simp add: put_slice_append add.assoc)
qed simp

lemma length_foldl_same: "(\<And>x buf. length (f buf x) = length buf) \<Longrightarrow> length (foldl f buf xs) = length buf"
  by (induction xs arbitrary: buf) auto

lemma pooled_builder:
  assumes "0 < n" and "length prev = length seq_lens * n"
    and "length seq_lens * (n * (n + 1)) \<le> length (pool_positions pool)"
    and "length seq_lens * (n * (n + 1)) \<le> length (pool_draft_tokens pool)"
    and "sum_list (map (\<lambda>p. n * (n + 1) * (p + n * (n + 1))) seq_lens) \<le> length (pool_custom_mask pool)"
  shows "\<exists>pool'. build_tidar_decode_inputs_pooled seq_lens (map int seq_lens) n (n * (n + 1)) msk prev
        (build_tidar_position_offsets n) (build_tidar_draft_mask n) pool
      = Inr (build_tidar_positions_and_mask_decode seq_lens n prev msk None None None, pool')
     \<and> length (pool_positions pool') = length (pool_positions pool)
     \<and> length (pool_draft_tokens pool') = length (pool_draft_tokens pool)
     \<and> length (pool_custom_mask pool') = length (pool_custom_mask pool)"
proof -
  let ?B = "n * (n + 1)" and ?bs = "length seq_lens" and ?dm = "build_tidar_draft_mask n"
  have dm: "length ?dm = ?B" "\<forall>row\<in>set ?dm. length row = ?B"
    using build_tidar_draft_mask_shape [OF assms(1)] by (auto simp: in_set_conv_nth)
  have pos: "take (?bs * ?B) (write_positions ?B (build_tidar_position_offsets n) (map int seq_lens) (pool_positions pool))
      = interleave_add (map int seq_lens) (build_tidar_position_offsets n)"
    using write_positions_eq [OF length_offsets, of "map int seq_lens" n "pool_positions pool"] assms(3) by simp
  have dt: "take (?bs * ?B) (write_draft_tokens ?bs n ?B msk prev (pool_draft_tokens pool))
      = concat (map (\<lambda>b. block n b prev @ replicate (n * n) msk) [0..<?bs])"
    using write_draft_tokens_eq [of n ?B prev ?bs "pool_draft_tokens pool" msk] assms(2,4) by simp
  have cm: "write_custom_mask ?B ?dm seq_lens 0 (pool_custom_mask pool) = Inr (sum_list (map (\<lambda>p. ?B * (p + ?B)) seq_lens),
      put_slice 0 (concat (map (request_mask ?B ?dm) seq_lens)) (pool_custom_mask pool))"
    using write_custom_mask_eq [OF dm, of 0 seq_lens] assms(5) by simp
  have len: "length (concat (map (request_mask ?B ?dm) seq_lens)) = sum_list (map (\<lambda>p. ?B * (p + ?B)) seq_lens)"
    using length_request_mask [OF dm] by (induction seq_lens) simp_all
  have tk: "take (sum_list (map (\<lambda>p. ?B * (p + ?B)) seq_lens))
      (put_slice 0 (concat (map (request_mask ?B ?dm) seq_lens)) (pool_custom_mask pool)) = concat (map (request_mask ?B ?dm) seq_lens)"
    using take_put_slice_0 [of "concat (map (request_mask ?B ?dm) seq_lens)" "pool_custom_mask pool"] assms(5) unfolding len by simp
  have ref: "build_tidar_positions_and_mask_decode seq_lens n prev msk None None None =
      (concat (map (\<lambda>b. block n b prev @ replicate (n * n) msk) [0..<?bs]),
       interleave_add (map int seq_lens) (build_tidar_position_offsets n), concat (map (request_mask ?B ?dm) seq_lens))"
    by (simp only: build_tidar_positions_and_mask_decode_def Let_def option.case request_mask_def [abs_def])
  have small: "\<not> (length (pool_positions pool) < ?bs * ?B \<or> length (pool_draft_tokens pool) < ?bs * ?B)"
    using assms(3,4) by simp
  have tkb: "take ?bs (map int seq_lens) = map int seq_lens" by simp
  have wl: "length (write_positions ?B (build_tidar_position_offsets n) (map int seq_lens) (pool_positions pool)) = length (pool_positions pool)"
    "length (write_draft_tokens ?bs n ?B msk prev (pool_draft_tokens pool)) = length (pool_draft_tokens pool)"
    unfolding write_positions_def write_draft_tokens_def by (simp_all add: length_foldl_same)
  show ?thesis
    unfolding build_tidar_decode_inputs_pooled_def Let_def if_not_P [OF small] tkb cm rbind_Inr prod.case pos dt tk ref using wl by simp
qed

text \<open>
  C21. The builder on pre-allocated buffers gives what the reference builder gives: draft tokens,
  positions and mask are equal, whatever the buffers held before, as long as they are large enough.
\<close>

theorem pooled_eq_reference:
  assumes "0 < n" and "length prev = length seq_lens * n"
    and "length seq_lens * (n * (n + 1)) \<le> length (pool_positions pool)"
    and "length seq_lens * (n * (n + 1)) \<le> length (pool_draft_tokens pool)"
    and "sum_list (map (\<lambda>p. n * (n + 1) * (p + n * (n + 1))) seq_lens) \<le> length (pool_custom_mask pool)"
  shows "\<exists>pool'. build_tidar_decode_inputs_pooled seq_lens (map int seq_lens) n (n * (n + 1)) msk prev
        (build_tidar_position_offsets n) (build_tidar_draft_mask n) pool
      = Inr (build_tidar_positions_and_mask_decode seq_lens n prev msk None None None, pool')
     \<and> length (pool_custom_mask pool') = length (pool_custom_mask pool)"
  using pooled_builder [OF assms, of msk] by blast

definition demo_pool :: tidar_pool where
  "demo_pool = \<lparr>pool_positions = replicate 6 0, pool_draft_tokens = replicate 8 0, pool_custom_mask = replicate 50 False\<rparr>"

theorem pooled_eq_reference_witness:
  "\<exists>pool'. build_tidar_decode_inputs_pooled [1] (map int [1]) 2 (2 * (2 + 1)) 9 [4, 5]
        (build_tidar_position_offsets 2) (build_tidar_draft_mask 2) demo_pool
      = Inr (build_tidar_positions_and_mask_decode [1] 2 [4, 5] 9 None None None, pool')"
  using pooled_eq_reference [of 2 "[4, 5]" "[1]" demo_pool 9] by (auto simp: demo_pool_def)

section \<open>Stochastic verification\<close>

text \<open>Whether position \<open>pos\<close> of request \<open>bid\<close> is accepted.\<close>

definition accepts ::
  "rat list \<Rightarrow> int list \<Rightarrow> rat list \<Rightarrow> rat list \<Rightarrow> nat \<Rightarrow> nat \<Rightarrow> nat \<Rightarrow> nat \<Rightarrow> bool" where
  "accepts mixed prev_draft prev_probs rands n vocab bid pos \<longleftrightarrow>
     rands ! (bid * n + pos)
       \<le> (if prev_probs ! (bid * n + pos) > 0
          then mixed ! (bid * n * vocab + (pos - 1) * vocab + nat (prev_draft ! (bid * n + pos))) / prev_probs ! (bid * n + pos)
          else 0)"

lemma verify_step_accepts:
  "verify_step mixed pd pp rands n vocab bid nv (c, f) pos =
     (if pos < nv \<and> \<not> f \<and> \<not> accepts mixed pd pp rands n vocab bid pos then (pos, True) else (c, f))"
  by (simp add: verify_step_def accepts_def Let_def not_le)

lemma verify_fold_stopped: "foldl (verify_step mixed pd pp rands n vocab bid nv) (c, True) xs = (c, True)"
  by (induction xs) (simp_all add: verify_step_accepts)

lemma verify_fold:
  assumes "a \<le> nv" "nv \<le> b"
  shows "fst (foldl (verify_step mixed pd pp rands n vocab bid nv) (nv, False) [a..<b])
     = a + length (takeWhile (accepts mixed pd pp rands n vocab bid) [a..<nv])"
  using assms
proof (induction "nv - a" arbitrary: a)
  case 0
  then have a: "a = nv" by simp
  have "foldl (verify_step mixed pd pp rands n vocab bid nv) (nv, False) xs = (nv, False)" if "\<forall>x\<in>set xs. nv \<le> x" for xs
    using that by (induction xs) (simp_all add: verify_step_accepts)
  then show ?case using a by simp
next
  case (Suc d)
  then have ab: "[a..<b] = a # [Suc a..<b]" "[a..<nv] = a # [Suc a..<nv]" "a < nv" by (auto simp: upt_conv_Cons)
  show ?case
  proof (cases "accepts mixed pd pp rands n vocab bid a")
    case True
    moreover have "d = nv - Suc a" using Suc.hyps(2) by simp
    ultimately show ?thesis
      using Suc.hyps(1) [of "Suc a"] Suc.prems ab(3) unfolding ab(1,2) by (simp add: verify_step_accepts)
  next
    case False
    then show ?thesis using ab(3) unfolding ab(1,2) by (simp add: verify_step_accepts verify_fold_stopped)
  qed
qed



section \<open>Attention arguments\<close>

text \<open>The slots of a request: the first \<open>len\<close> entries of its row of \<open>req_to_token\<close>.\<close>

definition row_slots :: "int list \<Rightarrow> int \<Rightarrow> int \<Rightarrow> int \<Rightarrow> int list" where
  "row_slots req_to_token stride row len = map (\<lambda>k. tl_load req_to_token (row * stride + k)) [0..len - 1]"

lemma length_row_slots [simp]: "length (row_slots rtt stride row len) = nat len"
  by (simp add: row_slots_def)

lemma tl_load_nat [simp]: "i < length xs \<Longrightarrow> tl_load xs (int i) = xs ! i"
  by (simp add: tl_load_def)

lemma kv_indices_program:
  assumes "pid < length rows" "pid < length lens" "pid < length indptr" and "0 \<le> lens ! pid" "0 \<le> indptr ! pid"
    and "indptr ! pid + lens ! pid \<le> int (length out)"
  shows "create_flashinfer_kv_indices rtt rows lens indptr None stride pid out
     = put_slice (nat (indptr ! pid)) (row_slots rtt stride (rows ! pid) (lens ! pid)) out"
  using tl_store_blocks [of KV_BLOCK "lens ! pid" "indptr ! pid" out "\<lambda>k. tl_load rtt (rows ! pid * stride + k)"] assms
  by (simp add: create_flashinfer_kv_indices_def row_slots_def Let_def KV_BLOCK_def add.assoc)

lemma sum_list_take_Suc: "i < length xs \<Longrightarrow> sum_list (take (Suc i) xs) = sum_list (take i xs) + xs ! i"
  by (simp add: take_Suc_conv_app_nth)

lemma indptr_nth: "i \<le> length ls \<Longrightarrow> (0 # cumsum ls) ! i = sum_list (take i ls)"
  by (cases i) (simp_all add: nth_cumsum)

lemma sum_list_take_mono:
  assumes "\<forall>x\<in>set xs. (0::int) \<le> x" shows "sum_list (take i xs) \<le> sum_list xs"
proof -
  have "0 \<le> sum_list (drop i xs)" using assms by (intro sum_list_nonneg) (auto dest: in_set_dropD)
  then show ?thesis using sum_list_append [of "take i xs" "drop i xs"] by simp
qed

text \<open>
  C23. The attention arguments of a quadratic step: the index buffer lists, request after request,
  the KV slots of the request's prefix and of its \<open>B\<close> queries, the two offset arrays delimit the
  requests, and the mask is padded with \<open>False\<close> to the size the kernel reads.
\<close>

theorem attn_args:
  assumes "length lens = length rows" and "\<forall>l\<in>set lens. 0 \<le> l"
    and "generate_attn_arg_prefill t rows lens rtt stride garbage = (kv_indices, kv_indptr, qo_indptr, custom_mask)"
  defines "L \<equiv> map (\<lambda>l. l + int (num_queries t)) lens"
  shows "kv_indices = concat (map (\<lambda>b. row_slots rtt stride (rows ! b) (L ! b)) [0..<length rows])
     \<and> (\<forall>i\<le>length rows. kv_indptr ! i = sum_list (take i L) \<and> qo_indptr ! i = int (i * num_queries t))
     \<and> custom_mask = ti_custom_mask t
         @ replicate (nat (\<Sum>b<length rows. int (num_queries t) * L ! b) - length (ti_custom_mask t)) False"
proof -
  let ?bs = "length rows" and ?P = "0 # cumsum L"
  have ll: "length L = ?bs" and pos: "\<forall>x\<in>set L. 0 \<le> x" using assms(1,2) by (auto simp: L_def)
  define total where "total = sum_list L"
  have "last ?P = ?P ! length L" by (metis last_conv_nth length_Cons length_cumsum diff_Suc_1 list.distinct(1))
  then have last: "last ?P = total" using indptr_nth [of "length L" L] unfolding total_def by simp
  have eqs: "kv_indices = run_grid (create_flashinfer_kv_indices rtt rows L ?P None stride) ?bs (replicate (nat total) garbage)"
    "kv_indptr = ?P" "qo_indptr = map (\<lambda>i. int (i * num_queries t)) [0..<?bs + 1]"
    "custom_mask = (let n = nat (\<Sum>b<?bs. int (num_queries t) * L ! b) in
        if length (ti_custom_mask t) < n then ti_custom_mask t @ replicate (n - length (ti_custom_mask t)) False else ti_custom_mask t)"
    using assms(3) last unfolding generate_attn_arg_prefill_def Let_def L_def [symmetric] by auto
  let ?f = "\<lambda>b. row_slots rtt stride (rows ! b) (L ! b)"
  have len: "int (length (concat (map ?f [0..<i]))) = sum_list (take i L)" if "i \<le> ?bs" for i
    using that
  proof (induction i)
    case (Suc i)
    then have "0 \<le> L ! i" using pos ll by simp
    then show ?case using Suc ll by (simp add: sum_list_take_Suc)
  qed simp
  have step: "create_flashinfer_kv_indices rtt rows L ?P None stride i out = put_slice (0 + length (concat (map ?f [0..<i]))) (?f i) out"
    if "i < ?bs" "length out = nat total" for i out
  proof -
    have p: "?P ! i = sum_list (take i L)" using indptr_nth [of i L] that ll by simp
    have "sum_list (take (Suc i) L) \<le> total" using sum_list_take_mono [OF pos] by (simp add: total_def)
    then have "sum_list (take i L) + L ! i \<le> total" using sum_list_take_Suc [of i L] that ll by simp
    moreover have "0 \<le> L ! i" using pos that ll by simp
    moreover have "0 \<le> sum_list (take i L)" using pos by (intro sum_list_nonneg) (auto dest: in_set_takeD)
    moreover have "nat (sum_list (take i L)) = length (concat (map ?f [0..<i]))" using len [of i] that by linarith
    ultimately show ?thesis
      using kv_indices_program [of i rows L ?P out rtt stride] that ll p by (simp del: length_concat)
  qed
  have "run_grid (create_flashinfer_kv_indices rtt rows L ?P None stride) ?bs (replicate (nat total) garbage)
      = put_slice 0 (concat (map ?f [0..<?bs])) (replicate (nat total) garbage)"
    unfolding run_grid_def using step by (intro foldl_put_slices [where n = "nat total"]) simp_all
  moreover have "length (concat (map ?f [0..<?bs])) = nat total" using len [of ?bs] ll unfolding total_def by simp
  ultimately have "kv_indices = concat (map ?f [0..<?bs])" unfolding eqs(1) by (metis put_slice_whole length_replicate)
  moreover have "\<forall>i\<le>?bs. kv_indptr ! i = sum_list (take i L) \<and> qo_indptr ! i = int (i * num_queries t)"
    unfolding eqs(2,3) using indptr_nth ll by (auto simp del: upt_Suc simp: less_Suc_eq_le)
  ultimately show ?thesis using eqs(4) by (simp add: Let_def)
qed

theorem attn_args_witness:
  "fst (generate_attn_arg_prefill (tidar_input_init [4, 5] [1, 2] [True] 2 None [1]) [1] [1] [10, 11, 12, 13, 20, 21, 22, 23] 4 0)
     = [20, 21, 22]"
  using attn_args [of "[1]" "[1]" "tidar_input_init [4, 5] [1, 2] [True] 2 None [1]" "[10, 11, 12, 13, 20, 21, 22, 23]" 4 0]
  by (simp add: prod_eq_iff tidar_input_init_def row_slots_def tl_load_def upto_rec1)

end
