(* ===== verification/KV_Slots.thy ===== *)
theory KV_Slots
  imports KV_Pool "HOL-Library.Multiset"
begin

text \<open>
  Allocators that hand out single slots, as the clients of the token allocator use them, and what it means that the
  slots held by requests and the free slots partition a pool.
\<close>

section \<open>Pools of slots\<close>

text \<open>
  The contract of an allocator of single slots, beyond \<open>kv_pool\<close>: the pool hands out single slots, so that any part of
  an allocation can be freed, and it serves every request that its free slots cover.
\<close>

locale kv_slot_pool = kv_pool +
  fixes ready :: "'a \<Rightarrow> bool"
  assumes units_slots: "units s xs = set xs"
    and finite_pages: "inv s \<Longrightarrow> finite (pages s)"
    and alloc_total: "\<exists>r. alloc n s = Inr r"
    and alloc_length: "alloc n s = Inr (Some xs, s') \<Longrightarrow> length xs = n"
    and alloc_fits: "inv s \<Longrightarrow> ready s \<Longrightarrow> n \<le> card (pages s) \<Longrightarrow> \<exists>xs s'. alloc n s = Inr (Some xs, s')"
    and alloc_ready: "ready s \<Longrightarrow> alloc n s = Inr (r, s') \<Longrightarrow> ready s'"
    and free_ready: "ready s \<Longrightarrow> free xs s = Inr s' \<Longrightarrow> ready s'"

definition tok_ready :: "'z allocator_scheme \<Rightarrow> bool" where
  "tok_ready s \<longleftrightarrow> \<not> in_free_group s \<and> (need_sort s \<or> release_pages s = [])"

interpretation slots: kv_slot_pool "\<lambda>n s. Inr (tok_alloc n s)" "\<lambda>xs s. Inr (tok_free xs s)"
  free_group_begin "free_group_end (\<lambda>xs s. Inr (tok_free xs s))" in_free_group
  tok_pages "\<lambda>_. set" "tok_inv :: allocator \<Rightarrow> bool" tok_ready
proof
  fix s s' :: allocator and n :: nat and xs :: "int list" and r
  show "set xs = set xs" ..
  show "tok_inv s \<Longrightarrow> finite (tok_pages s)" by (simp add: tok_pages_def)
  show "\<exists>r. Inr (tok_alloc n s) = (Inr r :: _ res)" by simp
  show "Inr (tok_alloc n s) = (Inr (Some xs, s') :: _ res) \<Longrightarrow> length xs = n"
    by (auto simp: tok_alloc_def Let_def split: if_splits)
  show "tok_ready s \<Longrightarrow> Inr (tok_alloc n s) = (Inr (r, s') :: _ res) \<Longrightarrow> tok_ready s'"
    by (auto simp: tok_alloc_def tok_ready_def Let_def in_free_group_def merge_and_sort_free_def split: if_splits)
  show "tok_ready s \<Longrightarrow> Inr (tok_free xs s) = (Inr s' :: _ res) \<Longrightarrow> tok_ready s'"
    by (auto simp: tok_free_def tok_ready_def in_free_group_def split: if_splits)
  show "\<exists>xs s'. Inr (tok_alloc n s) = (Inr (Some xs, s') :: _ res)" if inv: "tok_inv s" and r: "tok_ready s" and n: "n \<le> card (tok_pages s)"
  proof -
    have "card (tok_pages s) = length (free_pages s) + length (release_pages s)"
      using inv r distinct_card [of "free_pages s @ release_pages s"]
      by (simp add: tok_pages_def tok_inv_def tok_ready_def pending_def)
    moreover have "length (free_pages (merge_and_sort_free s)) = length (free_pages s) + length (release_pages s)"
      by (simp add: merge_and_sort_free_def)
    ultimately show ?thesis using n r by (auto simp: tok_alloc_def tok_ready_def Let_def)
  qed
qed

text \<open>
  A pool whose frees can be gathered in a group: \<open>soft\<close> is what an open group keeps of \<open>ready\<close>.
\<close>

locale kv_group_pool = kv_slot_pool +
  fixes soft :: "'a \<Rightarrow> bool"
  assumes ready_iff: "ready s \<longleftrightarrow> soft s \<and> \<not> in_group s"
    and begin_soft: "soft s \<Longrightarrow> soft (fbegin s) \<and> in_group (fbegin s)"
    and free_soft: "soft s \<Longrightarrow> free xs s = Inr s' \<Longrightarrow> soft s' \<and> in_group s' = in_group s"
    and end_soft: "soft s \<Longrightarrow> in_group s \<Longrightarrow> fend s = Inr s' \<Longrightarrow> soft s' \<and> \<not> in_group s'"

definition tok_soft :: "'z allocator_scheme \<Rightarrow> bool" where
  "tok_soft s \<longleftrightarrow> need_sort s \<or> release_pages s = []"

interpretation group_slots: kv_group_pool "\<lambda>n s. Inr (tok_alloc n s)" "\<lambda>xs s. Inr (tok_free xs s)"
  free_group_begin "free_group_end (\<lambda>xs s. Inr (tok_free xs s))" in_free_group
  tok_pages "\<lambda>_. set" "tok_inv :: allocator \<Rightarrow> bool" tok_ready tok_soft
proof
  fix s s' :: allocator and xs :: "int list"
  show "tok_ready s \<longleftrightarrow> tok_soft s \<and> \<not> in_free_group s" by (auto simp: tok_ready_def tok_soft_def)
  show "tok_soft s \<Longrightarrow> tok_soft (free_group_begin s) \<and> in_free_group (free_group_begin s)"
    by (simp add: tok_soft_def free_group_begin_def in_free_group_def)
  show "tok_soft s \<Longrightarrow> Inr (tok_free xs s) = (Inr s' :: _ res) \<Longrightarrow> tok_soft s' \<and> in_free_group s' = in_free_group s"
    by (auto simp: tok_soft_def tok_free_def in_free_group_def split: if_splits)
  show "tok_soft s \<Longrightarrow> in_free_group s \<Longrightarrow> free_group_end (\<lambda>xs s. Inr (tok_free xs s)) s = Inr s'
      \<Longrightarrow> tok_soft s' \<and> \<not> in_free_group s'"
    by (auto simp: tok_soft_def free_group_end_def tok_free_def in_free_group_def Let_def split: if_splits)
qed

text \<open>The list \<open>xs\<close> of slots is out of the pool \<open>P\<close>, and together they are \<open>U\<close>.\<close>

definition owns :: "int set \<Rightarrow> int set \<Rightarrow> int list \<Rightarrow> bool" where
  "owns U P xs \<longleftrightarrow> distinct xs \<and> set xs \<inter> P = {} \<and> set xs \<union> P = U"

lemma owns_perm: "mset xs = mset ys \<Longrightarrow> owns U P xs = owns U P ys"
  unfolding owns_def by (metis mset_eq_imp_distinct_iff mset_eq_setD)

lemma owns_release: "owns U P (xs @ ys) \<Longrightarrow> owns U (P \<union> set ys) xs"
  by (auto simp: owns_def)

lemma owns_take: "owns U P xs \<Longrightarrow> P = P' \<union> set ys \<Longrightarrow> P' \<inter> set ys = {} \<Longrightarrow> distinct ys \<Longrightarrow> owns U P' (xs @ ys)"
  by (auto simp: owns_def)

lemma mset_concat_upd:
  "b < k \<Longrightarrow> (\<And>j. j < k \<Longrightarrow> j \<noteq> b \<Longrightarrow> g j = f j) \<Longrightarrow> g b = f b @ ys \<Longrightarrow>
   mset (concat (map g [0..<k])) = mset (concat (map f [0..<k])) + mset ys"
proof (induction k)
  case (Suc k)
  show ?case
  proof (cases "b = k")
    case True
    have "map g [0..<k] = map f [0..<k]" using Suc.prems(2) True by (intro map_cong) auto
    then show ?thesis using Suc.prems(3) True by (simp del: map_eq_conv)
  next
    case False
    then show ?thesis using Suc by simp
  qed
qed simp

end
