(* ===== verification/Tidar_Correct.thy ===== *)
theory Tidar_Correct
  imports Tidar Tidar_Inputs_Correct Linear_Spec_Correct KV_Slots
begin

text \<open>
  TiDAR decode runs: the slots that are not kept go back to the pool, \<open>req_to_token\<close> maps the
  committed tokens of every request to the slots kept for them, and a run with room in the pool ends
  with a full block or an EOS for every request.
\<close>

section \<open>req_to_token\<close>

lemma sum_lanes_below:
  assumes "pid \<le> N"
  shows "sum_list (map2 (-) (map (\<lambda>i. if i < pid then f i + c else 0) [0..<N]) (map (\<lambda>i. if i < pid then f i else 0) [0..<N]))
     = int pid * (c::int)"
proof -
  have "map2 (-) (map (\<lambda>i. if i < pid then f i + c else 0) [0..<N]) (map (\<lambda>i. if i < pid then f i else 0) [0..<N])
      = map (\<lambda>i. if i < pid then c else 0) [0..<N]"
    by (intro nth_equalityI) auto
  moreover have "sum_list (map (\<lambda>i. if i < pid then c else 0) [0..<N]) = int (min pid N) * c"
    by (induction N) (auto simp: algebra_simps min_def not_le le_Suc_eq)
  ultimately show ?thesis using assms by (simp add: min_def)
qed

lemma assign_program:
  assumes b: "b < bs" "bs \<le> N" and len: "length rows = bs" "length prefix = bs" "length xs = bs * B"
    and row: "0 \<le> rows ! b" and room: "nat (rows ! b) * L + prefix ! b + B \<le> length rtt"
  shows "assign_req_to_token_pool rows (map int prefix) (map (\<lambda>p. int (p + B)) prefix) xs (int L) N b rtt
     = put_slice (nat (rows ! b) * L + prefix ! b) (block B b xs) rtt"
proof -
  let ?a = "rows ! b * int L + int (prefix ! b)" and ?f = "\<lambda>k. tl_load xs (int b * int B + k)"
  have off: "sum_list (map2 (-) (map (\<lambda>i. if i < b then tl_load (map (\<lambda>p. int (p + B)) prefix) (int i) else 0) [0..<N])
      (map (\<lambda>i. if i < b then tl_load (map int prefix) (int i) else 0) [0..<N])) = int b * int B"
  proof -
    have e: "map (\<lambda>i. if i < b then tl_load (map (\<lambda>p. int (p + B)) prefix) (int i) else 0) [0..<N]
        = map (\<lambda>i. if i < b then int (prefix ! i) + int B else 0) [0..<N]"
      "map (\<lambda>i. if i < b then tl_load (map int prefix) (int i) else 0) [0..<N] = map (\<lambda>i. if i < b then int (prefix ! i) else 0) [0..<N]"
      using b(1) len(2) by auto
    show ?thesis unfolding e using b by (intro sum_lanes_below) simp
  qed
  have a: "nat ?a = nat (rows ! b) * L + prefix ! b" "0 \<le> ?a" using row by (simp_all add: nat_add_distrib nat_mult_distrib)
  then have "?a + int B \<le> int (length rtt)" using room by linarith
  then have st: "foldl (\<lambda>rtt i. tl_store (map (\<lambda>lane. (?a + (i * ASSIGN_BLOCK + lane), ?f (i * ASSIGN_BLOCK + lane),
        i * ASSIGN_BLOCK + lane < int B)) [0..ASSIGN_BLOCK - 1]) rtt) rtt [0..ceil_div (int B) ASSIGN_BLOCK - 1]
      = put_slice (nat ?a) (map ?f [0..int B - 1]) rtt"
    using a(2) by (intro tl_store_blocks) (simp_all add: ASSIGN_BLOCK_def)
  have blk: "map ?f [0..int B - 1] = block B b xs"
  proof (rule nth_equalityI)
    show "length (map ?f [0..int B - 1]) = length (block B b xs)" using length_block_full [OF len(3) b(1)] by simp
    fix i assume "i < length (map ?f [0..int B - 1])"
    then have i: "i < B" by simp
    have "b * B + i < bs * B" using block_bound [OF b(1), of B] i by linarith
    then show "map ?f [0..int B - 1] ! i = block B b xs ! i"
      using i nth_block [OF b(1) len(3) i] len(3) by (simp add: tl_load_def nat_add_distrib nat_mult_distrib flip: of_nat_mult of_nat_add)
  qed
  have ld: "tl_load (map int prefix) (int b) = int (prefix ! b)" "tl_load (map (\<lambda>p. int (p + B)) prefix) (int b) = int (prefix ! b) + int B"
    "tl_load rows (int b) = rows ! b" using b(1) len by simp_all
  show ?thesis
    unfolding assign_req_to_token_pool_def Let_def off ld using st unfolding blk a(1)
    by (simp add: algebra_simps)
qed

lemma foldl_put_slices_disjoint:
  assumes "\<And>b. b < k \<Longrightarrow> p b + length (v b) \<le> length rtt"
    and "\<And>b c. b < k \<Longrightarrow> c < k \<Longrightarrow> b \<noteq> c \<Longrightarrow> p b + length (v b) \<le> p c \<or> p c + length (v c) \<le> p b"
  shows "length (foldl (\<lambda>rtt b. put_slice (p b) (v b) rtt) rtt [0..<k]) = length rtt"
    and "\<forall>b<k. \<forall>i<length (v b). foldl (\<lambda>rtt b. put_slice (p b) (v b) rtt) rtt [0..<k] ! (p b + i) = v b ! i"
    and "\<forall>q<length rtt. (\<forall>b<k. q < p b \<or> p b + length (v b) \<le> q) \<longrightarrow>
      foldl (\<lambda>rtt b. put_slice (p b) (v b) rtt) rtt [0..<k] ! q = rtt ! q"
proof -
  let ?R = "\<lambda>k. foldl (\<lambda>rtt b. put_slice (p b) (v b) rtt) rtt [0..<k]"
  have "length (?R k) = length rtt \<and> (\<forall>b<k. \<forall>i<length (v b). ?R k ! (p b + i) = v b ! i)
     \<and> (\<forall>q<length rtt. (\<forall>b<k. q < p b \<or> p b + length (v b) \<le> q) \<longrightarrow> ?R k ! q = rtt ! q)"
    using assms
  proof (induction k)
    case (Suc k)
    have ih: "length (?R k) = length rtt" "\<forall>b<k. \<forall>i<length (v b). ?R k ! (p b + i) = v b ! i"
      "\<forall>q<length rtt. (\<forall>b<k. q < p b \<or> p b + length (v b) \<le> q) \<longrightarrow> ?R k ! q = rtt ! q"
      using Suc.IH Suc.prems by simp_all
    have step: "?R (Suc k) = put_slice (p k) (v k) (?R k)" by simp
    have nth: "?R (Suc k) ! q = (if p k \<le> q \<and> q < p k + length (v k) then v k ! (q - p k) else ?R k ! q)" if "q < length rtt" for q
      unfolding step using nth_put_slice [of q "?R k" "p k" "v k"] that ih(1) by simp
    have "?R (Suc k) ! (p b + i) = v b ! i" if "b < Suc k" "i < length (v b)" for b i
    proof -
      have q: "p b + i < length rtt" using Suc.prems(1) [OF that(1)] that(2) by linarith
      show ?thesis
      proof (cases "b = k")
        case True
        then show ?thesis using nth [OF q] that by simp
      next
        case False
        then have "b < k" using that(1) by simp
        have out: "\<not> (p k \<le> p b + i \<and> p b + i < p k + length (v k))"
          using Suc.prems(2) [of b k] that False by auto
        show ?thesis using ih(2) \<open>b < k\<close> that(2) unfolding nth [OF q] if_not_P [OF out] by blast
      qed
    qed
    moreover have "?R (Suc k) ! q = rtt ! q" if "q < length rtt" "\<forall>b<Suc k. q < p b \<or> p b + length (v b) \<le> q" for q
    proof -
      have out: "\<not> (p k \<le> q \<and> q < p k + length (v k))" using that(2) by auto
      show ?thesis using ih(3) that unfolding nth [OF that(1)] if_not_P [OF out] by simp
    qed
    ultimately show ?case unfolding step using ih(1) by (simp add: step)
  qed simp
  then show "length (?R k) = length rtt" "\<forall>b<k. \<forall>i<length (v b). ?R k ! (p b + i) = v b ! i"
    "\<forall>q<length rtt. (\<forall>b<k. q < p b \<or> p b + length (v b) \<le> q) \<longrightarrow> ?R k ! q = rtt ! q" by blast+
qed

text \<open>The rows of the requests: distinct rows of the table, long enough for the next \<open>B\<close> slots.\<close>

definition rows_ok :: "int list \<Rightarrow> nat \<Rightarrow> int list \<Rightarrow> bool" where
  "rows_ok rows L rtt \<longleftrightarrow> distinct rows \<and> (\<forall>r\<in>set rows. 0 \<le> r \<and> (nat r + 1) * L \<le> length rtt)"

definition row_at :: "int list \<Rightarrow> nat \<Rightarrow> nat \<Rightarrow> nat" where
  "row_at rows L b = nat (rows ! b) * L"

lemma row_at_disjoint:
  assumes "rows_ok rows L rtt" "b < length rows" "c < length rows" "b \<noteq> c"
  shows "row_at rows L b + L \<le> row_at rows L c \<or> row_at rows L c + L \<le> row_at rows L b"
proof -
  have "rows ! b \<noteq> rows ! c" "0 \<le> rows ! b" "0 \<le> rows ! c" using assms by (auto simp: rows_ok_def nth_eq_iff_index_eq)
  then have "nat (rows ! b) < nat (rows ! c) \<or> nat (rows ! c) < nat (rows ! b)" by linarith
  then have "Suc (nat (rows ! b)) * L \<le> nat (rows ! c) * L \<or> Suc (nat (rows ! c)) * L \<le> nat (rows ! b) * L"
    by (metis Suc_leI mult_le_mono1)
  then show ?thesis by (simp add: row_at_def add.commute)
qed

lemma row_at_bound: "rows_ok rows L rtt \<Longrightarrow> b < length rows \<Longrightarrow> row_at rows L b + L \<le> length rtt"
  using nth_mem [of b rows] unfolding rows_ok_def row_at_def by (metis add.commute add_mult_distrib mult_1)

lemma assign_func_props:
  assumes rows: "rows_ok rows L rtt" and len: "length rows = bs" "length prefix = bs" "length xs = bs * B"
    and room: "\<forall>p\<in>set prefix. p + B \<le> L"
  defines "rtt' \<equiv> assign_req_to_token_pool_func rows (map int prefix) (map (\<lambda>p. int (p + B)) prefix) xs (int L) bs rtt"
  shows "length rtt' = length rtt"
    and "b < bs \<Longrightarrow> i < B \<Longrightarrow> rtt' ! (row_at rows L b + prefix ! b + i) = block B b xs ! i"
    and "b < bs \<Longrightarrow> i < prefix ! b \<Longrightarrow> rtt' ! (row_at rows L b + i) = rtt ! (row_at rows L b + i)"
proof -
  let ?p = "\<lambda>b. row_at rows L b + prefix ! b" and ?v = "\<lambda>b. block B b xs"
  have lv: "length (?v b) = B" if "b < bs" for b using length_block_full [OF len(3) that] .
  have pb: "prefix ! b + B \<le> L" if "b < bs" for b using room that len(2) by simp
  have fit: "?p b + B \<le> length rtt" if "b < bs" for b using row_at_bound [OF rows, of b] pb [OF that] that len(1) by simp
  have prog: "assign_req_to_token_pool rows (map int prefix) (map (\<lambda>p. int (p + B)) prefix) xs (int L) (next_power_of_2 bs) b t
      = put_slice (?p b) (?v b) t" if "b < bs" "length t = length rtt" for b t
    using assign_program [OF that(1) next_power_of_2_ge len] rows fit [OF that(1)] that len(1)
    by (simp add: rows_ok_def row_at_def)
  have eq: "rtt' = foldl (\<lambda>t b. put_slice (?p b) (?v b) t) rtt [0..<bs]"
  proof -
    have "foldl (\<lambda>t b. assign_req_to_token_pool rows (map int prefix) (map (\<lambda>p. int (p + B)) prefix) xs (int L) (next_power_of_2 bs) b t) rtt [0..<k]
        = foldl (\<lambda>t b. put_slice (?p b) (?v b) t) rtt [0..<k] \<and> length (foldl (\<lambda>t b. put_slice (?p b) (?v b) t) rtt [0..<k]) = length rtt"
      if "k \<le> bs" for k
      using that by (induction k) (use prog in auto)
    then show ?thesis unfolding rtt'_def assign_req_to_token_pool_func_def run_grid_def by blast
  qed
  have dis: "?p b + length (?v b) \<le> ?p c \<or> ?p c + length (?v c) \<le> ?p b" if "b < bs" "c < bs" "b \<noteq> c" for b c
    using row_at_disjoint [OF rows, of b c] that len(1) pb [OF that(1)] pb [OF that(2)] lv by auto
  note F = foldl_put_slices_disjoint [of bs ?p ?v rtt, OF _ dis]
  have fits: "?p b + length (?v b) \<le> length rtt" if "b < bs" for b using fit lv that by simp
  show "length rtt' = length rtt" unfolding eq using F(1) fits by blast
  show "rtt' ! (row_at rows L b + prefix ! b + i) = block B b xs ! i" if "b < bs" "i < B"
    unfolding eq using F(2) fits that lv by simp
  show "rtt' ! (row_at rows L b + i) = rtt ! (row_at rows L b + i)" if b: "b < bs" and i: "i < prefix ! b"
  proof -
    have q: "row_at rows L b + i < length rtt" using fit [OF b] i by linarith
    have "row_at rows L b + i < ?p c \<or> ?p c + length (?v c) \<le> row_at rows L b + i" if c: "c < bs" for c
    proof (cases "c = b")
      case False
      have "i < L" using i pb [OF b] by linarith
      then show ?thesis
        using row_at_disjoint [OF rows, of b c] b c False len(1) pb [OF c] lv [OF c] by auto
    qed (use i in simp)
    then show ?thesis unfolding eq using F(3) fits q by blast
  qed
qed

section \<open>The invariant of a decode run\<close>

text \<open>The slots kept for the committed tokens of request \<open>j\<close>, read off \<open>req_to_token\<close>.\<close>

definition td_kept :: "('s, 'm) td_env \<Rightarrow> nat list \<Rightarrow> ('s, 'm) td_state \<Rightarrow> nat \<Rightarrow> int list" where
  "td_kept e prefix0 st j =
     map (\<lambda>i. td_rtt st ! (row_at (td_rows e) (td_pool_len e) j + prefix0 ! j + i)) [0..<length (td_committed st ! j)]"

text \<open>An EOS ends the committed tokens.\<close>

definition committed_ok :: "int option \<Rightarrow> bool \<Rightarrow> int list \<Rightarrow> bool" where
  "committed_ok eos_id found c \<longleftrightarrow> (found \<longleftrightarrow> (\<exists>x. eos_id = Some x \<and> x \<in> set c))
     \<and> (\<forall>x. eos_id = Some x \<longrightarrow> x \<notin> set (butlast c))"

text \<open>
  Requests below \<open>b\<close> are processed; the blocks of the allocation \<open>xs\<close> from \<open>b\<close> on are still whole.
  Between steps \<open>b\<close> is the number of requests.
\<close>

definition td_mid ::
  "('s \<Rightarrow> bool) \<Rightarrow> ('s \<Rightarrow> bool) \<Rightarrow> ('s \<Rightarrow> int set) \<Rightarrow> ('s, 'm) td_env \<Rightarrow> int set \<Rightarrow> nat \<Rightarrow> nat list \<Rightarrow> int option
    \<Rightarrow> int list \<Rightarrow> nat \<Rightarrow> ('s, 'm) td_state \<Rightarrow> bool" where
  "td_mid I R pages e U n prefix0 eos_id xs b st \<longleftrightarrow>
     (let bs = length prefix0; B = n * (n + 1) in
      block_size (td_alg st) = n \<and> length (td_committed st) = bs \<and> length (td_found_eos st) = bs
      \<and> length (td_draft st) = bs * n
      \<and> td_prefix st = map (\<lambda>j. prefix0 ! j + length (td_committed st ! j)) [0..<bs]
      \<and> (\<forall>j<bs. length (td_committed st ! j) \<le> n \<and> committed_ok eos_id (td_found_eos st ! j) (td_committed st ! j))
      \<and> I (td_kv st) \<and> R (td_kv st)
      \<and> owns U (pages (td_kv st))
          (concat (map (td_kept e prefix0 st) [0..<bs]) @ concat (map (\<lambda>j. block B j xs) [b..<bs]))
      \<and> (\<forall>j. b \<le> j \<and> j < bs \<longrightarrow> (\<forall>i<B.
           td_rtt st ! (row_at (td_rows e) (td_pool_len e) j + prefix0 ! j + length (td_committed st ! j) + i)
             = block B j xs ! i)))"

lemma cut_at_eos_props:
  shows "length (cut_at_eos eos_id ys) \<le> length ys"
    and "(case eos_id of Some x \<Rightarrow> x \<in> set ys | None \<Rightarrow> False) = (\<exists>x. eos_id = Some x \<and> x \<in> set (cut_at_eos eos_id ys))"
    and "eos_id = Some x \<Longrightarrow> x \<notin> set (butlast (cut_at_eos eos_id ys))"
    and "\<not> (case eos_id of Some x \<Rightarrow> x \<in> set ys | None \<Rightarrow> False) \<Longrightarrow> cut_at_eos eos_id ys = ys"
proof -
  show "length (cut_at_eos eos_id ys) \<le> length ys" by (auto simp: cut_at_eos_def split: option.splits)
  have hit: "take (length (takeWhile (\<lambda>t. t \<noteq> x) ys) + 1) ys = takeWhile (\<lambda>t. t \<noteq> x) ys @ [x]" if "x \<in> set ys" for x
    using that by (induction ys) auto
  show "(case eos_id of Some x \<Rightarrow> x \<in> set ys | None \<Rightarrow> False) = (\<exists>x. eos_id = Some x \<and> x \<in> set (cut_at_eos eos_id ys))"
    using hit by (auto simp: cut_at_eos_def split: option.splits)
  show "x \<notin> set (butlast (cut_at_eos eos_id ys))" if "eos_id = Some x"
    using that hit [of x] by (auto simp: cut_at_eos_def dest: in_set_butlastD set_takeWhileD)
  show "cut_at_eos eos_id ys = ys" if "\<not> (case eos_id of Some x \<Rightarrow> x \<in> set ys | None \<Rightarrow> False)"
    using that by (auto simp: cut_at_eos_def split: option.splits)
qed

lemma committed_ok_append:
  assumes "committed_ok eos_id False c" "ys \<noteq> []"
  shows "committed_ok eos_id (case eos_id of Some x \<Rightarrow> x \<in> set ys | None \<Rightarrow> False) (c @ cut_at_eos eos_id ys)"
proof -
  have ne: "cut_at_eos eos_id ys \<noteq> []" using assms(2) by simp
  have c: "eos_id = Some x \<Longrightarrow> x \<notin> set c" for x using assms(1) by (auto simp: committed_ok_def)
  show ?thesis
    unfolding committed_ok_def cut_at_eos_props(2) using c ne cut_at_eos_props(3) [of eos_id _ ys]
    by (auto simp: butlast_append)
qed

context kv_slot_pool
begin

lemma post_ok:
  assumes e: "td_free e = free" and n: "0 < n" and b: "b < length prefix0"
    and xs: "length xs = length prefix0 * (n * (n + 1))"
    and mid: "td_mid inv ready pages e U n prefix0 eos_id xs b st"
    and l: "length prefix0 * (n * (n + 1)) \<le> length l"
    and acc: "td_found_eos st ! b \<Longrightarrow> accs ! b = 0" "accs ! b + length (td_committed st ! b) \<le> n"
  shows "\<exists>st'. td_post e eos_id xs l accs st b = Inr st' \<and> td_mid inv ready pages e U n prefix0 eos_id xs (Suc b) st'
     \<and> td_alg st' = td_alg st \<and> td_rtt st' = td_rtt st
     \<and> (\<forall>j<length prefix0. j \<noteq> b \<longrightarrow> td_committed st' ! j = td_committed st ! j \<and> td_found_eos st' ! j = td_found_eos st ! j)
     \<and> td_committed st' ! b = td_committed st ! b @ cut_at_eos eos_id (take (accs ! b) (block n b (td_draft st)))"
proof -
  let ?bs = "length prefix0" and ?B = "n * (n + 1)" and ?acc = "accs ! b"
  let ?blk = "block ?B b xs"
  have M: "block_size (td_alg st) = n" "length (td_committed st) = ?bs" "length (td_found_eos st) = ?bs" "length (td_draft st) = ?bs * n"
    "td_prefix st = map (\<lambda>j. prefix0 ! j + length (td_committed st ! j)) [0..<?bs]"
    "\<And>j. j < ?bs \<Longrightarrow> length (td_committed st ! j) \<le> n \<and> committed_ok eos_id (td_found_eos st ! j) (td_committed st ! j)"
    "inv (td_kv st)" "ready (td_kv st)"
    "owns U (pages (td_kv st)) (concat (map (td_kept e prefix0 st) [0..<?bs]) @ concat (map (\<lambda>j. block ?B j xs) [b..<?bs]))"
    "\<And>j i. b \<le> j \<Longrightarrow> j < ?bs \<Longrightarrow> i < ?B \<Longrightarrow>
       td_rtt st ! (row_at (td_rows e) (td_pool_len e) j + prefix0 ! j + length (td_committed st ! j) + i) = block ?B j xs ! i"
    using mid unfolding td_mid_def Let_def by blast+
  have lblk: "length ?blk = ?B" using length_block_full [OF xs b] .
  have up: "[b..<?bs] = b # [Suc b..<?bs]" using b by (simp add: upt_conv_Cons)
  define K where "K = concat (map (td_kept e prefix0 st) [0..<?bs])"
  define R where "R = concat (map (\<lambda>j. block ?B j xs) [Suc b..<?bs])"
  have own: "owns U (pages (td_kv st)) (K @ ?blk @ R)" using M(9) unfolding up K_def R_def by simp
  have free_part: "\<exists>s. free (drop k ?blk) (td_kv st) = Inr s \<and> inv s \<and> ready s
      \<and> owns U (pages s) (K @ take k ?blk @ R)" for k
  proof -
    have "mset (K @ ?blk @ R) = mset K + (mset (take k ?blk) + mset (drop k ?blk)) + mset R"
      by (metis append_take_drop_id mset_append union_assoc)
    then have "mset ((K @ take k ?blk @ R) @ drop k ?blk) = mset (K @ ?blk @ R)" unfolding mset_append by (simp only: union_ac)
    then have part: "owns U (pages (td_kv st)) ((K @ take k ?blk @ R) @ drop k ?blk)" using own owns_perm by blast
    note rel = owns_release [OF part]
    have "distinct (drop k ?blk)" "set (drop k ?blk) \<inter> pages (td_kv st) = {}"
      using part by (auto simp: owns_def)
    then obtain s where "free (drop k ?blk) (td_kv st) = Inr s" "inv s" "pages s = pages (td_kv st) \<union> set (drop k ?blk)"
      using free_ok [OF M(7), of "drop k ?blk"] by (auto simp: units_slots)
    then show ?thesis using rel free_ready [OF M(8)] by metis
  qed
  show ?thesis
  proof (cases "?acc = 0")
    case True
    obtain s where s: "free ?blk (td_kv st) = Inr s" "inv s" "ready s" "owns U (pages s) (K @ R)"
      using free_part [of 0] by auto
    have post: "td_post e eos_id xs l accs st b = Inr (st\<lparr>td_kv := s\<rparr>)"
      unfolding td_post_def Let_def M(1) e using True s(1) by simp
    have kept: "td_kept e prefix0 (st\<lparr>td_kv := s\<rparr>) = td_kept e prefix0 st" by (simp add: td_kept_def fun_eq_iff)
    have "td_mid inv ready pages e U n prefix0 eos_id xs (Suc b) (st\<lparr>td_kv := s\<rparr>)"
      unfolding td_mid_def Let_def kept using M s K_def R_def by simp
    then show ?thesis using post True by auto
  next
    case False
    let ?ys = "take ?acc (block n b (td_draft st))" and ?c = "td_committed st ! b"
    have ldr: "length (block n b (td_draft st)) = n" using length_block_full [OF M(4) b] .
    have accn: "?acc \<le> n" "length ?c + ?acc \<le> n" using acc(2) by simp_all
    have ys: "length ?ys = ?acc" using ldr accn by simp
    then have yne: "?ys \<noteq> []" using False by auto
    have nf: "\<not> td_found_eos st ! b" using acc(1) False by auto
    let ?hit = "case eos_id of Some x \<Rightarrow> x \<in> set ?ys | None \<Rightarrow> False" and ?cut = "cut_at_eos eos_id ?ys"
    have k: "(if ?hit then length ?cut else ?acc) = length ?cut"
      using cut_at_eos_props(4) [where eos_id = eos_id and ys = ?ys] ys by (cases ?hit) auto
    have kle: "length ?cut \<le> ?acc" "length ?cut < ?B"
      using cut_at_eos_props(1) [where eos_id = eos_id and ys = ?ys] ys accn n by (auto intro: order_le_less_trans [of _ n])
    obtain s where s: "free (drop (length ?cut) ?blk) (td_kv st) = Inr s" "inv s" "ready s"
      "owns U (pages s) (K @ take (length ?cut) ?blk @ R)"
      using free_part by blast
    let ?nd = "map (\<lambda>row. int (argmax (td_softmax e row))) (take n (drop (b * ?B + min ?acc n * n) l))"
    define st' where "st' = st\<lparr>td_found_eos := (if ?hit then (td_found_eos st)[b := True] else td_found_eos st),
        td_committed := (td_committed st)[b := ?c @ ?cut], td_kv := s,
        td_prefix := (td_prefix st)[b := td_prefix st ! b + length ?cut], td_draft := put_slice (b * n) ?nd (td_draft st)\<rparr>"
    have post: "td_post e eos_id xs l accs st b = Inr st'"
      unfolding td_post_def Let_def M(1) e if_not_P [OF False] k using kle(2) s(1) by (simp add: st'_def)
    have keptj: "td_kept e prefix0 st' j = td_kept e prefix0 st j" if "j \<noteq> b" for j
      using that by (simp add: td_kept_def st'_def)
    have keptb: "td_kept e prefix0 st' b = td_kept e prefix0 st b @ take (length ?cut) ?blk"
    proof -
      have "td_kept e prefix0 st' b = map (\<lambda>i. td_rtt st ! (row_at (td_rows e) (td_pool_len e) b + prefix0 ! b + i))
          [0..<length ?c + length ?cut]"
        using b M(2) by (simp add: td_kept_def st'_def)
      also have "\<dots> = td_kept e prefix0 st b
          @ map (\<lambda>i. td_rtt st ! (row_at (td_rows e) (td_pool_len e) b + prefix0 ! b + i)) [length ?c..<length ?c + length ?cut]"
        unfolding upt_add_eq_append [OF le0] by (simp add: td_kept_def)
      also have "map (\<lambda>i. td_rtt st ! (row_at (td_rows e) (td_pool_len e) b + prefix0 ! b + i)) [length ?c..<length ?c + length ?cut]
          = take (length ?cut) ?blk"
        using M(10) [OF order_refl b] kle lblk by (intro nth_equalityI) (auto simp: add.assoc)
      finally show ?thesis .
    qed
    have "mset (concat (map (td_kept e prefix0 st') [0..<?bs])) = mset K + mset (take (length ?cut) ?blk)"
      unfolding K_def using keptj keptb by (intro mset_concat_upd [OF b]) simp_all
    then have "owns U (pages s) (concat (map (td_kept e prefix0 st') [0..<?bs]) @ R)"
      using s(4) by (subst owns_perm [of _ "K @ take (length ?cut) ?blk @ R"]) (simp_all add: union_ac)
    moreover have "td_prefix st' = map (\<lambda>j. prefix0 ! j + length (td_committed st' ! j)) [0..<?bs]"
      using b M(2,5) by (intro nth_equalityI) (auto simp: st'_def nth_list_update)
    moreover have "committed_ok eos_id ?hit (?c @ ?cut)"
      using committed_ok_append [OF _ yne] M(6) [OF b] nf by simp
    then have "\<forall>j<?bs. length (td_committed st' ! j) \<le> n \<and> committed_ok eos_id (td_found_eos st' ! j) (td_committed st' ! j)"
      using M(2,3,6) b nf accn kle(1) by (auto simp: st'_def nth_list_update)
    moreover have "td_rtt st' ! (row_at (td_rows e) (td_pool_len e) j + prefix0 ! j + length (td_committed st' ! j) + i) = block ?B j xs ! i"
      if "Suc b \<le> j" "j < ?bs" "i < ?B" for i j
      using M(10) [of j i] that by (simp add: st'_def)
    ultimately have "td_mid inv ready pages e U n prefix0 eos_id xs (Suc b) st'"
      unfolding td_mid_def Let_def using M(1-4) s(2,3) R_def by (simp add: st'_def)
    moreover have "td_committed st' ! b = ?c @ ?cut" using b M(2) by (simp add: st'_def)
    moreover have "\<forall>j<?bs. j \<noteq> b \<longrightarrow> td_committed st' ! j = td_committed st ! j \<and> td_found_eos st' ! j = td_found_eos st ! j"
      by (simp add: st'_def)
    moreover have "td_alg st' = td_alg st" "td_rtt st' = td_rtt st" by (simp_all add: st'_def)
    ultimately show ?thesis using post by blast
  qed
qed

lemma posts_ok:
  assumes e: "td_free e = free" and n: "0 < n" and xs: "length xs = length prefix0 * (n * (n + 1))"
    and l: "length prefix0 * (n * (n + 1)) \<le> length l" and b: "b \<le> length prefix0"
    and mid: "td_mid inv ready pages e U n prefix0 eos_id xs b st"
    and acc: "\<And>j. b \<le> j \<Longrightarrow> j < length prefix0 \<Longrightarrow>
      (td_found_eos st ! j \<longrightarrow> accs ! j = 0) \<and> accs ! j + length (td_committed st ! j) \<le> n"
  shows "\<exists>st'. td_posts e eos_id xs l accs [b..<length prefix0] st = Inr st'
     \<and> td_mid inv ready pages e U n prefix0 eos_id xs (length prefix0) st'
     \<and> td_alg st' = td_alg st \<and> td_rtt st' = td_rtt st
     \<and> (\<forall>j<length prefix0. (\<exists>ys. td_committed st' ! j = td_committed st ! j @ ys)
          \<and> (b \<le> j \<and> 1 \<le> accs ! j \<longrightarrow> length (td_committed st ! j) < length (td_committed st' ! j)))"
  using b mid acc
proof (induction "length prefix0 - b" arbitrary: b st)
  case 0
  then show ?case by simp
next
  case (Suc d)
  then have b: "b < length prefix0" "[b..<length prefix0] = b # [Suc b..<length prefix0]" by (auto simp: upt_conv_Cons)
  obtain st1 where 1: "td_post e eos_id xs l accs st b = Inr st1" "td_mid inv ready pages e U n prefix0 eos_id xs (Suc b) st1"
    "td_alg st1 = td_alg st" "td_rtt st1 = td_rtt st"
    "\<forall>j<length prefix0. j \<noteq> b \<longrightarrow> td_committed st1 ! j = td_committed st ! j \<and> td_found_eos st1 ! j = td_found_eos st ! j"
    "td_committed st1 ! b = td_committed st ! b @ cut_at_eos eos_id (take (accs ! b) (block n b (td_draft st)))"
    using post_ok [OF e n b(1) xs Suc.prems(2) l, of accs] Suc.prems(3) [OF order_refl b(1)] by auto
  have acc1: "(td_found_eos st1 ! j \<longrightarrow> accs ! j = 0) \<and> accs ! j + length (td_committed st1 ! j) \<le> n"
    if "Suc b \<le> j" "j < length prefix0" for j
    using Suc.prems(3) [of j] 1(5) that by simp
  have "d = length prefix0 - Suc b" "Suc b \<le> length prefix0" using Suc.hyps(2) b(1) by simp_all
  then obtain st2 where 2: "td_posts e eos_id xs l accs [Suc b..<length prefix0] st1 = Inr st2"
    "td_mid inv ready pages e U n prefix0 eos_id xs (length prefix0) st2" "td_alg st2 = td_alg st1" "td_rtt st2 = td_rtt st1"
    "\<forall>j<length prefix0. (\<exists>ys. td_committed st2 ! j = td_committed st1 ! j @ ys)
       \<and> (Suc b \<le> j \<and> 1 \<le> accs ! j \<longrightarrow> length (td_committed st1 ! j) < length (td_committed st2 ! j))"
    using Suc.hyps(1) [of "Suc b" st1] 1(2) acc1 by blast
  have "length (td_draft st) = length prefix0 * n" using Suc.prems(2) by (simp add: td_mid_def Let_def)
  then have "block n b (td_draft st) \<noteq> []" using length_block_full [OF _ b(1), of "td_draft st" n] n by auto
  then have grow: "1 \<le> accs ! b \<Longrightarrow> length (td_committed st ! b) < length (td_committed st1 ! b)"
    using 1(6) by (simp add: Suc_le_eq)
  have "(\<exists>ys. td_committed st2 ! j = td_committed st ! j @ ys)
      \<and> (b \<le> j \<and> 1 \<le> accs ! j \<longrightarrow> length (td_committed st ! j) < length (td_committed st2 ! j))" if j: "j < length prefix0" for j
  proof (cases "j = b")
    case True
    obtain ys where ys: "td_committed st2 ! b = td_committed st1 ! b @ ys" using 2(5) b(1) by blast
    have "1 \<le> accs ! b \<longrightarrow> length (td_committed st ! b) < length (td_committed st2 ! b)" unfolding ys length_append using grow by linarith
    moreover have "\<exists>zs. td_committed st2 ! b = td_committed st ! b @ zs" unfolding ys 1(6) append_assoc by blast
    ultimately show ?thesis unfolding True by blast
  next
    case False
    then have "td_committed st1 ! j = td_committed st ! j" "b \<le> j \<longrightarrow> Suc b \<le> j" using 1(5) j by auto
    then show ?thesis using 2(5) [rule_format, OF j] by auto
  qed
  then show ?case using 1(1,3,4) 2(1-4) unfolding b(2) by auto
qed

end

end
