(* ===== verification/Tidar_Run.thy ===== *)
theory Tidar_Run
  imports Tidar_Correct
begin

text \<open>
  The decode loop of TiDAR as a whole: one iteration, the bounded loop and \<open>run\<close>, over any
  allocator that keeps the contract of \<open>kv_slot_pool\<close>, and then over the token allocator.
\<close>

text \<open>What the run needs: the model gives a row of logits for each token, the buffers are those of \<open>init_pool\<close>.\<close>

definition td_env_ok :: "('s, 'm) td_env \<Rightarrow> bool" where
  "td_env_ok e \<longleftrightarrow> (\<forall>m fb. length (fst (fst (td_forward e m fb))) = length (tb_input_ids fb))"

definition pool_ok :: "nat \<Rightarrow> nat \<Rightarrow> tidar_pool \<Rightarrow> bool" where
  "pool_ok bs B pool \<longleftrightarrow> bs * B \<le> length (pool_positions pool) \<and> bs * B \<le> length (pool_draft_tokens pool)
     \<and> bs * (B * (8192 + B)) \<le> length (pool_custom_mask pool)"

text \<open>The prompts leave room in their rows of \<open>req_to_token\<close> and in the mask buffer.\<close>

definition prefix_room :: "nat \<Rightarrow> nat \<Rightarrow> nat list \<Rightarrow> bool" where
  "prefix_room n L prefix0 \<longleftrightarrow> (\<forall>p\<in>set prefix0. p + n + n * (n + 1) \<le> L \<and> p + n \<le> 8192)"

lemma accept_count_bounds:
  assumes "0 < n"
  shows "r \<le> 0 \<Longrightarrow> accept_count n r ts pd = 0"
    and "0 < r \<Longrightarrow> 1 \<le> accept_count n r ts pd \<and> int (accept_count n r ts pd) \<le> r"
proof -
  show "accept_count n r ts pd = 0" if "r \<le> 0" using that by (simp add: accept_count_def)
  assume r: "0 < r"
  define nv where "nv = nat (min (int n) r)"
  define ms where "ms = map2 (=) (take (nv - 1) ts) (take (nv - 1) (drop 1 pd))"
  have nv: "1 \<le> nv" "int nv \<le> r" using r assms by (auto simp: nv_def)
  have acc: "accept_count n r ts pd = (if False \<in> set ms then 1 + length (takeWhile (\<lambda>b. b) ms) else nv)"
    unfolding accept_count_def Let_def nv_def [symmetric] ms_def [symmetric] using r by simp
  have "length (takeWhile (\<lambda>b. b) ms) < length ms" if "False \<in> set ms"
  proof -
    have "takeWhile (\<lambda>b. b) ms \<noteq> ms" using that by (metis takeWhile_eq_all_conv)
    then show ?thesis by (metis length_takeWhile_le le_neq_implies_less takeWhile_eq_take take_all order_refl)
  qed
  moreover have "length ms \<le> nv - 1" by (simp add: ms_def)
  ultimately have "False \<in> set ms \<longrightarrow> 1 + length (takeWhile (\<lambda>b. b) ms) \<le> nv" using nv(1) by linarith
  then show "1 \<le> accept_count n r ts pd \<and> int (accept_count n r ts pd) \<le> r" using nv unfolding acc by auto
qed

lemma length_reference_draft:
  assumes "length prev = length sl * n"
  shows "length (fst (build_tidar_positions_and_mask_decode sl n prev msk None None None)) = length sl * (n * (n + 1))"
proof -
  have "length (concat (map (\<lambda>b. block n b prev @ replicate (n * n) msk) [0..<length sl])) = length [0..<length sl] * (n * (n + 1))"
    using length_block_full [OF assms] by (intro length_concat_const) simp
  then show ?thesis by (simp add: build_tidar_positions_and_mask_decode_def Let_def)
qed

lemma pooled_build:
  assumes "0 < n" and "length draft = bs * n" and "length prefix = bs"
    and le: "\<And>p. p \<in> set prefix \<Longrightarrow> p \<le> 8192" and pool: "pool_ok bs (n * (n + 1)) pool"
  shows "\<exists>pool'. build_tidar_decode_inputs_pooled prefix (map int prefix) n (n * (n + 1)) msk draft
        (build_tidar_position_offsets n) (build_tidar_draft_mask n) pool
      = Inr (build_tidar_positions_and_mask_decode prefix n draft msk None None None, pool')
     \<and> pool_ok bs (n * (n + 1)) pool'"
proof -
  define B where "B = n * (n + 1)"
  have "sum_list (map (\<lambda>p. B * (p + B)) prefix) \<le> sum_list (map (\<lambda>_. B * (8192 + B)) prefix)"
    by (intro sum_list_mono mult_le_mono2) (simp add: le)
  also have "\<dots> = bs * (B * (8192 + B))" using assms(3) by (simp add: sum_list_triv)
  also have "\<dots> \<le> length (pool_custom_mask pool)" using pool unfolding pool_ok_def B_def by (elim conjE)
  finally have m: "sum_list (map (\<lambda>p. B * (p + B)) prefix) \<le> length (pool_custom_mask pool)" .
  have l: "length draft = length prefix * n" "length prefix * B \<le> length (pool_positions pool)"
    "length prefix * B \<le> length (pool_draft_tokens pool)"
    using assms(2,3) pool unfolding pool_ok_def B_def by blast+
  show ?thesis
    using pooled_builder [OF assms(1) l [unfolded B_def] m [unfolded B_def], of msk] pool unfolding pool_ok_def by metis
qed

text \<open>A batch that fits the request table: a row for each request, the whole block in the input, and its slots in use.\<close>

definition td_batch_ok :: "('s, 'm) td_env \<Rightarrow> tidar \<Rightarrow> td_input \<Rightarrow> int list \<Rightarrow> bool" where
  "td_batch_ok e a x rtt \<longleftrightarrow> 0 < block_size a \<and> length (in_ids x) = length (in_prefix_lens x) * block_size a
     \<and> mask_id a \<in> set (in_ids x) \<and> length (td_rows e) = length (in_prefix_lens x)
     \<and> rows_ok (td_rows e) (td_pool_len e) rtt \<and> prefix_room (block_size a) (td_pool_len e) (in_prefix_lens x)
     \<and> pool_ok (pool_max_bs a) (block_size a * (block_size a + 1)) (td_pool a)"

definition td_room :: "tidar \<Rightarrow> td_input \<Rightarrow> int set \<Rightarrow> bool" where
  "td_room a x U \<longleftrightarrow> block_size a \<le> max_quad_iters a
     \<and> length (in_prefix_lens x) * block_size a + block_size a * (block_size a + 1) * length (in_prefix_lens x) \<le> card U"

lemma pool_grown:
  assumes "pool_ok (pool_max_bs a) B (td_pool a)"
  shows "pool_ok bs B (td_pool (if bs > pool_max_bs a then init_pool gi gb bs B a else a))"
proof (cases "bs > pool_max_bs a")
  case False
  then have le: "bs * k \<le> pool_max_bs a * k" for k by simp
  show ?thesis
    using assms le [of B] le [of "B * (8192 + B)"] unfolding pool_ok_def if_not_P [OF False] by linarith
qed (simp add: pool_ok_def init_pool_def Let_def)

context kv_slot_pool
begin

lemma step_ok:
  assumes ops: "td_alloc e = alloc" "td_free e = free" and n: "0 < n" and env: "td_env_ok e"
    and mid: "td_mid inv ready pages e U n prefix0 eos_id xs0 (length prefix0) st"
    and rows: "rows_ok (td_rows e) (td_pool_len e) (td_rtt st)" "length (td_rows e) = length prefix0"
    and room: "prefix_room n (td_pool_len e) prefix0"
    and pool: "pool_ok (length prefix0) (n * (n + 1)) (td_pool (td_alg st))"
  obtains oom st' xs where "td_step e eos_id st = Inr (oom, st')"
    "td_mid inv ready pages e U n prefix0 eos_id xs (length prefix0) st'"
    "rows_ok (td_rows e) (td_pool_len e) (td_rtt st')" "pool_ok (length prefix0) (n * (n + 1)) (td_pool (td_alg st'))"
    "oom \<Longrightarrow> card (pages (td_kv st)) < n * (n + 1) * length prefix0" "oom \<Longrightarrow> td_committed st' = td_committed st"
    "\<not> oom \<Longrightarrow> \<forall>j<length prefix0. (\<exists>ys. td_committed st' ! j = td_committed st ! j @ ys)
       \<and> (td_found_eos st ! j \<or> n \<le> length (td_committed st ! j) \<or> length (td_committed st ! j) < length (td_committed st' ! j))"
proof -
  let ?bs = "length prefix0" and ?B = "n * (n + 1)" and ?L = "td_pool_len e"
  have M: "block_size (td_alg st) = n" "length (td_committed st) = ?bs" "length (td_found_eos st) = ?bs" "length (td_draft st) = ?bs * n"
    "td_prefix st = map (\<lambda>j. prefix0 ! j + length (td_committed st ! j)) [0..<?bs]"
    "\<And>j. j < ?bs \<Longrightarrow> length (td_committed st ! j) \<le> n \<and> committed_ok eos_id (td_found_eos st ! j) (td_committed st ! j)"
    "inv (td_kv st)" "ready (td_kv st)"
    "owns U (pages (td_kv st)) (concat (map (td_kept e prefix0 st) [0..<?bs]))"
    using mid unfolding td_mid_def Let_def upt_rec [of ?bs ?bs] by simp_all
  have lp: "length (td_prefix st) = ?bs" unfolding M(5) by simp
  have pj: "td_prefix st ! j = prefix0 ! j + length (td_committed st ! j)" "td_prefix st ! j \<le> prefix0 ! j + n" if "j < ?bs" for j
    using that M(5,6) by auto
  have r0: "prefix0 ! j + n + ?B \<le> ?L" "prefix0 ! j + n \<le> 8192" if "j < ?bs" for j
    using room that unfolding prefix_room_def by auto
  have bounds: "p \<le> 8192 \<and> p + ?B \<le> ?L" if p: "p \<in> set (td_prefix st)" for p
  proof -
    obtain j where j: "j < ?bs" "td_prefix st ! j = p" using p unfolding in_set_conv_nth lp by blast
    show ?thesis using pj(2) [OF j(1)] r0 [OF j(1)] j(2) by linarith
  qed
  note le8192 = bounds [THEN conjunct1]
  obtain pool' where b: "build_tidar_decode_inputs_pooled (td_prefix st) (map int (td_prefix st)) n ?B (mask_id (td_alg st)) (td_draft st)
        (build_tidar_position_offsets n) (build_tidar_draft_mask n) (td_pool (td_alg st))
      = Inr (build_tidar_positions_and_mask_decode (td_prefix st) n (td_draft st) (mask_id (td_alg st)) None None None, pool')"
    "pool_ok ?bs ?B pool'"
    using pooled_build [OF n M(4) lp le8192 pool] by blast
  obtain draft positions custom_mask where inp:
    "build_tidar_positions_and_mask_decode (td_prefix st) n (td_draft st) (mask_id (td_alg st)) None None None = (draft, positions, custom_mask)"
    by (metis surj_pair)
  have ld: "length draft = ?bs * ?B"
    using length_reference_draft [of "td_draft st" "td_prefix st" n "mask_id (td_alg st)"] M(4) unfolding lp inp by simp
  obtain slots s where al: "alloc (?B * ?bs) (td_kv st) = Inr (slots, s)" using alloc_total [of "?B * ?bs" "td_kv st"] by (metis surj_pair)
  define st1 where "st1 = st\<lparr>td_alg := (td_alg st)\<lparr>td_pool := pool'\<rparr>, td_kv := s\<rparr>"
  show ?thesis
  proof (cases slots)
    case None
    then have s: "inv s" "pages s = pages (td_kv st)" "ready s"
      using alloc_none [OF M(7)] al alloc_ready [OF M(8)] by blast+
    have step: "td_step e eos_id st = Inr (True, st1)"
      unfolding td_step_def Let_def M(1) lp b(1) inp rbind_Inr prod.case ops using al None by (simp add: st1_def)
    have kept: "td_kept e prefix0 st1 = td_kept e prefix0 st" by (simp add: td_kept_def st1_def fun_eq_iff)
    have "td_mid inv ready pages e U n prefix0 eos_id [] ?bs st1"
      unfolding td_mid_def Let_def kept using M s by (simp add: st1_def)
    moreover have "card (pages (td_kv st)) < ?B * ?bs"
      using alloc_fits [OF M(7,8), of "?B * ?bs"] al None by fastforce
    ultimately show ?thesis using that [OF step] rows b(2) by (simp add: st1_def)
  next
    case (Some xs)
    have s: "inv s" "ready s" "distinct xs" "pages (td_kv st) = pages s \<union> set xs" "pages s \<inter> set xs = {}" "length xs = ?bs * ?B"
      using alloc_some [OF M(7)] al Some alloc_ready [OF M(8)] alloc_length [of "?B * ?bs"] units_slots by (fastforce simp: mult.commute)+
    define rtt where "rtt = assign_req_to_token_pool_func (td_rows e) (map int (td_prefix st)) (map (\<lambda>p. int (p + ?B)) (td_prefix st))
        xs (int ?L) ?bs (td_rtt st)"
    have fits: "\<forall>p\<in>set (td_prefix st). p + ?B \<le> ?L" using bounds by blast
    note A = assign_func_props [OF rows(1) rows(2) lp s(6) fits, folded rtt_def]
    define fb where "fb = \<lparr>tb_mode = TARGET_VERIFY, tb_input_ids = draft, tb_positions = positions, tb_out_cache_loc = xs,
        tb_seq_lens = td_prefix st, tb_spec_info = Some (tidar_input_init draft positions custom_mask ?B None (td_prefix st))\<rparr>"
    obtain l g m where f: "td_forward e (td_model st) fb = ((l, g), m)" by (metis surj_pair)
    have ll: "length l = ?bs * ?B" using env f ld unfolding td_env_ok_def by (metis fst_conv fb_def td_batch.select_convs(2))
    define a' where "a' = (td_alg st)\<lparr>td_pool := pool', td_forward_passes := td_forward_passes (td_alg st) + 1,
        td_cg_forwards := (if g then td_cg_forwards (td_alg st) + 1 else td_cg_forwards (td_alg st)),
        td_eager_forwards := (if g then td_eager_forwards (td_alg st) else td_eager_forwards (td_alg st) + 1)\<rparr>"
    define st2 where "st2 = st1\<lparr>td_alg := a', td_rtt := rtt, td_model := m, td_logits := l\<rparr>"
    define accs where "accs = map (\<lambda>b. accept_count n (td_remaining n st2 b) (map (target_argmax a' (take (?bs * ?B) l) b) [0..<n])
        (block n b (td_draft st2))) [0..<?bs]"
    have step: "td_step e eos_id st = rbind (td_posts e eos_id xs (take (?bs * ?B) l) accs [0..<?bs] st2) (\<lambda>st. Inr (False, st))"
      unfolding td_step_def Let_def M(1) lp b(1) inp rbind_Inr prod.case ops
      using f al Some by (simp add: fb_def rtt_def accs_def st2_def st1_def a'_def)
    have kept: "td_kept e prefix0 st2 j = td_kept e prefix0 st j" if "j < ?bs" for j
      using A(3) [OF that] pj(1) [OF that] by (simp add: td_kept_def st2_def st1_def add.assoc)
    have keptm: "map (td_kept e prefix0 st2) [0..<?bs] = map (td_kept e prefix0 st) [0..<?bs]" using kept by simp
    have "owns U (pages s) (concat (map (td_kept e prefix0 st2) [0..<?bs]) @ concat (map (\<lambda>j. block ?B j xs) [0..<?bs]))"
      unfolding concat_blocks [OF s(6)] keptm using owns_take [OF M(9) s(4,5,3)] .
    moreover have "rtt ! (row_at (td_rows e) ?L j + prefix0 ! j + length (td_committed st ! j) + i) = block ?B j xs ! i"
      if "j < ?bs" "i < ?B" for j i
      using A(2) [OF that] pj(1) [OF that(1)] by (simp add: add.assoc)
    ultimately have mid2: "td_mid inv ready pages e U n prefix0 eos_id xs 0 st2"
      unfolding td_mid_def Let_def using M(1-6) s(1,2) by (simp add: st2_def st1_def a'_def)
    have acc: "(td_found_eos st2 ! j \<longrightarrow> accs ! j = 0) \<and> accs ! j + length (td_committed st2 ! j) \<le> n
        \<and> (td_found_eos st ! j \<or> n \<le> length (td_committed st ! j) \<or> 1 \<le> accs ! j)" if j: "j < ?bs" for j
    proof -
      have same: "td_found_eos st2 = td_found_eos st" "td_committed st2 = td_committed st" by (simp_all add: st2_def st1_def)
      have aj: "accs ! j = accept_count n (td_remaining n st2 j) (map (target_argmax a' (take (?bs * ?B) l) j) [0..<n]) (block n j (td_draft st2))"
        using j by (simp add: accs_def)
      have le: "length (td_committed st ! j) \<le> n" using M(6) [OF j] by (rule conjunct1)
      show ?thesis
      proof (cases "td_found_eos st ! j \<or> n \<le> length (td_committed st ! j)")
        case True
        then have "td_remaining n st2 j \<le> 0" unfolding td_remaining_def same by auto
        then have "accs ! j = 0" unfolding aj by (rule accept_count_bounds(1) [OF n])
        then show ?thesis using True le unfolding same by simp
      next
        case False
        then have r: "0 < td_remaining n st2 j" "td_remaining n st2 j = int n - int (length (td_committed st ! j))"
          unfolding td_remaining_def same by auto
        have "1 \<le> accs ! j \<and> int (accs ! j) \<le> td_remaining n st2 j"
          unfolding aj by (rule accept_count_bounds(2) [OF n r(1)])
        then show ?thesis using False r(2) unfolding same by linarith
      qed
    qed
    have acc2: "(td_found_eos st2 ! j \<longrightarrow> accs ! j = 0) \<and> accs ! j + length (td_committed st2 ! j) \<le> n" if "0 \<le> j" "j < ?bs" for j
      using acc [OF that(2)] by blast
    obtain st3 where 3: "td_posts e eos_id xs (take (?bs * ?B) l) accs [0..<?bs] st2 = Inr st3"
      "td_mid inv ready pages e U n prefix0 eos_id xs ?bs st3" "td_alg st3 = td_alg st2" "td_rtt st3 = td_rtt st2"
      "\<forall>j<?bs. (\<exists>ys. td_committed st3 ! j = td_committed st2 ! j @ ys)
        \<and> (1 \<le> accs ! j \<longrightarrow> length (td_committed st2 ! j) < length (td_committed st3 ! j))"
      using posts_ok [OF ops(2) n s(6) _ le0 mid2 acc2, of "take (?bs * ?B) l"] ll by auto
    have "rows_ok (td_rows e) ?L (td_rtt st3)" using rows(1) A(1) unfolding 3(4) by (simp add: st2_def rows_ok_def)
    moreover have "pool_ok ?bs ?B (td_pool (td_alg st3))" using b(2) unfolding 3(3) by (simp add: st2_def a'_def)
    moreover have "td_committed st2 = td_committed st" by (simp add: st2_def st1_def)
    ultimately show ?thesis using that [of False st3 xs] step 3(1,2,5) acc by force
  qed
qed

lemma kept_bound:
  assumes inv: "inv s" and own: "owns U (pages s) (concat (map (td_kept e prefix0 st) [0..<bs]))"
    and le: "\<And>j. j < bs \<Longrightarrow> length (td_committed st ! j) \<le> n"
  shows "card U \<le> card (pages s) + bs * n"
proof -
  have "length (concat (map (td_kept e prefix0 st) [0..<bs])) \<le> sum_list (map (\<lambda>_. n) [0..<bs])"
    unfolding length_concat map_map by (intro sum_list_mono) (simp add: td_kept_def le)
  then have "length (concat (map (td_kept e prefix0 st) [0..<bs])) \<le> bs * n" by (simp add: sum_list_triv)
  moreover have "card U \<le> card (set (concat (map (td_kept e prefix0 st) [0..<bs]))) + card (pages s)"
    using own unfolding owns_def by (metis card_Un_le)
  ultimately show ?thesis using card_length [of "concat (map (td_kept e prefix0 st) [0..<bs])"] by linarith
qed

lemma loop_ok:
  assumes ops: "td_alloc e = alloc" "td_free e = free" and n: "0 < n" and env: "td_env_ok e"
    and rl: "length (td_rows e) = length prefix0" and room: "prefix_room n (td_pool_len e) prefix0"
  shows "td_mid inv ready pages e U n prefix0 eos_id xs (length prefix0) st \<Longrightarrow> rows_ok (td_rows e) (td_pool_len e) (td_rtt st)
    \<Longrightarrow> pool_ok (length prefix0) (n * (n + 1)) (td_pool (td_alg st))
    \<Longrightarrow> \<exists>st' xs. td_loop e eos_id k st = Inr st' \<and> td_mid inv ready pages e U n prefix0 eos_id xs (length prefix0) st'
      \<and> (\<forall>j<length prefix0. (\<exists>ys. td_committed st' ! j = td_committed st ! j @ ys))
      \<and> (length prefix0 * n + n * (n + 1) * length prefix0 \<le> card U \<longrightarrow>
          (\<forall>j<length prefix0. td_found_eos st' ! j \<or> min n (length (td_committed st ! j) + k) \<le> length (td_committed st' ! j)))"
proof (induction k arbitrary: st xs)
  case 0
  then show ?case by auto
next
  case (Suc k)
  let ?bs = "length prefix0" and ?B = "n * (n + 1)"
  have M: "block_size (td_alg st) = n" "length (td_committed st) = ?bs"
    "\<And>j. j < ?bs \<Longrightarrow> length (td_committed st ! j) \<le> n"
    "inv (td_kv st)" "owns U (pages (td_kv st)) (concat (map (td_kept e prefix0 st) [0..<?bs]))"
    using Suc.prems(1) unfolding td_mid_def Let_def upt_rec [of ?bs ?bs] by simp_all
  show ?case
  proof (cases "\<forall>c\<in>set (td_committed st). n \<le> length c")
    case True
    then have "\<forall>j<?bs. n \<le> length (td_committed st ! j)" using M(2) by simp
    then show ?thesis using True Suc.prems(1) M(1) by fastforce
  next
    case False
    obtain oom st1 xs1 where 1: "td_step e eos_id st = Inr (oom, st1)"
      "td_mid inv ready pages e U n prefix0 eos_id xs1 ?bs st1"
      "rows_ok (td_rows e) (td_pool_len e) (td_rtt st1)" "pool_ok ?bs ?B (td_pool (td_alg st1))"
      "oom \<Longrightarrow> card (pages (td_kv st)) < ?B * ?bs" "oom \<Longrightarrow> td_committed st1 = td_committed st"
      "\<not> oom \<Longrightarrow> \<forall>j<?bs. (\<exists>ys. td_committed st1 ! j = td_committed st ! j @ ys)
         \<and> (td_found_eos st ! j \<or> n \<le> length (td_committed st ! j) \<or> length (td_committed st ! j) < length (td_committed st1 ! j))"
      using step_ok [OF ops n env Suc.prems(1,2) rl room Suc.prems(3)] by metis
    show ?thesis
    proof (cases oom)
      case True
      have "td_loop e eos_id (Suc k) st = Inr st1" unfolding td_loop.simps(2) M(1) if_not_P [OF False] 1(1) using True by simp
      moreover have "\<not> ?bs * n + ?B * ?bs \<le> card U"
        using kept_bound [OF M(4,5,3)] 1(5) [OF True] by linarith
      ultimately show ?thesis using 1(2) 1(6) [OF True] by auto
    next
      case g: False
      obtain st2 xs2 where 2: "td_loop e eos_id k st1 = Inr st2" "td_mid inv ready pages e U n prefix0 eos_id xs2 ?bs st2"
        "\<forall>j<?bs. \<exists>ys. td_committed st2 ! j = td_committed st1 ! j @ ys"
        "?bs * n + ?B * ?bs \<le> card U \<longrightarrow>
          (\<forall>j<?bs. td_found_eos st2 ! j \<or> min n (length (td_committed st1 ! j) + k) \<le> length (td_committed st2 ! j))"
        using Suc.IH [OF 1(2-4)] by blast
      have "td_loop e eos_id (Suc k) st = Inr st2" unfolding td_loop.simps(2) M(1) if_not_P [OF False] 1(1) using g 2(1) by simp
      moreover have ext: "\<exists>ys. td_committed st2 ! j = td_committed st ! j @ ys" if "j < ?bs" for j
        using 1(7) [OF g, rule_format, OF that] 2(3) [rule_format, OF that] by (metis append_assoc)
      moreover have "td_found_eos st2 ! j \<or> min n (length (td_committed st ! j) + Suc k) \<le> length (td_committed st2 ! j)"
        if c: "?bs * n + ?B * ?bs \<le> card U" and j: "j < ?bs" for j
      proof -
        have len: "length (td_committed st ! j) \<le> length (td_committed st2 ! j)" using ext [OF j] by (metis le_add1 length_append)
        have "committed_ok eos_id (td_found_eos st ! j) (td_committed st ! j)" "committed_ok eos_id (td_found_eos st2 ! j) (td_committed st2 ! j)"
          using Suc.prems(1) 2(2) j unfolding td_mid_def Let_def by blast+
        then have "td_found_eos st ! j \<longrightarrow> td_found_eos st2 ! j"
          unfolding committed_ok_def using ext [OF j] by (metis UnI1 set_append)
        then show ?thesis
          using 1(7) [OF g, rule_format, OF j] 2(4) [rule_format, OF c j] len by linarith
      qed
      ultimately show ?thesis using 2(2) by blast
    qed
  qed
qed

lemma run_ok:
  assumes ops: "td_alloc e = alloc" "td_free e = free" and env: "td_env_ok e" and x: "td_batch_ok e a x rtt"
    and kv: "inv kv" "ready kv" "distinct (in_out_cache_loc x)" "set (in_out_cache_loc x) \<inter> pages kv = {}"
  defines "U \<equiv> pages kv \<union> set (in_out_cache_loc x)" and "bs \<equiv> length (in_prefix_lens x)" and "n \<equiv> block_size a"
  shows "\<exists>l st'. td_run e eos_id gi gb x a kv rtt m = Inr ((Some l, td_committed st', False), st')
     \<and> length (td_committed st') = bs \<and> inv (td_kv st')
     \<and> owns U (pages (td_kv st')) (concat (map (td_kept e (in_prefix_lens x) st') [0..<bs]))
     \<and> (\<forall>j<bs. length (td_committed st' ! j) \<le> n
          \<and> (\<forall>y. eos_id = Some y \<longrightarrow> y \<notin> set (butlast (td_committed st' ! j)))
          \<and> (td_room a x U \<longrightarrow> length (td_committed st' ! j) = n \<or> (\<exists>y. eos_id = Some y \<and> y \<in> set (td_committed st' ! j))))"
proof -
  let ?p = "in_prefix_lens x" and ?B = "n * (n + 1)"
  define a1 where "a1 = (if bs > pool_max_bs a then init_pool gi gb bs ?B a else a)"
  have a1: "block_size a1 = n" "mask_id a1 = mask_id a" "max_quad_iters a1 = max_quad_iters a" by (simp_all add: a1_def init_pool_def Let_def n_def)
  have a1p: "pool_ok bs ?B (td_pool a1)"
    using pool_grown x unfolding td_batch_ok_def n_def a1_def by blast
  obtain l g m1 where f: "td_forward e m (td_extend_batch x) = ((l, g), m1)" by (metis surj_pair)
  have len: "length l = bs * n"
    using env x f unfolding td_env_ok_def td_batch_ok_def bs_def n_def by (metis fst_conv td_batch.select_convs(2) td_extend_batch_def)
  obtain kv1 where kv1: "free (in_out_cache_loc x) kv = Inr kv1" "inv kv1" "pages kv1 = U" "ready kv1"
    using free_ok [OF kv(1,3)] free_ready [OF kv(2)] kv(4) unfolding units_slots U_def by blast
  define st0 where "st0 = \<lparr>td_alg = a1\<lparr>td_forward_passes := td_forward_passes a1 + 1\<rparr>, td_kv = kv1, td_model = m1, td_rtt = rtt,
    td_committed = replicate bs [], td_found_eos = replicate bs False, td_prefix = ?p,
    td_draft = map (\<lambda>row. int (argmax (neg_inf_at (mask_id a1) (map Some row)))) l, td_logits = l\<rparr>"
  have "map (td_kept e ?p st0) [0..<bs] = map (\<lambda>_. []) [0..<bs]" by (simp add: td_kept_def st0_def)
  then have kept: "concat (map (td_kept e ?p st0) [0..<bs]) = []" by simp
  have pre: "map (\<lambda>j. ?p ! j + length ((replicate bs [] :: int list list) ! j)) [0..<bs] = ?p"
    by (intro nth_equalityI) (simp_all add: bs_def)
  have mid: "td_mid inv ready pages e U n ?p eos_id [] (length ?p) st0"
    unfolding td_mid_def Let_def kept [unfolded bs_def]
    using kv1 a1(1) len by (simp add: st0_def bs_def [symmetric] owns_def committed_ok_def pre)
  have "0 < n" "length (td_rows e) = length ?p" "prefix_room n (td_pool_len e) ?p"
    "rows_ok (td_rows e) (td_pool_len e) (td_rtt st0)" "pool_ok (length ?p) ?B (td_pool (td_alg st0))"
    using x a1p unfolding td_batch_ok_def by (simp_all add: n_def st0_def bs_def)
  then obtain st' xs where 1: "td_loop e eos_id (max_quad_iters a) st0 = Inr st'" "td_mid inv ready pages e U n ?p eos_id xs bs st'"
    "bs * n + ?B * bs \<le> card U \<longrightarrow>
      (\<forall>j<bs. td_found_eos st' ! j \<or> min n (length (td_committed st0 ! j) + max_quad_iters a) \<le> length (td_committed st' ! j))"
    using loop_ok [OF ops _ env _ _ mid] unfolding bs_def by blast
  have mask: "True \<in> set (mask_index (mask_id a1) (in_ids x))"
    using x a1(2) unfolding td_batch_ok_def by (auto simp: mask_index_def)
  have run: "td_run e eos_id gi gb x a kv rtt m = Inr ((Some (td_logits st'), td_committed st', False), st')"
    unfolding td_run_def Let_def bs_def [symmetric] n_def [symmetric] a1_def [symmetric] ops
    using mask f kv1(1) 1(1) a1(3) by (simp add: st0_def)
  have M: "length (td_committed st') = bs" "inv (td_kv st')"
    "owns U (pages (td_kv st')) (concat (map (td_kept e ?p st') [0..<bs]))"
    "\<And>j. j < bs \<Longrightarrow> length (td_committed st' ! j) \<le> n \<and> committed_ok eos_id (td_found_eos st' ! j) (td_committed st' ! j)"
    using 1(2) unfolding td_mid_def Let_def bs_def [symmetric] upt_rec [of bs bs] by simp_all
  have "length (td_committed st' ! j) = n \<or> (\<exists>y. eos_id = Some y \<and> y \<in> set (td_committed st' ! j))"
    if room: "td_room a x U" and j: "j < bs" for j
  proof -
    have "bs * n + ?B * bs \<le> card U" "n \<le> max_quad_iters a" using room unfolding td_room_def bs_def n_def by simp_all
    then have "td_found_eos st' ! j \<or> n \<le> length (td_committed st' ! j)" using 1(3) j by (fastforce simp: min_def)
    then show ?thesis using M(4) [OF j] unfolding committed_ok_def by auto
  qed
  then show ?thesis using run M unfolding committed_ok_def by blast
qed

end

section \<open>The run over the token allocator\<close>


text \<open>
  C19. When the iterations allow a token each and the pool has room for a quadratic step beside the tokens kept,
  a run fills the block of every request, unless it ends with the end-of-sequence token before.
\<close>

theorem td_run_fills:
  fixes e :: "(allocator, 'm) td_env"
  assumes "td_alloc e = (\<lambda>n s. Inr (tok_alloc n s))" and "td_free e = (\<lambda>xs s. Inr (tok_free xs s))" and "td_env_ok e"
    and "td_batch_ok e a x rtt"
    and "tok_inv kv" and "tok_ready kv" and "distinct (in_out_cache_loc x)" and "set (in_out_cache_loc x) \<inter> tok_pages kv = {}"
    and "td_room a x (tok_pages kv \<union> set (in_out_cache_loc x))"
  shows "\<exists>l ids st'. td_run e eos_id gi gb x a kv rtt m = Inr ((Some l, ids, False), st')
     \<and> length ids = length (in_prefix_lens x)
     \<and> (\<forall>c\<in>set ids. length c = block_size a \<or> (\<exists>y. eos_id = Some y \<and> c \<noteq> [] \<and> last c = y))"
proof -
  obtain l st' where 1: "td_run e eos_id gi gb x a kv rtt m = Inr ((Some l, td_committed st', False), st')"
    "length (td_committed st') = length (in_prefix_lens x)"
    "\<forall>j<length (in_prefix_lens x). (\<forall>y. eos_id = Some y \<longrightarrow> y \<notin> set (butlast (td_committed st' ! j)))
       \<and> (length (td_committed st' ! j) = block_size a \<or> (\<exists>y. eos_id = Some y \<and> y \<in> set (td_committed st' ! j)))"
    using slots.run_ok [OF assms(1-8), where eos_id = eos_id and gi = gi and gb = gb and m = m] assms(9) by blast
  have "length c = block_size a \<or> (\<exists>y. eos_id = Some y \<and> c \<noteq> [] \<and> last c = y)" if c: "c \<in> set (td_committed st')" for c
  proof -
    have c': "(\<forall>y. eos_id = Some y \<longrightarrow> y \<notin> set (butlast c)) \<and> (length c = block_size a \<or> (\<exists>y. eos_id = Some y \<and> y \<in> set c))"
      using c 1(2,3) by (metis in_set_conv_nth)
    moreover have "last c = y" if "y \<in> set c" "y \<notin> set (butlast c)" for y
      using that by (metis append_butlast_last_id empty_iff empty_set in_set_conv_decomp rotate1.simps(2) set_ConsD set_rotate1)
    ultimately show ?thesis by (metis empty_iff empty_set)
  qed
  then show ?thesis using 1(1,2) by blast
qed

section \<open>A run at a concrete batch\<close>

text \<open>One request with three cached tokens and a block of two masks; a model that always prefers token 7.\<close>

definition demo_td_env :: "(allocator, unit) td_env" where
  "demo_td_env = \<lparr>td_forward = (\<lambda>m fb. ((map (\<lambda>_. replicate 7 0 @ [1, 0]) (tb_input_ids fb), False), m)), td_softmax = id,
     td_alloc = (\<lambda>n s. Inr (tok_alloc n s)), td_free = (\<lambda>xs s. Inr (tok_free xs s)), td_pool_len = 20, td_rows = [0]\<rparr>"

definition demo_td :: tidar where
  "demo_td = \<lparr>block_size = 2, mask_id = 8, ar_mix_weight = None, accept_all = False, max_quad_iters = 2, td_causal_context = True,
     td_pool = \<lparr>pool_positions = [], pool_draft_tokens = [], pool_custom_mask = []\<rparr>, pool_max_bs = 0,
     td_forward_passes = 0, td_cg_forwards = 0, td_eager_forwards = 0\<rparr>"

definition demo_td_input :: td_input where
  "demo_td_input = \<lparr>in_ids = [8, 8], in_positions = [3, 4], in_out_cache_loc = [4, 5], in_seq_lens = [5], in_prefix_lens = [3]\<rparr>"

definition demo_td_kv :: allocator where
  "demo_td_kv = snd (tok_alloc 5 (tok_init 20 False))"

lemma demo_td_env_ok: "td_env_ok demo_td_env"
  by (simp add: td_env_ok_def demo_td_env_def)

lemma demo_td_batch_ok: "td_batch_ok demo_td_env demo_td demo_td_input (replicate 20 0)"
  by (simp add: td_batch_ok_def demo_td_env_def demo_td_def demo_td_input_def rows_ok_def prefix_room_def pool_ok_def)

lemma demo_td_kv_eq: "free_pages demo_td_kv = [6..20]" "release_pages demo_td_kv = []" "pending demo_td_kv = []"
  "in_free_group demo_td_kv = False"
  by code_simp+

lemma demo_td_kv_ok: "tok_inv demo_td_kv" "tok_ready demo_td_kv" "distinct (in_out_cache_loc demo_td_input)"
  "set (in_out_cache_loc demo_td_input) \<inter> tok_pages demo_td_kv = {}"
  by (auto simp: tok_inv_def tok_ready_def tok_pages_def demo_td_kv_eq demo_td_input_def)

lemma demo_td_slots: "tok_pages demo_td_kv \<union> set (in_out_cache_loc demo_td_input) = {4..20}"
proof -
  have "tok_pages demo_td_kv = {6..20}" by (simp only: tok_pages_def demo_td_kv_eq append_Nil2 set_upto)
  then show ?thesis by (auto simp: demo_td_input_def)
qed

lemma demo_td_room: "td_room demo_td demo_td_input (tok_pages demo_td_kv \<union> set (in_out_cache_loc demo_td_input))"
proof -
  show ?thesis unfolding demo_td_slots by (simp add: td_room_def demo_td_def demo_td_input_def)
qed


theorem td_run_fills_witness:
  "\<exists>l c st'. td_run demo_td_env None 0 False demo_td_input demo_td demo_td_kv (replicate 20 0) () = Inr ((Some l, [c], False), st')
     \<and> length c = 2"
proof -
  obtain l ids st' where
    "td_run demo_td_env None 0 False demo_td_input demo_td demo_td_kv (replicate 20 0) () = Inr ((Some l, ids, False), st')"
    "length ids = 1" "\<forall>c\<in>set ids. length c = 2"
    using td_run_fills [OF _ _ demo_td_env_ok demo_td_batch_ok demo_td_kv_ok demo_td_room,
        where eos_id = None and gi = 0 and gb = False and m = "()"]
    by (force simp: demo_td_env_def demo_td_def demo_td_input_def)
  then show ?thesis by (cases ids) auto
qed

text \<open>
  The first draft leaves the mask token out, the later ones do not: a block of logits that prefers the mask
  gives a draft whose first token, the mask, is accepted unconditionally by the next step.
\<close>

lemma later_draft_may_be_mask:
  "\<exists>st'. td_post (demo_td_env\<lparr>td_softmax := id\<rparr>) None [1, 2] [[0, 1], [0, 1]] [1]
     \<lparr>td_alg = demo_td\<lparr>block_size := 1, mask_id := 1\<rparr>, td_kv = tok_init 5 False, td_model = (), td_rtt = [], td_committed = [[]],
      td_found_eos = [False], td_prefix = [0], td_draft = [0], td_logits = []\<rparr> 0 = Inr st'
     \<and> td_draft st' = [mask_id (td_alg st')]"
  by (simp add: td_post_def demo_td_def demo_td_env_def Let_def block_def put_slice_def argmax_def cut_at_eos_def)

end
