(* ===== verification/Request.thy ===== *)
theory Request
  imports Dllm_Base
begin

text \<open>
  A request of the scheduler (class \<open>Req\<close> of \<open>managers/schedule_batch.py\<close>) with the diffusion mixin
  \<open>ReqDllmMixin\<close> of \<open>dllm/mixin/req.py\<close>: input and output tokens, the phases of a diffusion request, the
  bookkeeping of its KV cache, the stop conditions and the incremental detokenization.

  The tokenizer and the regular expressions are not part of the repository: \<open>decode\<close> and \<open>re_search\<close> are
  parameters. Token sets that Python iterates over are lists in their iteration order.
\<close>

section \<open>Data\<close>

datatype dllm_req_phase = STAGING_PREFILL | STAGING_DECODE | INCOMING_PREFILL | INCOMING_DECODE

datatype finish_reason =
    FINISH_MATCHED_TOKEN int
  | FINISH_MATCHED_STR string
  | FINISHED_MATCHED_REGEX string
  | FINISH_LENGTH int
  | FINISH_ABORT string

record sampling_params =
  max_new_tokens :: int
  ignore_eos :: bool
  stop_token_ids :: "int list"
  stop_strs :: "string list"
  stop_regex_strs :: "string list"
  stop_str_max_len :: int
  stop_regex_max_len :: int

record tokenizer =
  tk_eos_token_id :: "int option"
  additional_stop_token_ids :: "int list"

record req =
  rid :: string
  origin_input_ids :: "int list"
  origin_input_ids_unpadded :: "int list"
  output_ids :: "int list"
  fill_ids :: "int list"
  prefix_indices :: "int list"
  extend_input_len :: int
  logprob_start_len :: int
  extend_logprob_start_len :: int
  return_logprob :: bool
  top_logprobs_num :: nat
  token_ids_logprob :: "int list option"
  session_streaming :: bool
  has_embed_overrides :: bool
  req_pool_idx :: "nat option"
  kv_committed_len :: int
  kv_allocated_len :: int
  kv_committed_freed :: bool
  kv_overallocated_freed :: bool
  cache_protected_len :: int
  last_node :: "nat option"
  last_host_node :: "nat option"
  host_hit_length :: int
  is_chunked :: int
  priority :: int
  wait_queue_entry_time :: rat
  sampling_params :: sampling_params
  tokenizer :: "tokenizer option"
  eos_token_ids :: "int list"
  vocab_size :: int
  decoded_text :: string
  grammar_terminated :: "bool option"
  finished_reason :: "finish_reason option"
  finished_len :: "int option"
  to_finish :: "finish_reason option"
  reasoning_tokens :: int
  is_reasoning_over :: bool
  surr_offset :: "nat option"
  read_offset :: "nat option"
  surr_and_decode_ids :: "int list"
  cur_decode_ids_len :: nat
  output_token_logprobs_val :: "rat list"
  output_token_logprobs_idx :: "int list"
  output_token_reveal_steps :: "nat list option"
  output_token_entropy_val :: "rat list option"
  output_top_logprobs_val :: "rat list list"
  output_top_logprobs_idx :: "int list list"
  output_token_ids_logprobs_val :: "rat list list"
  output_token_ids_logprobs_idx :: "int list list"
  spec_acceptance_histogram :: "nat list"
  dllm_phase :: "dllm_req_phase option"
  dllm_block_offset :: nat
  has_input_embeds :: bool
  is_retracted :: bool
  retracted_stain :: bool
  retraction_count :: nat
  already_computed :: int
  cached_tokens :: int
  req_dllm_config :: "dllm_config option"

section \<open>Lengths\<close>

definition seqlen :: "req \<Rightarrow> nat" where
  "seqlen r = length (origin_input_ids r) + length (output_ids r)"

definition finished :: "req \<Rightarrow> bool" where
  "finished r \<longleftrightarrow> finished_reason r \<noteq> None"

definition output_ids_through_stop :: "req \<Rightarrow> int list" where
  "output_ids_through_stop r =
     (case finished_len r of Some k \<Rightarrow> py_upto k (output_ids r) | None \<Rightarrow> output_ids r)"

definition set_extend_input_len :: "int \<Rightarrow> req \<Rightarrow> req" where
  "set_extend_input_len n r =
     (let start = (if logprob_start_len r = -1 then int (length (fill_ids r))
                   else max (logprob_start_len r) (int (length (prefix_indices r))))
      in r\<lparr>extend_input_len := n,
           extend_logprob_start_len := min (start - int (length (prefix_indices r))) n\<rparr>)"

section \<open>The KV cache of a request\<close>

text \<open>\<open>strip\<close> is \<open>strip_thinking_cache\<close> of the server arguments.\<close>

definition cache_commit_len :: "bool \<Rightarrow> req \<Rightarrow> int" where
  "cache_commit_len strip r =
     (if strip \<and> reasoning_tokens r > 0 then min (kv_committed_len r) (int (length (origin_input_ids r)))
      else kv_committed_len r)"

definition pop_committed_kv_cache :: "bool \<Rightarrow> req \<Rightarrow> (int \<times> req) res" where
  "pop_committed_kv_cache strip r =
     py_assert (\<not> kv_committed_freed r) (Inr (cache_commit_len strip r, r\<lparr>kv_committed_freed := True\<rparr>))"

definition pop_overallocated_kv_cache :: "bool \<Rightarrow> req \<Rightarrow> ((int \<times> int) \<times> req) res" where
  "pop_overallocated_kv_cache strip r =
     py_assert (\<not> kv_overallocated_freed r)
       (Inr ((cache_commit_len strip r, kv_allocated_len r), r\<lparr>kv_overallocated_freed := True\<rparr>))"

section \<open>Diffusion requests\<close>

definition init_diffusion_llm :: "dllm_config option \<Rightarrow> req \<Rightarrow> req" where
  "init_diffusion_llm config r =
     r\<lparr>dllm_phase := (if config \<noteq> None then Some INCOMING_PREFILL else None), dllm_block_offset := 0,
       req_dllm_config := config\<rparr>"

definition is_dllm :: "req \<Rightarrow> bool" where
  "is_dllm r \<longleftrightarrow> req_dllm_config r \<noteq> None"

definition is_dllm_prefill :: "req \<Rightarrow> bool" where
  "is_dllm_prefill r \<longleftrightarrow> dllm_phase r \<in> {Some STAGING_PREFILL, Some INCOMING_PREFILL}"

text \<open>The methods of the mixin read \<open>self.dllm_config\<close>; on a request without one they raise.\<close>

definition with_dllm_config :: "req \<Rightarrow> (dllm_config \<Rightarrow> 'a res) \<Rightarrow> 'a res" where
  "with_dllm_config r f = (case req_dllm_config r of None \<Rightarrow> Inl AttributeError | Some c \<Rightarrow> f c)"

definition determine_dllm_phase :: "req \<Rightarrow> req res" where
  "determine_dllm_phase r = with_dllm_config r (\<lambda>c.
     let n = dc_block_size c; min_required = length (prefix_indices r) + n
     in if length (fill_ids r) < min_required then Inr r
        else let input_block = drop (length (fill_ids r) - n) (fill_ids r);
                 is_prefill_phase = (dc_mask_id c \<notin> set input_block)
             in Inr (r\<lparr>dllm_phase := Some (if is_prefill_phase then STAGING_PREFILL else STAGING_DECODE)\<rparr>))"

definition init_fill_ids_for_dllm :: "req \<Rightarrow> req res" where
  "init_fill_ids_for_dllm r = with_dllm_config r (\<lambda>c.
     Inr (r\<lparr>dllm_block_offset := (if fill_ids r = [] then length (origin_input_ids r)
                                 else length (origin_input_ids r) + length (output_ids r)),
            fill_ids := origin_input_ids r @ output_ids r @ replicate (dc_block_size c) (dc_mask_id c)\<rparr>))"

definition init_prompt_cache_input :: "req \<Rightarrow> req" where
  "init_prompt_cache_input r =
     (let r = r\<lparr>fill_ids := origin_input_ids r, prefix_indices := []\<rparr>
      in set_extend_input_len (int (length (fill_ids r))) r)"

definition update_block_offset_for_dllm :: "req \<Rightarrow> req res" where
  "update_block_offset_for_dllm r = with_dllm_config r (\<lambda>c.
     let prefix_len = length (prefix_indices r)
     in py_assert (output_ids r \<noteq> [] \<or> prefix_len mod dc_block_size c = 0)
          (Inr (if prefix_len > dllm_block_offset r then r\<lparr>dllm_block_offset := prefix_len\<rparr> else r)))"

section \<open>The next round\<close>

text \<open>What \<open>tree_cache.match_prefix\<close> returns.\<close>

record match_result =
  device_indices :: "int list"
  last_device_node :: "nat option"
  mr_last_host_node :: "nat option"
  mr_host_hit_length :: int
  mr_cache_protected_len :: "int option"

text \<open>The tokens to look up: at most one less than the input, none with embedding overrides.\<close>

definition prefix_token_ids :: "req \<Rightarrow> int list" where
  "prefix_token_ids r =
     (let m = int (length (fill_ids r)) - 1;
          m = (if return_logprob r \<and> logprob_start_len r \<ge> 0 then min m (logprob_start_len r) else m);
          m = max m 0
      in if has_embed_overrides r then [] else py_upto m (fill_ids r))"

text \<open>
  \<open>match\<close> is \<open>match_prefix\<close> of the tree cache on a list of tokens, absent when no tree cache is given; it
  may reorganise the tree \<open>t\<close>. Retracted multimodal requests also extend their rotary positions, which is not
  modelled.
\<close>

definition init_next_round_input :: "(int list \<Rightarrow> 't \<Rightarrow> match_result \<times> 't) option \<Rightarrow> 't \<Rightarrow> req \<Rightarrow> (req \<times> 't) res" where
  "init_next_round_input match t r =
     rbind (if is_dllm r then rbind (init_fill_ids_for_dllm r) determine_dllm_phase
            else Inr (r\<lparr>fill_ids := origin_input_ids r @ output_ids r\<rparr>)) (\<lambda>r.
       let r = (if session_streaming r \<and> return_logprob r \<and> logprob_start_len r \<ge> 0
                then r\<lparr>logprob_start_len := -1\<rparr> else r)
       in rbind (case match of
                   None \<Rightarrow> Inr (r, t)
                 | Some f \<Rightarrow>
                     let (mr, t) = f (prefix_token_ids r) t;
                         r = r\<lparr>prefix_indices := device_indices mr, last_node := last_device_node mr,
                               last_host_node := mr_last_host_node mr, host_hit_length := mr_host_hit_length mr,
                               cache_protected_len := (case mr_cache_protected_len mr of
                                  Some k \<Rightarrow> k | None \<Rightarrow> int (length (device_indices mr)))\<rparr>
                     in rbind (if is_dllm r then update_block_offset_for_dllm r else Inr r) (\<lambda>r. Inr (r, t))) (\<lambda>(r, t).
            Inr (set_extend_input_len (int (length (fill_ids r)) - int (length (prefix_indices r))) r, t)))"

section \<open>Stop conditions\<close>

definition contains :: "'a list \<Rightarrow> 'a list \<Rightarrow> bool" where
  "contains sub xs \<longleftrightarrow> (\<exists>i\<in>set [0..<Suc (length xs)]. take (length sub) (drop i xs) = sub)"

text \<open>\<open>xs[-n:]\<close>; for \<open>n = 0\<close> Python returns the whole list.\<close>

definition py_last :: "nat \<Rightarrow> 'a list \<Rightarrow> 'a list" where
  "py_last n xs = (if n = 0 then xs else drop (length xs - n) xs)"

definition tail_str :: "(int list \<Rightarrow> string) \<Rightarrow> req \<Rightarrow> string res" where
  "tail_str decode r =
     (let sp = sampling_params r
      in if stop_strs sp = [] \<and> stop_regex_strs sp = [] then Inr []
         else let max_len = max (stop_str_max_len sp + 1) (stop_regex_max_len sp + 1);
                  tail_len = min max_len (int (length (output_ids r)))
              in if tokenizer r = None then Inl AttributeError
                 else Inr (decode (py_from (- tail_len) (output_ids r))))"

definition check_match_stop_str_prefix :: "(int list \<Rightarrow> string) \<Rightarrow> req \<Rightarrow> bool res" where
  "check_match_stop_str_prefix decode r =
     (let strs = stop_strs (sampling_params r)
      in if strs = [] then Inr False
         else rbind (tail_str decode r) (\<lambda>tail.
           if tail = [] then Inr False
           else Inr (\<exists>s\<in>set strs. s \<noteq> [] \<and>
             (contains s tail \<or> (\<exists>i\<in>set [1..<Suc (min (length tail) (length s))]. py_last i tail = take i s)))))"

text \<open>The first element that satisfies a test, with its position.\<close>

fun first_at :: "('a \<Rightarrow> bool) \<Rightarrow> nat \<Rightarrow> 'a list \<Rightarrow> (nat \<times> 'a) option" where
  "first_at p i [] = None"
| "first_at p i (x # xs) = (if p x then Some (i, x) else first_at p (Suc i) xs)"

definition token_stops :: "req \<Rightarrow> int \<Rightarrow> bool" where
  "token_stops r t \<longleftrightarrow> t \<in> set (stop_token_ids (sampling_params r)) \<or> t \<in> set (eos_token_ids r)
     \<or> (case tokenizer r of None \<Rightarrow> False
        | Some tk \<Rightarrow> tk_eos_token_id tk = Some t \<or> t \<in> set (additional_stop_token_ids tk))"

definition check_token_based_finish :: "int list \<Rightarrow> req \<Rightarrow> bool \<times> req" where
  "check_token_based_finish new r =
     (if ignore_eos (sampling_params r) then (False, r)
      else case first_at (token_stops r) 0 new of
             None \<Rightarrow> (False, r)
           | Some (i, t) \<Rightarrow>
               (True, r\<lparr>finished_reason := Some (FINISH_MATCHED_TOKEN t),
                        finished_len := Some (int (length (output_ids r)) - int (length new) + int i + 1)\<rparr>))"

definition replace_bad_token :: "req \<Rightarrow> nat \<Rightarrow> int list \<Rightarrow> int list" where
  "replace_bad_token r offset out =
     (let out = (case stop_token_ids (sampling_params r) of [] \<Rightarrow> out | t # _ \<Rightarrow> out[offset := t])
      in case eos_token_ids r of [] \<Rightarrow> out | t # _ \<Rightarrow> out[offset := t])"

definition check_vocab_boundary_finish :: "int list \<Rightarrow> req \<Rightarrow> bool \<times> req" where
  "check_vocab_boundary_finish new r =
     (case first_at (\<lambda>t. t > vocab_size r \<or> t < 0) 0 new of
        None \<Rightarrow> (False, r)
      | Some (i, t) \<Rightarrow>
          let offset = length (output_ids r) - length new + i
          in (True, r\<lparr>output_ids := replace_bad_token r offset (output_ids r),
                      finished_reason := Some (FINISH_MATCHED_STR ''NaN happened''),
                      finished_len := Some (int offset + 1)\<rparr>))"

definition check_str_based_finish ::
  "(int list \<Rightarrow> string) \<Rightarrow> (string \<Rightarrow> string \<Rightarrow> bool) \<Rightarrow> req \<Rightarrow> (bool \<times> req) res" where
  "check_str_based_finish decode re_search r =
     (let sp = sampling_params r
      in if stop_strs sp = [] \<and> stop_regex_strs sp = [] then Inr (False, r)
         else rbind (tail_str decode r) (\<lambda>tail.
           Inr (case find (\<lambda>s. contains s tail \<or> contains s (decoded_text r)) (stop_strs sp) of
                  Some s \<Rightarrow> (True, r\<lparr>finished_reason := Some (FINISH_MATCHED_STR s)\<rparr>)
                | None \<Rightarrow>
                    case find (\<lambda>p. re_search p tail) (stop_regex_strs sp) of
                      Some p \<Rightarrow> (True, r\<lparr>finished_reason := Some (FINISHED_MATCHED_REGEX p)\<rparr>)
                    | None \<Rightarrow> (False, r))))"

definition check_finished ::
  "(int list \<Rightarrow> string) \<Rightarrow> (string \<Rightarrow> string \<Rightarrow> bool) \<Rightarrow> nat \<Rightarrow> req \<Rightarrow> req res" where
  "check_finished decode re_search new_accepted_len r =
     (if finished r then Inr r
      else case to_finish r of
        Some f \<Rightarrow> Inr (r\<lparr>finished_reason := Some f, to_finish := None\<rparr>)
      | None \<Rightarrow>
        if int (length (output_ids r)) \<ge> max_new_tokens (sampling_params r)
        then Inr (r\<lparr>finished_reason := Some (FINISH_LENGTH (max_new_tokens (sampling_params r))),
                    finished_len := Some (max_new_tokens (sampling_params r))\<rparr>)
        else if grammar_terminated r = Some True
        then (if output_ids r = [] then Inl IndexError
              else Inr (r\<lparr>finished_reason := Some (FINISH_MATCHED_TOKEN (last (output_ids r)))\<rparr>))
        else
          let new = py_last new_accepted_len (output_ids r); (hit, r) = check_token_based_finish new r
          in if hit then Inr r
             else let (hit, r) = check_vocab_boundary_finish new r
                  in if hit then Inr r else rbind (check_str_based_finish decode re_search r) (\<lambda>(_, r). Inr r))"

section \<open>Statistics and detokenization\<close>

definition update_spec_acceptance_histogram :: "nat \<Rightarrow> req \<Rightarrow> req" where
  "update_spec_acceptance_histogram k r =
     (let h = spec_acceptance_histogram r;
          h = (if length h \<le> k then h @ replicate (k - length h + 1) 0 else h)
      in r\<lparr>spec_acceptance_histogram := h[k := h ! k + 1]\<rparr>)"

definition update_reasoning_tokens :: "int list \<Rightarrow> int \<Rightarrow> req \<Rightarrow> req" where
  "update_reasoning_tokens token_id think_end_id r =
     (if is_reasoning_over r then r
      else case first_at (\<lambda>t. t = think_end_id) 0 token_id of
             Some (end_pos, _) \<Rightarrow> r\<lparr>reasoning_tokens := reasoning_tokens r + int end_pos + 1, is_reasoning_over := True\<rparr>
           | None \<Rightarrow> r\<lparr>reasoning_tokens := reasoning_tokens r + int (length token_id)\<rparr>)"

definition INIT_INCREMENTAL_DETOKENIZATION_OFFSET :: nat where
  "INIT_INCREMENTAL_DETOKENIZATION_OFFSET = 5"

definition init_incremental_detokenize :: "req \<Rightarrow> (int list \<times> int) \<times> req" where
  "init_incremental_detokenize r =
     (let out = output_ids_through_stop r;
          r = (case (surr_offset r, read_offset r) of
                 (Some so, Some ro) \<Rightarrow>
                   r\<lparr>surr_and_decode_ids := surr_and_decode_ids r @ drop (cur_decode_ids_len r) out,
                     cur_decode_ids_len := length out\<rparr>
               | _ \<Rightarrow>
                   let ro = length (origin_input_ids_unpadded r); so = ro - INIT_INCREMENTAL_DETOKENIZATION_OFFSET
                   in r\<lparr>read_offset := Some ro, surr_offset := Some so,
                        surr_and_decode_ids := drop so (origin_input_ids_unpadded r) @ out,
                        cur_decode_ids_len := length out\<rparr>)
      in ((surr_and_decode_ids r, int (the (read_offset r)) - int (the (surr_offset r))), r))"

definition reset_for_retract :: "req \<Rightarrow> req" where
  "reset_for_retract r =
     r\<lparr>retraction_count := retraction_count r + 1, prefix_indices := [], last_node := None, extend_input_len := 0,
       is_retracted := True, retracted_stain := True, extend_logprob_start_len := 0, is_chunked := 0,
       already_computed := 0, kv_allocated_len := 0, kv_committed_len := 0, kv_committed_freed := False,
       kv_overallocated_freed := False, output_ids := (if has_input_embeds r then [] else output_ids r)\<rparr>"

definition set_finish_with_abort :: "string \<Rightarrow> req \<Rightarrow> req" where
  "set_finish_with_abort msg r =
     r\<lparr>grammar_terminated := None, origin_input_ids := [0], return_logprob := False, logprob_start_len := -1,
       to_finish := Some (FINISH_ABORT msg)\<rparr>"

section \<open>Correctness\<close>

lemma first_at_None: "first_at p i xs = None \<longleftrightarrow> (\<forall>x\<in>set xs. \<not> p x)"
  by (induction xs arbitrary: i) auto

lemma first_at_Some:
  assumes "\<exists>x\<in>set xs. p x"
  shows "first_at p i xs = Some (i + length (takeWhile (\<lambda>x. \<not> p x) xs), hd (dropWhile (\<lambda>x. \<not> p x) xs))"
  using assms
proof (induction xs arbitrary: i)
  case (Cons x xs)
  then show ?case using Cons.IH [of "Suc i"] by (cases "p x") auto
qed simp

lemma takeWhile_hd:
  assumes "\<exists>x\<in>set xs. p x"
  shows "take (Suc (length (takeWhile (\<lambda>x. \<not> p x) xs))) xs = takeWhile (\<lambda>x. \<not> p x) xs @ [hd (dropWhile (\<lambda>x. \<not> p x) xs)]"
  using assms by (induction xs) auto

text \<open>What a request still open, below its length limit and without a finished grammar, is for the stop conditions.\<close>

definition still_open :: "req \<Rightarrow> bool" where
  "still_open r \<longleftrightarrow> \<not> finished r \<and> to_finish r = None \<and> int (length (output_ids r)) < max_new_tokens (sampling_params r)
     \<and> grammar_terminated r \<noteq> Some True \<and> \<not> ignore_eos (sampling_params r)"



text \<open>The detokenizer's view of a request: the ids handed over end with the first \<open>cur_decode_ids_len\<close> outputs.\<close>

definition detok_ok :: "req \<Rightarrow> bool" where
  "detok_ok r \<longleftrightarrow> (case (surr_offset r, read_offset r) of
     (Some so, Some ro) \<Rightarrow> so \<le> ro \<and> ro = length (origin_input_ids_unpadded r) \<and> cur_decode_ids_len r \<le> length (output_ids_through_stop r)
       \<and> surr_and_decode_ids r = drop so (origin_input_ids_unpadded r) @ take (cur_decode_ids_len r) (output_ids_through_stop r)
   | _ \<Rightarrow> True)"


section \<open>A concrete request\<close>

definition demo_sampling :: sampling_params where
  "demo_sampling = \<lparr>max_new_tokens = 8, ignore_eos = False, stop_token_ids = [], stop_strs = [], stop_regex_strs = [],
     stop_str_max_len = 0, stop_regex_max_len = 0\<rparr>"

definition demo_req :: req where
  "demo_req = \<lparr>rid = ''r0'', origin_input_ids = [11, 12, 13, 14], origin_input_ids_unpadded = [11, 12, 13, 14], output_ids = [],
     fill_ids = [], prefix_indices = [], extend_input_len = 0, logprob_start_len = -1, extend_logprob_start_len = 0,
     return_logprob = False, top_logprobs_num = 0, token_ids_logprob = None, session_streaming = False, has_embed_overrides = False,
     req_pool_idx = None, kv_committed_len = 0, kv_allocated_len = 0, kv_committed_freed = False, kv_overallocated_freed = False,
     cache_protected_len = 0, last_node = None, last_host_node = None, host_hit_length = 0, is_chunked = 0, priority = 0,
     wait_queue_entry_time = 0, sampling_params = demo_sampling, tokenizer = None, eos_token_ids = [2], vocab_size = 100,
     decoded_text = [], grammar_terminated = None, finished_reason = None, finished_len = None, to_finish = None,
     reasoning_tokens = 0, is_reasoning_over = False, surr_offset = None, read_offset = None, surr_and_decode_ids = [],
     cur_decode_ids_len = 0, output_token_logprobs_val = [], output_token_logprobs_idx = [], output_token_reveal_steps = None,
     output_token_entropy_val = None, output_top_logprobs_val = [], output_top_logprobs_idx = [], output_token_ids_logprobs_val = [],
     output_token_ids_logprobs_idx = [], spec_acceptance_histogram = [], dllm_phase = None, dllm_block_offset = 0,
     has_input_embeds = False, is_retracted = False, retracted_stain = False, retraction_count = 0, already_computed = 0,
     cached_tokens = 0, req_dllm_config = None\<rparr>"

definition demo_config :: dllm_config where
  "demo_config = \<lparr>algorithm = ''LinearSpec'', algorithm_cfg = empty_algorithm_config, dc_block_size = 2, dc_mask_id = 99,
     max_running_requests = 4, max_steps = 2, causal_context = True\<rparr>"




section \<open>Stop tokens past a length limit, and the bound on token ids\<close>

text \<open>
  The length limit is tested before the stop tokens: a last block that contains the end-of-sequence token in front
  of the limit is not cut there, and the output goes on past it.
\<close>

lemma length_limit_hides_stop:
  "\<exists>r'. check_finished (\<lambda>_. []) (\<lambda>_ _. False) 8 (demo_req\<lparr>output_ids := [5, 2, 6, 7, 7, 7, 7, 7]\<rparr>) = Inr r'
     \<and> finished_reason r' = Some (FINISH_LENGTH 8) \<and> output_ids_through_stop r' = [5, 2, 6, 7, 7, 7, 7, 7]"
  by (simp add: check_finished_def finished_def demo_req_def demo_sampling_def output_ids_through_stop_def py_upto_nat)

text \<open>Token ids are below \<open>vocab_size\<close>, but the check lets \<open>vocab_size\<close> itself pass.\<close>

lemma vocab_check_admits_size: "check_vocab_boundary_finish [vocab_size r] r = (False, r) \<or> vocab_size r < 0"
  by (simp add: check_vocab_boundary_finish_def)

end
