(* ===== verification/Req_To_Token.thy ===== *)
theory Req_To_Token
  imports Request KV_Pool
begin

text \<open>
  The table that maps a request to the cache slots of its tokens (\<open>ReqToTokenPool\<close> of
  \<open>mem_cache/memory_pool.py\<close>) and the functions of \<open>mem_cache/common.py\<close> that allocate slots for a
  batch, write them into the table and release them.

  The table is one flat list, row after row with stride \<open>max_context_len\<close>, as the Triton kernels see it. The
  allocator and the prefix cache are the objects behind the interfaces \<open>BaseTokenToKVPoolAllocator\<close> and
  \<open>BasePrefixCache\<close>: a record of their operations over a state, of which the token allocator, the paged
  allocator and the chunk cache are instances. Hybrid (Mamba, sliding window) pools are not modelled.
\<close>

section \<open>ReqToTokenPool\<close>

record req_to_token_pool =
  rp_size :: nat
  max_context_len :: nat
  req_to_token :: "int list"
  free_slots :: "nat list"

definition rtp_init :: "nat \<Rightarrow> nat \<Rightarrow> req_to_token_pool" where
  "rtp_init sz len = \<lparr>rp_size = sz, max_context_len = len, req_to_token = replicate (sz * len) 0, free_slots = [0..<sz]\<rparr>"

text \<open>Row \<open>i\<close> of the table.\<close>

definition rtp_row :: "nat \<Rightarrow> req_to_token_pool \<Rightarrow> int list" where
  "rtp_row i p = take (max_context_len p) (drop (i * max_context_len p) (req_to_token p))"

text \<open>
  \<open>write((i, slice(a, b)), values)\<close>: the slice is clamped to the row, a single value is broadcast, another
  number of values than the slice holds is an error.
\<close>

definition rtp_write :: "nat \<Rightarrow> nat \<Rightarrow> nat \<Rightarrow> int list \<Rightarrow> req_to_token_pool \<Rightarrow> req_to_token_pool res" where
  "rtp_write i a b vs p =
     (let L = max_context_len p; a = min a L; n = min b L - a; vs = (if length vs = 1 then replicate n (hd vs) else vs)
      in if \<not> i < rp_size p then Inl IndexError
         else if length vs \<noteq> n then Inl RuntimeError
         else Inr (p\<lparr>req_to_token := put_slice (i * L + a) vs (req_to_token p)\<rparr>))"

definition rtp_available_size :: "req_to_token_pool \<Rightarrow> nat" where
  "rtp_available_size p = length (free_slots p)"

text \<open>Requests without a row take the selected rows in order; the others keep theirs.\<close>

fun assign_rows :: "nat list \<Rightarrow> req list \<Rightarrow> req list" where
  "assign_rows select [] = []"
| "assign_rows select (r # rs) =
     (if req_pool_idx r = None then r\<lparr>req_pool_idx := Some (hd select)\<rparr> # assign_rows (tl select) rs
      else r # assign_rows select rs)"

definition rtp_alloc :: "req list \<Rightarrow> req_to_token_pool \<Rightarrow> (nat list option \<times> req list \<times> req_to_token_pool) res" where
  "rtp_alloc reqs p =
     (let reusing = filter (\<lambda>r. req_pool_idx r \<noteq> None) reqs
      in py_assert (\<forall>r\<in>set reusing. is_chunked r > 0 \<or> kv_committed_len r > 0)
           (let need_size = length reqs - length reusing
            in if need_size > length (free_slots p) then Inr (None, reqs, p)
               else let reqs = assign_rows (take need_size (free_slots p)) reqs
                    in Inr (Some (map (the \<circ> req_pool_idx) reqs), reqs, p\<lparr>free_slots := drop need_size (free_slots p)\<rparr>)))"

definition rtp_free :: "req \<Rightarrow> req_to_token_pool \<Rightarrow> (req \<times> req_to_token_pool) res" where
  "rtp_free r p =
     (case req_pool_idx r of
        None \<Rightarrow> Inl AssertionError
      | Some i \<Rightarrow> Inr (r\<lparr>req_pool_idx := None\<rparr>, p\<lparr>free_slots := free_slots p @ [i]\<rparr>))"

definition rtp_clear :: "req_to_token_pool \<Rightarrow> req_to_token_pool" where
  "rtp_clear p = p\<lparr>free_slots := [0..<rp_size p]\<rparr>"

section \<open>Writing the slots of a batch\<close>

definition WRITE_BLOCK :: int where
  "WRITE_BLOCK = 512"

text \<open>\<open>prefix_tensors\<close> are the tensors behind the pointers that the kernel loads.\<close>

definition write_req_to_token_pool_triton ::
  "int list \<Rightarrow> int list list \<Rightarrow> int list \<Rightarrow> int list \<Rightarrow> int list \<Rightarrow> int list \<Rightarrow> int \<Rightarrow> nat \<Rightarrow> int list \<Rightarrow> int list" where
  "write_req_to_token_pool_triton req_pool_indices prefix_tensors pre_lens seq_lens extend_lens out_cache_loc stride pid rtt =
     (let req_pool_index = tl_load req_pool_indices (int pid);
          pre_len = tl_load pre_lens (int pid);
          seq_len = tl_load seq_lens (int pid);
          prefix_tensor = prefix_tensors ! pid;
          rtt = foldl (\<lambda>rtt i.
            tl_store (map (\<lambda>lane.
              let offset = i * WRITE_BLOCK + lane
              in (req_pool_index * stride + offset, tl_load prefix_tensor offset, offset < pre_len))
              [0..WRITE_BLOCK - 1]) rtt) rtt [0..ceil_div pre_len WRITE_BLOCK - 1];
          cumsum_start = foldl (\<lambda>acc i. acc + tl_load extend_lens (int i)) 0 [0..<pid]
      in foldl (\<lambda>rtt i.
           tl_store (map (\<lambda>lane.
             let offset = i * WRITE_BLOCK + lane
             in (req_pool_index * stride + offset + pre_len, tl_load out_cache_loc (cumsum_start + offset), offset < seq_len - pre_len))
             [0..WRITE_BLOCK - 1]) rtt) rtt [0..ceil_div (seq_len - pre_len) WRITE_BLOCK - 1])"

text \<open>The loop taken when the attention backend has no Triton; \<open>pt\<close> is the place in \<open>out_cache_loc\<close>.\<close>

fun write_cache_loop ::
  "int list \<Rightarrow> nat \<Rightarrow> (nat \<times> int list \<times> nat \<times> nat \<times> nat) list \<Rightarrow> req_to_token_pool \<Rightarrow> req_to_token_pool res" where
  "write_cache_loop out pt [] p = Inr p"
| "write_cache_loop out pt ((req_idx, prefix_tensor, prefix_len, seq_len, extend_len) # rest) p =
     rbind (rtp_write req_idx 0 prefix_len prefix_tensor p) (\<lambda>p.
       rbind (rtp_write req_idx prefix_len seq_len (take extend_len (drop pt out)) p) (\<lambda>p.
         write_cache_loop out (pt + extend_len) rest p))"

definition write_cache_indices ::
  "bool \<Rightarrow> int list \<Rightarrow> nat list \<Rightarrow> nat list \<Rightarrow> nat list \<Rightarrow> nat list \<Rightarrow> int list list \<Rightarrow> req_to_token_pool
    \<Rightarrow> req_to_token_pool res" where
  "write_cache_indices support_triton out rows prefix_lens seq_lens extend_lens prefix_tensors p =
     (if support_triton
      then Inr (p\<lparr>req_to_token := run_grid (write_req_to_token_pool_triton (map int rows) prefix_tensors (map int prefix_lens)
                 (map int seq_lens) (map int extend_lens) out (int (max_context_len p))) (length rows) (req_to_token p)\<rparr>)
      else write_cache_loop out 0 (zip rows (zip prefix_tensors (zip prefix_lens (zip seq_lens extend_lens)))) p)"

section \<open>Last locations\<close>

text \<open>\<open>req_to_token[rows, cols]\<close>, with \<open>-1\<close> for the last column.\<close>

definition rtp_gather :: "req_to_token_pool \<Rightarrow> nat list \<Rightarrow> int list \<Rightarrow> int list res" where
  "rtp_gather p rows cols =
     (let L = int (max_context_len p)
      in if (\<forall>i\<in>set rows. i < rp_size p) \<and> (\<forall>c\<in>set cols. - L \<le> c \<and> c < L)
         then Inr (map2 (\<lambda>i c. rtp_row i p ! nat (if c < 0 then c + L else c)) rows cols)
         else Inl IndexError)"

definition get_last_loc_torch :: "req_to_token_pool \<Rightarrow> nat list \<Rightarrow> nat list \<Rightarrow> int list res" where
  "get_last_loc_torch p rows prefix_lens =
     rbind (rtp_gather p rows (map (\<lambda>l. int l - 1) prefix_lens)) (\<lambda>locs.
       Inr (map2 (\<lambda>l loc. if l > 0 then loc else -1) prefix_lens locs))"

definition LAST_LOC_BLOCK :: int where
  "LAST_LOC_BLOCK = 256"

definition get_last_loc_kernel ::
  "int list \<Rightarrow> int list \<Rightarrow> int list \<Rightarrow> int \<Rightarrow> int \<Rightarrow> nat \<Rightarrow> int list \<Rightarrow> int list" where
  "get_last_loc_kernel rtt rows prefix_lens_tensor num_tokens stride pid result =
     tl_store (map (\<lambda>lane.
       let offset = lane + int pid * LAST_LOC_BLOCK; msk = offset < num_tokens;
           prefix_lens = (if msk then tl_load prefix_lens_tensor offset else 0);
           req_pool_indices = (if msk then tl_load rows offset else 0);
           token_mask = prefix_lens > 0;
           token_index = req_pool_indices * stride + (prefix_lens - 1);
           tokens = (if token_mask then tl_load rtt token_index else -1)
       in (offset, tokens, msk)) [0..LAST_LOC_BLOCK - 1]) result"

text \<open>\<open>torch.empty_like\<close> gives the tensor \<open>garbage\<close>.\<close>

definition get_last_loc_triton :: "req_to_token_pool \<Rightarrow> nat list \<Rightarrow> nat list \<Rightarrow> int list \<Rightarrow> int list" where
  "get_last_loc_triton p rows prefix_lens garbage =
     (let num_tokens = int (length prefix_lens)
      in run_grid (get_last_loc_kernel (req_to_token p) (map int rows) (map int prefix_lens) num_tokens (int (max_context_len p)))
           (nat (ceil_div num_tokens LAST_LOC_BLOCK)) garbage)"

definition get_last_loc :: "string \<Rightarrow> req_to_token_pool \<Rightarrow> nat list \<Rightarrow> nat list \<Rightarrow> int list \<Rightarrow> int list res" where
  "get_last_loc attention_backend p rows prefix_lens garbage =
     (if attention_backend \<noteq> ''ascend'' \<and> attention_backend \<noteq> ''torch_native''
      then Inr (get_last_loc_triton p rows prefix_lens garbage)
      else get_last_loc_torch p rows prefix_lens)"

section \<open>Allocation for a batch\<close>

record 's alloc_ops =
  ao_page_size :: int
  ao_available_size :: "'s \<Rightarrow> int"
  ao_alloc :: "nat \<Rightarrow> 's \<Rightarrow> (int list option \<times> 's) res"
  ao_alloc_extend :: "nat list \<Rightarrow> nat list \<Rightarrow> int list \<Rightarrow> nat \<Rightarrow> 's \<Rightarrow> (int list option \<times> 's) res"
  ao_alloc_decode :: "nat list \<Rightarrow> int list \<Rightarrow> 's \<Rightarrow> (int list option \<times> 's) res"
  ao_free :: "int list \<Rightarrow> 's \<Rightarrow> 's res"

record ('t, 's) kv_mem =
  mem_tree :: 't
  mem_alloc :: 's
  mem_pool :: req_to_token_pool

record ('t, 's) tree_ops =
  tc_page_size :: int
  tc_is_chunk_cache :: bool
  tc_disable :: bool
  tc_evictable_size :: "'t \<Rightarrow> int"
  tc_evict :: "int \<Rightarrow> ('t, 's) kv_mem \<Rightarrow> ('t, 's) kv_mem res"
  tc_inc_lock_ref :: "nat option \<Rightarrow> 't \<Rightarrow> 't"
  tc_dec_lock_ref :: "nat option \<Rightarrow> 't \<Rightarrow> 't"
  tc_match_prefix :: "int list \<Rightarrow> 't \<Rightarrow> match_result \<times> 't"
  tc_cache_finished_req :: "bool \<Rightarrow> req \<Rightarrow> ('t, 's) kv_mem \<Rightarrow> (req \<times> ('t, 's) kv_mem) res"

definition evict_from_tree_cache ::
  "'s alloc_ops \<Rightarrow> ('t, 's) tree_ops \<Rightarrow> int \<Rightarrow> ('t, 's) kv_mem \<Rightarrow> ('t, 's) kv_mem res" where
  "evict_from_tree_cache ao tc num_tokens m =
     (if tc_is_chunk_cache tc then Inr m
      else if ao_available_size ao (mem_alloc m) < num_tokens then tc_evict tc num_tokens m
      else Inr m)"

definition alloc_token_slots ::
  "'s alloc_ops \<Rightarrow> ('t, 's) tree_ops \<Rightarrow> nat \<Rightarrow> ('t, 's) kv_mem \<Rightarrow> (int list \<times> ('t, 's) kv_mem) res" where
  "alloc_token_slots ao tc num_tokens m =
     rbind (evict_from_tree_cache ao tc (int num_tokens) m) (\<lambda>m.
       rbind (ao_alloc ao num_tokens (mem_alloc m)) (\<lambda>(out, s).
         case out of None \<Rightarrow> Inl RuntimeError | Some xs \<Rightarrow> Inr (xs, m\<lparr>mem_alloc := s\<rparr>)))"

definition alloc_paged_token_slots_extend ::
  "'s alloc_ops \<Rightarrow> ('t, 's) tree_ops \<Rightarrow> nat list \<Rightarrow> nat list \<Rightarrow> int list \<Rightarrow> nat \<Rightarrow> ('t, 's) kv_mem
    \<Rightarrow> (int list \<times> ('t, 's) kv_mem) res" where
  "alloc_paged_token_slots_extend ao tc prefix_lens seq_lens last_loc extend_num_tokens m =
     (let num_tokens = int extend_num_tokens + int (length seq_lens) * ao_page_size ao
      in rbind (evict_from_tree_cache ao tc num_tokens m) (\<lambda>m.
           rbind (ao_alloc_extend ao prefix_lens seq_lens last_loc extend_num_tokens (mem_alloc m)) (\<lambda>(out, s).
             case out of None \<Rightarrow> Inl RuntimeError | Some xs \<Rightarrow> Inr (xs, m\<lparr>mem_alloc := s\<rparr>))))"

definition alloc_req_slots ::
  "req list \<Rightarrow> ('t, 's) kv_mem \<Rightarrow> (nat list \<times> req list \<times> ('t, 's) kv_mem) res" where
  "alloc_req_slots reqs m =
     rbind (rtp_alloc reqs (mem_pool m)) (\<lambda>(rows, reqs, p).
       case rows of None \<Rightarrow> Inl RuntimeError | Some idxs \<Rightarrow> Inr (idxs, reqs, m\<lparr>mem_pool := p\<rparr>))"

text \<open>The last slot of the cached prefix, \<open>-1\<close> when there is none.\<close>

definition prefix_last_loc :: "req \<Rightarrow> int" where
  "prefix_last_loc r = (if prefix_indices r = [] then -1 else last (prefix_indices r))"

definition alloc_for_extend ::
  "bool \<Rightarrow> 's alloc_ops \<Rightarrow> ('t, 's) tree_ops \<Rightarrow> nat list \<Rightarrow> nat list \<Rightarrow> nat list \<Rightarrow> nat \<Rightarrow> req list \<Rightarrow> ('t, 's) kv_mem
    \<Rightarrow> (int list \<times> nat list \<times> req list \<times> ('t, 's) kv_mem) res" where
  "alloc_for_extend support_triton ao tc prefix_lens extend_lens seq_lens extend_num_tokens reqs m =
     (let prefix_tensors = map prefix_indices reqs
      in rbind (alloc_req_slots reqs m) (\<lambda>(rows, reqs, m).
           rbind (if tc_page_size tc = 1 then alloc_token_slots ao tc extend_num_tokens m
                  else alloc_paged_token_slots_extend ao tc prefix_lens seq_lens (map prefix_last_loc reqs) extend_num_tokens m)
             (\<lambda>(out, m).
               rbind (write_cache_indices support_triton out rows prefix_lens seq_lens extend_lens prefix_tensors (mem_pool m)) (\<lambda>p.
                 Inr (out, rows, reqs, m\<lparr>mem_pool := p\<rparr>)))))"

definition alloc_paged_token_slots_decode ::
  "'s alloc_ops \<Rightarrow> ('t, 's) tree_ops \<Rightarrow> nat list \<Rightarrow> int list \<Rightarrow> ('t, 's) kv_mem \<Rightarrow> (int list \<times> ('t, 's) kv_mem) res" where
  "alloc_paged_token_slots_decode ao tc seq_lens last_loc m =
     rbind (evict_from_tree_cache ao tc (int (length seq_lens) * ao_page_size ao) m) (\<lambda>m.
       rbind (ao_alloc_decode ao seq_lens last_loc (mem_alloc m)) (\<lambda>(out, s).
         case out of None \<Rightarrow> Inl RuntimeError | Some xs \<Rightarrow> Inr (xs, m\<lparr>mem_alloc := s\<rparr>)))"

text \<open>\<open>write((rows, locs), values)\<close>: one value for each request.\<close>

fun rtp_write_at :: "nat list \<Rightarrow> nat list \<Rightarrow> int list \<Rightarrow> req_to_token_pool \<Rightarrow> req_to_token_pool res" where
  "rtp_write_at (i # rows) (l # locs) (v # vs) p =
     (if i < rp_size p \<and> l < max_context_len p
      then rtp_write_at rows locs vs (p\<lparr>req_to_token := (req_to_token p)[i * max_context_len p + l := v]\<rparr>)
      else Inl IndexError)"
| "rtp_write_at [] [] [] p = Inr p"
| "rtp_write_at _ _ _ p = Inl RuntimeError"

definition alloc_for_decode ::
  "'s alloc_ops \<Rightarrow> ('t, 's) tree_ops \<Rightarrow> nat \<Rightarrow> nat list \<Rightarrow> nat list option \<Rightarrow> nat list \<Rightarrow> ('t, 's) kv_mem
    \<Rightarrow> (int list \<times> ('t, 's) kv_mem) res" where
  "alloc_for_decode ao tc token_per_req seq_lens encoder_lens rows m =
     rbind (if tc_page_size tc = 1 then alloc_token_slots ao tc (length seq_lens * token_per_req) m
            else rbind (rtp_gather (mem_pool m) rows (map (\<lambda>s. int s - 1) seq_lens)) (\<lambda>last_loc.
                   alloc_paged_token_slots_decode ao tc (map (\<lambda>s. s + token_per_req) seq_lens) last_loc m)) (\<lambda>(out, m).
       let locs = (case encoder_lens of Some es \<Rightarrow> map2 (+) es seq_lens | None \<Rightarrow> seq_lens)
       in rbind (rtp_write_at rows locs out (mem_pool m)) (\<lambda>p. Inr (out, m\<lparr>mem_pool := p\<rparr>)))"

section \<open>Release\<close>

definition ceil_align :: "int \<Rightarrow> int \<Rightarrow> int" where
  "ceil_align x n = ceil_div x n * n"

text \<open>
  \<open>page_size\<close>, \<open>spec_algo\<close> and \<open>strip\<close> are the global server arguments \<open>page_size\<close>,
  \<open>speculative_algorithm is not None\<close> and \<open>strip_thinking_cache\<close>.
\<close>

definition release_kv_cache ::
  "'s alloc_ops \<Rightarrow> ('t, 's) tree_ops \<Rightarrow> int \<Rightarrow> bool \<Rightarrow> bool \<Rightarrow> bool \<Rightarrow> req \<Rightarrow> ('t, 's) kv_mem
    \<Rightarrow> (req \<times> ('t, 's) kv_mem) res" where
  "release_kv_cache ao tc page_sz spec_algo strip is_insert r m =
     (if req_pool_idx r = None then Inl AssertionError
      else rbind (tc_cache_finished_req tc is_insert r m) (\<lambda>(r, m).
        if req_pool_idx r = None then Inr (r, m)
        else rbind (pop_overallocated_kv_cache strip r) (\<lambda>((start_p, end_p), r).
          py_assert (spec_algo \<or> strip \<or> start_p = end_p)
            (let start_p = (if page_sz > 1 then ceil_align start_p page_sz else start_p)
             in rbind (if start_p < end_p
                       then ao_free ao (py_slice start_p end_p (rtp_row (the (req_pool_idx r)) (mem_pool m))) (mem_alloc m)
                       else Inr (mem_alloc m)) (\<lambda>s.
                  rbind (rtp_free r (mem_pool m)) (\<lambda>(r, p). Inr (r, m\<lparr>mem_alloc := s, mem_pool := p\<rparr>)))))))"

section \<open>Instances\<close>

definition tok_ops :: "allocator alloc_ops" where
  "tok_ops = \<lparr>ao_page_size = 1, ao_available_size = tok_available_size, ao_alloc = (\<lambda>n s. Inr (tok_alloc n s)),
     ao_alloc_extend = (\<lambda>_ _ _ _ _. Inl NotImplementedError), ao_alloc_decode = (\<lambda>_ _ _. Inl NotImplementedError),
     ao_free = (\<lambda>xs s. Inr (tok_free xs s))\<rparr>"

text \<open>\<open>z\<close> and \<open>torch_empty\<close> are the undefined values of masked loads and fresh tensors.\<close>

definition paged_ops :: "int \<Rightarrow> int \<Rightarrow> (nat \<Rightarrow> int list) \<Rightarrow> paged_allocator alloc_ops" where
  "paged_ops ps z torch_empty = \<lparr>ao_page_size = ps, ao_available_size = base_available_size, ao_alloc = paged_alloc,
     ao_alloc_extend = (\<lambda>pre seq last_loc n. paged_alloc_extend z torch_empty (map int pre) (map int pre) (map int seq) (map int seq) last_loc n),
     ao_alloc_decode = (\<lambda>seq last_loc. paged_alloc_decode z torch_empty (map int seq) (map int seq) last_loc),
     ao_free = paged_free\<rparr>"

section \<open>ChunkCache\<close>

definition chunk_match_prefix :: "match_result" where
  "chunk_match_prefix = \<lparr>device_indices = [], last_device_node = None, mr_last_host_node = None, mr_host_hit_length = 0,
     mr_cache_protected_len = None\<rparr>"

definition chunk_cache_finished_req ::
  "'s alloc_ops \<Rightarrow> bool \<Rightarrow> bool \<Rightarrow> req \<Rightarrow> (unit, 's) kv_mem \<Rightarrow> (req \<times> (unit, 's) kv_mem) res" where
  "chunk_cache_finished_req ao strip is_insert r m =
     rbind (pop_committed_kv_cache strip r) (\<lambda>(kv_committed_len, r).
       rbind (ao_free ao (py_upto kv_committed_len (rtp_row (the (req_pool_idx r)) (mem_pool m))) (mem_alloc m)) (\<lambda>s.
         Inr (r, m\<lparr>mem_alloc := s\<rparr>)))"

definition chunk_cache_unfinished_req :: "req \<Rightarrow> (unit, 's) kv_mem \<Rightarrow> req" where
  "chunk_cache_unfinished_req r m =
     r\<lparr>prefix_indices := take (length (fill_ids r)) (rtp_row (the (req_pool_idx r)) (mem_pool m))\<rparr>"

definition chunk_ops :: "'s alloc_ops \<Rightarrow> bool \<Rightarrow> (unit, 's) tree_ops" where
  "chunk_ops ao strip = \<lparr>tc_page_size = ao_page_size ao, tc_is_chunk_cache = True, tc_disable = True, tc_evictable_size = (\<lambda>_. 0),
     tc_evict = (\<lambda>_ m. Inr m), tc_inc_lock_ref = (\<lambda>_ t. t), tc_dec_lock_ref = (\<lambda>_ t. t),
     tc_match_prefix = (\<lambda>_ t. (chunk_match_prefix, t)), tc_cache_finished_req = chunk_cache_finished_req ao strip\<rparr>"

end
