(* ===== verification/Req_To_Token_Correct.thy ===== *)
theory Req_To_Token_Correct
  imports Req_To_Token
begin

text \<open>
  The Triton kernels of \<open>mem_cache/common.py\<close> agree with the torch code they replace.
\<close>

section \<open>Writing the slots of a batch\<close>

text \<open>A batch that fits the table, with a slot for each new token.\<close>

definition extend_fits ::
  "req_to_token_pool \<Rightarrow> int list \<Rightarrow> nat list \<Rightarrow> nat list \<Rightarrow> nat list \<Rightarrow> nat list \<Rightarrow> int list list \<Rightarrow> bool" where
  "extend_fits p out rows prefix_lens seq_lens extend_lens prefix_tensors \<longleftrightarrow>
     length prefix_lens = length rows \<and> length seq_lens = length rows \<and> length extend_lens = length rows
     \<and> length prefix_tensors = length rows \<and> length (req_to_token p) = rp_size p * max_context_len p
     \<and> length out = sum_list extend_lens
     \<and> (\<forall>i<length rows. rows ! i < rp_size p \<and> length (prefix_tensors ! i) = prefix_lens ! i
          \<and> seq_lens ! i = prefix_lens ! i + extend_lens ! i \<and> seq_lens ! i \<le> max_context_len p)"

text \<open>The new slots of request \<open>i\<close>, and what its program leaves in the table.\<close>

definition ext_slots :: "int list \<Rightarrow> nat list \<Rightarrow> nat \<Rightarrow> int list" where
  "ext_slots out extend_lens i = take (extend_lens ! i) (drop (sum_list (take i extend_lens)) out)"

definition place_req :: "nat \<Rightarrow> int list \<Rightarrow> nat list \<Rightarrow> nat list \<Rightarrow> nat list \<Rightarrow> int list list \<Rightarrow> int list \<Rightarrow> nat \<Rightarrow> int list" where
  "place_req L out rows prefix_lens extend_lens prefix_tensors rtt i =
     put_slice (rows ! i * L) (prefix_tensors ! i @ ext_slots out extend_lens i) rtt"

lemma length_place_reqs [simp]:
  "length (foldl (place_req L out rows prefix_lens extend_lens prefix_tensors) rtt idxs) = length rtt"
  by (induction idxs arbitrary: rtt) (simp_all add: place_req_def)

lemma row_in_table: "i < n \<Longrightarrow> k \<le> L \<Longrightarrow> i * L + k \<le> n * (L :: nat)"
  using block_bound [of i n L] by linarith

lemma sum_list_take_le: "sum_list (take i xs) + xs ! i \<le> sum_list (xs :: nat list)" if "i < length xs"
proof -
  have "sum_list (take i xs) + xs ! i = sum_list (take (Suc i) xs)" using that by (simp add: take_Suc_conv_app_nth)
  also have "\<dots> \<le> sum_list xs" by (metis append_take_drop_id le_add1 sum_list_append)
  finally show ?thesis .
qed

lemma foldl_tl_loads:
  "i \<le> length xs \<Longrightarrow> foldl (\<lambda>acc j. acc + tl_load (map int xs) (int j)) 0 [0..<i] = int (sum_list (take i xs))"
  by (induction i) (simp_all add: take_Suc_conv_app_nth)

lemma map_tl_load: "a + n \<le> length xs \<Longrightarrow> map (\<lambda>k. tl_load xs (int a + k)) [0..int n - 1] = take n (drop a xs)"
  by (intro nth_equalityI) (auto simp: tl_load_def nat_add_distrib)

lemma write_program:
  assumes fit: "extend_fits p out rows prefix_lens seq_lens extend_lens prefix_tensors" and i: "i < length rows"
    and rtt: "length rtt = length (req_to_token p)"
  shows "write_req_to_token_pool_triton (map int rows) prefix_tensors (map int prefix_lens) (map int seq_lens)
       (map int extend_lens) out (int (max_context_len p)) i rtt
     = place_req (max_context_len p) out rows prefix_lens extend_lens prefix_tensors rtt i"
proof -
  let ?L = "max_context_len p" and ?o = "sum_list (take i extend_lens)"
  let ?a = "int (rows ! i) * int ?L" and ?pre = "prefix_lens ! i" and ?ext = "extend_lens ! i" and ?v = "prefix_tensors ! i"
  note F = fit [unfolded extend_fits_def]
  have ld: "tl_load (map int rows) (int i) = int (rows ! i)" "tl_load (map int prefix_lens) (int i) = int ?pre"
    "tl_load (map int seq_lens) (int i) = int ?pre + int ?ext"
    "foldl (\<lambda>acc j. acc + tl_load (map int extend_lens) (int j)) 0 [0..<i] = int ?o"
    using F i foldl_tl_loads [of i extend_lens] by auto
  have len: "length ?v = ?pre" "?pre + ?ext \<le> ?L" "?o + ?ext \<le> length out"
    using F i sum_list_take_le [of i extend_lens] by auto
  have room: "rows ! i * ?L + (?pre + ?ext) \<le> length rtt"
    using row_in_table [of "rows ! i" "rp_size p" "?pre + ?ext" ?L] F i len(2) rtt by simp
  have roomi: "?a + int ?pre + int ?ext \<le> int (length (req_to_token p))"
  proof -
    have "int (rows ! i * ?L + (?pre + ?ext)) \<le> int (length rtt)" using room by (simp only: of_nat_le_iff)
    then show ?thesis using rtt by simp
  qed
  have pre: "foldl (\<lambda>rtt b. tl_store (map (\<lambda>lane. (?a + (b * WRITE_BLOCK + lane), tl_load ?v (b * WRITE_BLOCK + lane),
        b * WRITE_BLOCK + lane < int ?pre)) [0..WRITE_BLOCK - 1]) rtt) rtt [0..ceil_div (int ?pre) WRITE_BLOCK - 1]
      = put_slice (rows ! i * ?L) ?v rtt" if l: "length rtt = length (req_to_token p)" for rtt :: "int list"
  proof -
    have "?a + int ?pre \<le> int (length rtt)"
      using roomi l by linarith
    then show ?thesis
      using tl_store_blocks [of WRITE_BLOCK "int ?pre" ?a rtt "tl_load ?v"] map_tl_load [of 0 ?pre ?v] len(1)
      by (simp add: WRITE_BLOCK_def nat_mult_distrib)
  qed
  have ext: "foldl (\<lambda>rtt b. tl_store (map (\<lambda>lane. (?a + int ?pre + (b * WRITE_BLOCK + lane), tl_load out (int ?o + (b * WRITE_BLOCK + lane)),
        b * WRITE_BLOCK + lane < int ?ext)) [0..WRITE_BLOCK - 1]) rtt) rtt [0..ceil_div (int ?ext) WRITE_BLOCK - 1]
      = put_slice (rows ! i * ?L + ?pre) (ext_slots out extend_lens i) rtt" if l: "length rtt = length (req_to_token p)" for rtt :: "int list"
  proof -
    have "?a + int ?pre + int ?ext \<le> int (length rtt)"
      using roomi l by linarith
    then show ?thesis
      using tl_store_blocks [of WRITE_BLOCK "int ?ext" "?a + int ?pre" rtt "\<lambda>k. tl_load out (int ?o + k)"] map_tl_load [OF len(3)]
      by (simp add: WRITE_BLOCK_def nat_mult_distrib nat_add_distrib ext_slots_def)
  qed
  have 1: "write_req_to_token_pool_triton (map int rows) prefix_tensors (map int prefix_lens) (map int seq_lens)
       (map int extend_lens) out (int ?L) i rtt
     = put_slice (rows ! i * ?L + ?pre) (ext_slots out extend_lens i) (put_slice (rows ! i * ?L) ?v rtt)"
    unfolding write_req_to_token_pool_triton_def Let_def ld
    using pre [OF rtt] ext [of "put_slice (rows ! i * ?L) ?v rtt"] rtt by (simp add: algebra_simps)
  also have "\<dots> = place_req ?L out rows prefix_lens extend_lens prefix_tensors rtt i"
    unfolding place_req_def using len(1) by (simp add: put_slice_append)
  finally show ?thesis .
qed

lemma triton_writes:
  assumes fit: "extend_fits p out rows prefix_lens seq_lens extend_lens prefix_tensors"
  shows "k \<le> length rows \<Longrightarrow> run_grid (write_req_to_token_pool_triton (map int rows) prefix_tensors (map int prefix_lens) (map int seq_lens)
       (map int extend_lens) out (int (max_context_len p))) k (req_to_token p)
     = foldl (place_req (max_context_len p) out rows prefix_lens extend_lens prefix_tensors) (req_to_token p) [0..<k]"
  unfolding run_grid_def by (induction k) (simp_all add: write_program [OF fit])

lemma rtp_write_fits:
  assumes "i < rp_size p" "a + length vs \<le> max_context_len p" "b = a + length vs"
  shows "rtp_write i a b vs p = Inr (p\<lparr>req_to_token := put_slice (i * max_context_len p + a) vs (req_to_token p)\<rparr>)"
proof -
  have "length vs = Suc 0 \<Longrightarrow> [hd vs] = vs" by (cases vs) auto
  then show ?thesis using assms by (simp add: rtp_write_def Let_def)
qed

lemma loop_writes:
  assumes fit: "extend_fits p out rows prefix_lens seq_lens extend_lens prefix_tensors" and "i \<le> length rows"
  shows "write_cache_loop out (sum_list (take i extend_lens))
      (drop i (zip rows (zip prefix_tensors (zip prefix_lens (zip seq_lens extend_lens))))) (p\<lparr>req_to_token := rtt\<rparr>)
    = Inr (p\<lparr>req_to_token := foldl (place_req (max_context_len p) out rows prefix_lens extend_lens prefix_tensors) rtt [i..<length rows]\<rparr>)"
  using assms(2)
proof (induction "length rows - i" arbitrary: i rtt)
  case 0
  then show ?case using fit by (simp add: extend_fits_def)
next
  case (Suc d)
  let ?L = "max_context_len p"
  note F = fit [unfolded extend_fits_def]
  have i: "i < length rows" using Suc.hyps(2) by simp
  have dz: "drop i (zip rows (zip prefix_tensors (zip prefix_lens (zip seq_lens extend_lens))))
      = (rows ! i, prefix_tensors ! i, prefix_lens ! i, seq_lens ! i, extend_lens ! i)
        # drop (Suc i) (zip rows (zip prefix_tensors (zip prefix_lens (zip seq_lens extend_lens))))"
    using i F by (subst Cons_nth_drop_Suc [symmetric]) simp_all
  have len: "rows ! i < rp_size p" "length (prefix_tensors ! i) = prefix_lens ! i" "prefix_lens ! i + extend_lens ! i \<le> ?L"
    "seq_lens ! i = prefix_lens ! i + extend_lens ! i" "length (ext_slots out extend_lens i) = extend_lens ! i"
    using F i sum_list_take_le [of i extend_lens] by (auto simp: ext_slots_def)
  have up: "[i..<length rows] = i # [Suc i..<length rows]" using i by (simp add: upt_conv_Cons)
  have w1: "rtp_write (rows ! i) 0 (prefix_lens ! i) (prefix_tensors ! i) (p\<lparr>req_to_token := rtt\<rparr>)
      = Inr (p\<lparr>req_to_token := put_slice (rows ! i * ?L) (prefix_tensors ! i) rtt\<rparr>)"
    using rtp_write_fits [of "rows ! i" "p\<lparr>req_to_token := rtt\<rparr>" 0 "prefix_tensors ! i"] len by simp
  have w2: "rtp_write (rows ! i) (prefix_lens ! i) (seq_lens ! i) (take (extend_lens ! i) (drop (sum_list (take i extend_lens)) out))
        (p\<lparr>req_to_token := put_slice (rows ! i * ?L) (prefix_tensors ! i) rtt\<rparr>)
      = Inr (p\<lparr>req_to_token := place_req ?L out rows prefix_lens extend_lens prefix_tensors rtt i\<rparr>)"
    using rtp_write_fits [of "rows ! i" "p\<lparr>req_to_token := put_slice (rows ! i * ?L) (prefix_tensors ! i) rtt\<rparr>" "prefix_lens ! i"
        "ext_slots out extend_lens i"] len
    by (simp add: place_req_def put_slice_append ext_slots_def)
  have s: "sum_list (take i extend_lens) + extend_lens ! i = sum_list (take (Suc i) extend_lens)"
    using i F by (simp add: take_Suc_conv_app_nth)
  show ?case
    unfolding dz up write_cache_loop.simps w1 rbind_Inr w2 s foldl_Cons
    using Suc.hyps(1) [of "Suc i"] Suc.hyps(2) i by simp
qed

text \<open>
  C27. The Triton kernel that records the slots of a batch leaves the same table as the torch loop it replaces: for every
  batch that fits, both succeed, and write each request's cached prefix followed by its new slots at the start of its row.
\<close>

theorem write_cache_indices_agree:
  assumes "extend_fits p out rows prefix_lens seq_lens extend_lens prefix_tensors"
  shows "write_cache_indices True out rows prefix_lens seq_lens extend_lens prefix_tensors p
       = write_cache_indices False out rows prefix_lens seq_lens extend_lens prefix_tensors p
     \<and> write_cache_indices False out rows prefix_lens seq_lens extend_lens prefix_tensors p
       = Inr (p\<lparr>req_to_token := foldl (\<lambda>rtt i. put_slice (rows ! i * max_context_len p) (prefix_tensors ! i @ ext_slots out extend_lens i) rtt)
           (req_to_token p) [0..<length rows]\<rparr>)"
  using triton_writes [OF assms order_refl] loop_writes [OF assms, of 0 "req_to_token p"]
  by (simp add: write_cache_indices_def place_req_def [abs_def])

theorem write_cache_indices_agree_witness:
  "write_cache_indices True [7, 8, 9] [1, 0] [2, 0] [3, 2] [1, 2] [[4, 5], []] (rtp_init 2 4)
     = Inr ((rtp_init 2 4)\<lparr>req_to_token := [8, 9, 0, 0, 4, 5, 7, 0]\<rparr>)"
proof -
  have f: "extend_fits (rtp_init 2 4) [7, 8, 9] [1, 0] [2, 0] [3, 2] [1, 2] [[4, 5], []]"
    by code_simp
  have "foldl (\<lambda>rtt i. put_slice ([1, 0] ! i * max_context_len (rtp_init 2 4)) ([[4, 5], []] ! i @ ext_slots [7, 8, 9] [1, 2] i) rtt)
           (req_to_token (rtp_init 2 4)) [0..<length [1, 0 :: nat]] = [8, 9, 0, 0, 4, 5, 7, 0]"
    by code_simp
  then show ?thesis using write_cache_indices_agree [OF f] by simp
qed

section \<open>Last locations\<close>

lemma rtp_row_nth: "c < max_context_len p \<Longrightarrow> i < rp_size p \<Longrightarrow> length (req_to_token p) = rp_size p * max_context_len p \<Longrightarrow>
    rtp_row i p ! c = req_to_token p ! (i * max_context_len p + c)"
  using row_in_table [of i "rp_size p" "max_context_len p" "max_context_len p"] by (simp add: rtp_row_def)

text \<open>
  C28. The Triton kernel for the last slot of each prefix returns what the torch expression does, the slot before the prefix
  length, or \<open>-1\<close> for an empty prefix, whatever the fresh result tensor holds.
\<close>

theorem get_last_loc_agree:
  assumes "length rows = length prefix_lens" and "\<forall>i\<in>set rows. i < rp_size p" and "0 < max_context_len p"
    and "\<forall>l\<in>set prefix_lens. l \<le> max_context_len p" and "length (req_to_token p) = rp_size p * max_context_len p"
    and "length garbage = length prefix_lens"
  shows "get_last_loc_torch p rows prefix_lens = Inr (get_last_loc_triton p rows prefix_lens garbage)
     \<and> get_last_loc_triton p rows prefix_lens garbage
       = map2 (\<lambda>i l. if l = 0 then -1 else rtp_row i p ! (l - 1)) rows prefix_lens"
proof -
  let ?n = "int (length prefix_lens)" and ?L = "max_context_len p"
  define f where "f k = (let l = tl_load (map int prefix_lens) k; i = tl_load (map int rows) k
      in if l > 0 then tl_load (req_to_token p) (i * int ?L + (l - 1)) else -1)" for k
  have prog: "get_last_loc_kernel (req_to_token p) (map int rows) (map int prefix_lens) ?n (int ?L) b out
      = tl_store (map (\<lambda>i. (0 + (int b * LAST_LOC_BLOCK + i), f (int b * LAST_LOC_BLOCK + i), int b * LAST_LOC_BLOCK + i < ?n))
          [0..LAST_LOC_BLOCK - 1]) out" for b out
  proof -
    have "tl_store (map (\<lambda>i. (g i, h i, m i)) idxs) out = tl_store (map (\<lambda>i. (g i, h' i, m i)) idxs) out"
      if "\<And>i. m i \<Longrightarrow> h i = h' i" for g h h' m and idxs :: "int list" and out
      using that unfolding tl_store_def foldl_map by (induction idxs arbitrary: out) auto
    note cong = this
    show ?thesis unfolding get_last_loc_kernel_def Let_def
      by (subst cong [where h' = "\<lambda>i. f (int b * LAST_LOC_BLOCK + i)"]) (simp_all add: f_def Let_def add.commute)
  qed
  have mi: "map int [0..<nat (ceil_div ?n LAST_LOC_BLOCK)] = [0..ceil_div ?n LAST_LOC_BLOCK - 1]"
  proof -
    have "0 \<le> ceil_div ?n LAST_LOC_BLOCK" by (rule ceil_div_nonneg) (simp_all add: LAST_LOC_BLOCK_def)
    then show ?thesis by (intro nth_equalityI) auto
  qed
  have "get_last_loc_triton p rows prefix_lens garbage
      = foldl (\<lambda>out b. tl_store (map (\<lambda>i. (0 + (b * LAST_LOC_BLOCK + i), f (b * LAST_LOC_BLOCK + i), b * LAST_LOC_BLOCK + i < ?n))
          [0..LAST_LOC_BLOCK - 1]) out) garbage [0..ceil_div ?n LAST_LOC_BLOCK - 1]"
    unfolding get_last_loc_triton_def run_grid_def Let_def prog mi [symmetric] foldl_map by (rule refl)
  also have "\<dots> = put_slice (nat 0) (map f [0..?n - 1]) garbage"
    using assms(6) by (intro tl_store_blocks) (simp_all add: LAST_LOC_BLOCK_def)
  also have "\<dots> = map f [0..?n - 1]" using assms(6) by (simp add: put_slice_whole)
  also have "\<dots> = map2 (\<lambda>i l. if l = 0 then -1 else rtp_row i p ! (l - 1)) rows prefix_lens" (is "_ = ?R")
  proof (rule nth_equalityI)
    fix k assume "k < length (map f [0..?n - 1])"
    then have k: "k < length prefix_lens" by simp
    have b: "rows ! k < rp_size p" "prefix_lens ! k \<le> ?L" using assms(1,2,4) k by auto
    show "map f [0..?n - 1] ! k = ?R ! k"
    proof (cases "prefix_lens ! k = 0")
      case False
      then have e: "int (rows ! k) * int ?L + (int (prefix_lens ! k) - 1) = int (rows ! k * ?L + (prefix_lens ! k - 1))" by (simp add: of_nat_diff)
      have lt: "rows ! k * ?L + (prefix_lens ! k - 1) < length (req_to_token p)"
        using row_in_table [OF b(1), of ?L ?L] b(2) False assms(5) by linarith
      have tl: "tl_load (req_to_token p) (int j) = req_to_token p ! j" if "j < length (req_to_token p)" for j
        using that by (simp add: tl_load_def)
      have ld: "tl_load (map int prefix_lens) (int k) = int (prefix_lens ! k)" "tl_load (map int rows) (int k) = int (rows ! k)"
        using k assms(1) by simp_all
      have "f (int k) = tl_load (req_to_token p) (int (rows ! k * ?L + (prefix_lens ! k - 1)))"
        unfolding f_def Let_def ld e using False by simp
      also have "\<dots> = rtp_row (rows ! k) p ! (prefix_lens ! k - 1)"
        unfolding tl [OF lt] by (rule rtp_row_nth [OF _ b(1) assms(5), symmetric]) (use b(2) False in linarith)
      finally show ?thesis using k assms(1) False by simp
    qed (use k assms(1) in \<open>simp add: f_def\<close>)
  qed (use assms(1) in simp)
  finally have 1: "get_last_loc_triton p rows prefix_lens garbage = ?R" .
  have "rtp_gather p rows (map (\<lambda>l. int l - 1) prefix_lens)
      = Inr (map2 (\<lambda>i c. rtp_row i p ! nat (if c < 0 then c + int ?L else c)) rows (map (\<lambda>l. int l - 1) prefix_lens))"
    using assms(2,3,4) by (auto simp: rtp_gather_def Let_def)
  then have "get_last_loc_torch p rows prefix_lens = Inr (map2 (\<lambda>i l. if l = 0 then -1 else rtp_row i p ! (l - 1)) rows prefix_lens)"
    using assms(1) by (auto simp: get_last_loc_torch_def nat_diff_distrib intro!: nth_equalityI)
  then show ?thesis using 1 by simp
qed

theorem get_last_loc_agree_witness:
  "get_last_loc_triton ((rtp_init 2 3)\<lparr>req_to_token := [10, 11, 12, 13, 14, 15]\<rparr>) [1, 0, 1] [2, 0, 3] [0, 0, 0] = [14, -1, 15]"
proof -
  let ?p = "(rtp_init 2 3)\<lparr>req_to_token := [10, 11, 12, 13, 14, 15]\<rparr>"
  have "get_last_loc_triton ?p [1, 0, 1] [2, 0, 3] [0, 0, 0]
      = map2 (\<lambda>i l. if l = 0 then -1 else rtp_row i ?p ! (l - 1)) [1, 0, 1] [2, 0, 3]"
    using get_last_loc_agree [of "[1, 0, 1]" "[2, 0, 3]" ?p "[0, 0, 0]"] by (simp add: rtp_init_def)
  then show ?thesis by (simp add: rtp_row_def rtp_init_def)
qed

end
