(* ===== verification/Prefill_Adder.thy ===== *)
theory Prefill_Adder
  imports Req_To_Token "HOL-Library.Product_Lexorder"
begin

text \<open>
  \<open>PrefillAdder\<close> of \<open>managers/schedule_policy.py\<close>: which requests join the next prefill batch, under the
  budgets of cache tokens, input tokens, chunk tokens and diffusion blocks.

  Requests are references (\<open>nat\<close>) into a store, since the scheduler's queues and the adder share the objects. Token
  ratios are rationals. Sliding-window and Mamba pools, the prefill delayer and the host cache are not modelled: their
  branches are those of a plain allocator.
\<close>

section \<open>State\<close>

datatype add_req_result = CONTINUE | NO_TOKEN | OTHER

record adder =
  pa_page_size :: int
  new_token_ratio :: rat
  rem_input_tokens :: int
  rem_chunk_tokens :: "int option"
  pa_dllm_config :: "dllm_config option"
  rem_dllm_tokens :: int
  rem_total_token_offset :: rat
  cur_rem_token_offset :: rat
  req_states :: "(rat \<times> nat) list option"
  can_run_list :: "nat list"
  preempt_list :: "nat list"
  new_chunked_req :: "nat option"
  log_hit_tokens :: int
  log_input_tokens :: int
  preemption_threshold :: int
  prefill_max_requests :: "nat option"
  cp_enabled :: bool

record ('t, 's) pa_state =
  pa_adder :: adder
  pa_store :: "nat \<Rightarrow> req"
  pa_mem :: "('t, 's) kv_mem"
  pa_running :: "nat list"

type_synonym ('t, 's, 'z) pa_op = "('t, 's, 'z) pa_state_scheme \<Rightarrow> (add_req_result \<times> ('t, 's, 'z) pa_state_scheme) res"

definition CLIP_MAX_NEW_TOKENS :: int where
  "CLIP_MAX_NEW_TOKENS = 4096"

definition IGNORE_EOS_RESERVE_TOKENS :: rat where
  "IGNORE_EOS_RESERVE_TOKENS = 1"

text \<open>\<open>int(x)\<close> rounds towards zero.\<close>

definition py_int :: "rat \<Rightarrow> int" where
  "py_int x = (if x \<ge> 0 then \<lfloor>x\<rfloor> else \<lceil>x\<rceil>)"

definition max_new :: "req \<Rightarrow> int" where
  "max_new r = max_new_tokens (sampling_params r)"

definition running_request_total_token_offset :: "rat \<Rightarrow> req \<Rightarrow> rat" where
  "running_request_total_token_offset ratio r =
     of_int (min (max_new r - int (length (output_ids r))) CLIP_MAX_NEW_TOKENS) * ratio"

definition adder_init ::
  "int \<Rightarrow> rat \<Rightarrow> int \<Rightarrow> int option \<Rightarrow> int \<Rightarrow> int \<Rightarrow> nat option \<Rightarrow> bool \<Rightarrow> dllm_config option \<Rightarrow> req list \<Rightarrow> adder" where
  "adder_init ps ratio rem_input rem_chunk num_mixed threshold max_requests cp config running =
     \<lparr>pa_page_size = ps, new_token_ratio = ratio, rem_input_tokens = rem_input - num_mixed,
      rem_chunk_tokens = map_option (\<lambda>c. c - num_mixed) rem_chunk, pa_dllm_config = config,
      rem_dllm_tokens = (case config of None \<Rightarrow> 0 | Some c \<Rightarrow> int (max_running_requests c * dc_block_size c)),
      rem_total_token_offset = of_int num_mixed + sum_list (map (running_request_total_token_offset ratio) running),
      cur_rem_token_offset = of_int num_mixed, req_states = None, can_run_list = [], preempt_list = [], new_chunked_req = None,
      log_hit_tokens = 0, log_input_tokens = 0, preemption_threshold = threshold, prefill_max_requests = max_requests,
      cp_enabled = cp\<rparr>"

definition available_and_evictable :: "'s alloc_ops \<Rightarrow> ('t, 's) tree_ops \<Rightarrow> ('t, 's) kv_mem \<Rightarrow> int" where
  "available_and_evictable ao tc m = ao_available_size ao (mem_alloc m) + tc_evictable_size tc (mem_tree m)"

definition rem_total_tokens :: "'s alloc_ops \<Rightarrow> ('t, 's) tree_ops \<Rightarrow> ('t, 's, 'z) pa_state_scheme \<Rightarrow> rat" where
  "rem_total_tokens ao tc st = of_int (available_and_evictable ao tc (pa_mem st)) - rem_total_token_offset (pa_adder st)"

definition cur_rem_tokens :: "'s alloc_ops \<Rightarrow> ('t, 's) tree_ops \<Rightarrow> ('t, 's, 'z) pa_state_scheme \<Rightarrow> rat" where
  "cur_rem_tokens ao tc st = of_int (available_and_evictable ao tc (pa_mem st)) - cur_rem_token_offset (pa_adder st)"

definition ceil_paged_tokens :: "adder \<Rightarrow> int \<Rightarrow> int" where
  "ceil_paged_tokens a tokens = - ((- tokens) div pa_page_size a) * pa_page_size a"

definition budget_state :: "'s alloc_ops \<Rightarrow> ('t, 's) tree_ops \<Rightarrow> ('t, 's, 'z) pa_state_scheme \<Rightarrow> add_req_result" where
  "budget_state ao tc st =
     (let a = pa_adder st
      in if rem_total_tokens ao tc st \<le> 0 \<or> cur_rem_tokens ao tc st \<le> 0 then NO_TOKEN
         else if rem_input_tokens a \<le> 0 then OTHER
         else if pa_dllm_config a \<noteq> None then (if rem_dllm_tokens a \<le> 0 then OTHER else CONTINUE)
         else case rem_chunk_tokens a of
                Some c \<Rightarrow> if c \<le> 0 then OTHER else CONTINUE
              | None \<Rightarrow> CONTINUE)"

definition update_prefill_budget :: "int \<Rightarrow> int \<Rightarrow> int \<Rightarrow> adder \<Rightarrow> adder" where
  "update_prefill_budget prefix_len extend_len max_new_toks a =
     (let e = ceil_paged_tokens a extend_len; page_overhead = pa_page_size a;
          a = a\<lparr>rem_total_token_offset := rem_total_token_offset a + of_int (e + max_new_toks + page_overhead),
                cur_rem_token_offset := cur_rem_token_offset a + of_int (e + page_overhead),
                rem_input_tokens := rem_input_tokens a - e\<rparr>;
          a = (if pa_dllm_config a \<noteq> None then a\<lparr>rem_dllm_tokens := rem_dllm_tokens a - e\<rparr>
               else a\<lparr>rem_chunk_tokens := map_option (\<lambda>c. c - e) (rem_chunk_tokens a)\<rparr>)
      in a\<lparr>log_hit_tokens := log_hit_tokens a + prefix_len, log_input_tokens := log_input_tokens a + e\<rparr>)"

section \<open>Diffusion requests\<close>

definition pa_block_size :: "adder \<Rightarrow> int" where
  "pa_block_size a = (case pa_dllm_config a of None \<Rightarrow> 0 | Some c \<Rightarrow> int (dc_block_size c))"

definition get_dllm_remain_tokens :: "'s alloc_ops \<Rightarrow> ('t, 's) tree_ops \<Rightarrow> ('t, 's, 'z) pa_state_scheme \<Rightarrow> int" where
  "get_dllm_remain_tokens ao tc st =
     (let a = pa_adder st; rem = min (min (rem_dllm_tokens a) (pa_block_size a)) (py_int (rem_total_tokens ao tc st))
      in if rem \<le> 0 then rem_dllm_tokens a else rem)"

text \<open>Append a request to the batch, with the request and the budget updated.\<close>

definition admit :: "nat \<Rightarrow> req \<Rightarrow> int \<Rightarrow> int \<Rightarrow> int \<Rightarrow> ('t, 's, 'z) pa_state_scheme \<Rightarrow> ('t, 's, 'z) pa_state_scheme" where
  "admit i r prefix_len extend_len max_new_toks st =
     st\<lparr>pa_store := (pa_store st)(i := r),
        pa_adder := update_prefill_budget prefix_len extend_len max_new_toks
          ((pa_adder st)\<lparr>can_run_list := can_run_list (pa_adder st) @ [i]\<rparr>)\<rparr>"

definition add_dllm_req :: "nat \<Rightarrow> int \<Rightarrow> ('t, 's, 'z) pa_state_scheme \<Rightarrow> ('t, 's, 'z) pa_state_scheme" where
  "add_dllm_req i prefix_len st =
     (let r = pa_store st i; a = pa_adder st; trunc_len = min (rem_dllm_tokens a) (pa_block_size a);
          r = r\<lparr>extend_input_len := trunc_len, fill_ids := py_upto (prefix_len + trunc_len) (fill_ids r)\<rparr>
      in admit i r prefix_len trunc_len 0 st)"

definition add_dllm_prompt_cache_req :: "'s alloc_ops \<Rightarrow> ('t, 's) tree_ops \<Rightarrow> nat \<Rightarrow> ('t, 's, 'z) pa_op" where
  "add_dllm_prompt_cache_req ao tc i st =
     (let r = pa_store st i; a = pa_adder st;
          total_tokens = extend_input_len r + min (max (max_new r - int (length (output_ids r))) 0) CLIP_MAX_NEW_TOKENS
      in if of_int total_tokens \<ge> rem_total_tokens ao tc st then Inr (NO_TOKEN, st)
         else let input_tokens = ceil_paged_tokens a (extend_input_len r)
              in if input_tokens \<ge> rem_input_tokens a \<and> can_run_list a \<noteq> [] then Inr (OTHER, st)
                 else Inr (CONTINUE, admit i r (int (length (prefix_indices r))) input_tokens (min (max_new r) CLIP_MAX_NEW_TOKENS) st))"

definition add_dllm_staging_req :: "'s alloc_ops \<Rightarrow> ('t, 's) tree_ops \<Rightarrow> nat \<Rightarrow> ('t, 's, 'z) pa_op" where
  "add_dllm_staging_req ao tc i st =
     py_assert (pa_dllm_config (pa_adder st) \<noteq> None)
       (let rem = get_dllm_remain_tokens ao tc st
        in if rem \<le> 0 then Inr (NO_TOKEN, st)
           else
             let r = pa_store st i; truncated = (extend_input_len r > rem); e = min (extend_input_len r) rem;
                 r = r\<lparr>extend_input_len := e, fill_ids := py_upto (int (length (prefix_indices r)) + e) (fill_ids r)\<rparr>;
                 st = admit i r 0 e (if truncated then 0 else min (max_new r) CLIP_MAX_NEW_TOKENS) st
             in Inr (if get_dllm_remain_tokens ao tc st \<le> 0 then NO_TOKEN else CONTINUE, st))"

section \<open>Chunked and ordinary requests\<close>

text \<open>Returns the request when its prefill is not finished.\<close>

definition add_chunked_req :: "'s alloc_ops \<Rightarrow> ('t, 's) tree_ops \<Rightarrow> nat \<Rightarrow> ('t, 's, 'z) pa_state_scheme \<Rightarrow> (nat option \<times> ('t, 's, 'z) pa_state_scheme) res" where
  "add_chunked_req ao tc i st =
     rbind (if pa_dllm_config (pa_adder st) \<noteq> None then Inr (get_dllm_remain_tokens ao tc st)
            else case rem_chunk_tokens (pa_adder st) of
                   None \<Rightarrow> Inl TypeError
                 | Some c \<Rightarrow> let rem = min c (py_int (rem_total_tokens ao tc st)) in Inr (if rem \<le> 0 then c else rem)) (\<lambda>rem.
       let r = pa_store st i; truncated = (extend_input_len r > rem);
           r = set_extend_input_len (min (extend_input_len r) rem) r;
           r = r\<lparr>fill_ids := py_upto (int (length (prefix_indices r)) + extend_input_len r) (fill_ids r)\<rparr>;
           st = admit i r 0 (extend_input_len r) (if truncated then 0 else min (max_new r) CLIP_MAX_NEW_TOKENS) st
       in Inr (if truncated then Some i else None, st))"

definition req_state_of :: "rat \<Rightarrow> req \<Rightarrow> (rat \<times> nat) option" where
  "req_state_of ratio r =
     (let tokens_left = of_int (max_new r) * (if ignore_eos (sampling_params r) then 1 else ratio) - of_nat (length (output_ids r))
      in if tokens_left \<le> 0 then None else Some (tokens_left, length (origin_input_ids r) + length (output_ids r)))"

text \<open>
  The insertion loop leaves \<open>i\<close> at the first place whose tokens left are not smaller, and at the last index when
  there is none (at 0 for an empty list).
\<close>

fun insert_index :: "rat \<Rightarrow> nat \<Rightarrow> (rat \<times> nat) list \<Rightarrow> nat" where
  "insert_index t i [] = i - 1"
| "insert_index t i (s # ss) = (if t \<le> fst s then i else insert_index t (Suc i) ss)"

definition add_req_state :: "rat \<Rightarrow> bool \<Rightarrow> req \<Rightarrow> (rat \<times> nat) list \<Rightarrow> (rat \<times> nat) list" where
  "add_req_state ratio insert_sort r states =
     (case req_state_of ratio r of
        None \<Rightarrow> states
      | Some s \<Rightarrow>
          if \<not> insert_sort then states @ [s]
          else let i = insert_index (fst s) 0 states in take i states @ [s] @ drop i states)"

definition req_states_with :: "rat \<Rightarrow> (nat \<Rightarrow> req) \<Rightarrow> nat \<Rightarrow> nat list \<Rightarrow> nat list \<Rightarrow> (rat \<times> nat) list option \<Rightarrow> (rat \<times> nat) list" where
  "req_states_with ratio store i running can_run states =
     (case states of
        None \<Rightarrow> sort_key fst (foldl (\<lambda>ss r. add_req_state ratio False (store r) ss) [] (i # running @ can_run))
      | Some ss \<Rightarrow> add_req_state ratio True (store i) ss)"

text \<open>Whether the running requests, ordered by the tokens they still need, can all finish.\<close>

fun enough_until_end :: "rat \<Rightarrow> rat \<Rightarrow> (rat \<times> nat) list \<Rightarrow> bool" where
  "enough_until_end cur_rem freed [] = True"
| "enough_until_end cur_rem freed ((tokens_left, tokens_occupied) # ss) =
     (let bs = of_nat (Suc (length ss))
      in \<not> (cur_rem + freed - tokens_left * bs \<le> IGNORE_EOS_RESERVE_TOKENS * bs)
         \<and> enough_until_end cur_rem (freed + of_nat tokens_occupied) ss)"

definition add_one_req_ignore_eos :: "'s alloc_ops \<Rightarrow> ('t, 's) tree_ops \<Rightarrow> nat \<Rightarrow> ('t, 's, 'z) pa_op" where
  "add_one_req_ignore_eos ao tc i st =
     (let r = pa_store st i; a = pa_adder st; paged_input = ceil_paged_tokens a (extend_input_len r)
      in if of_int paged_input > min (cur_rem_tokens ao tc st) (rem_total_tokens ao tc st) then Inr (NO_TOKEN, st)
         else
           let states = req_states_with (new_token_ratio a) (pa_store st) i (pa_running st) (can_run_list a) (req_states a);
               a = a\<lparr>req_states := Some states\<rparr>; st = st\<lparr>pa_adder := a\<rparr>
           in if \<not> enough_until_end (cur_rem_tokens ao tc st - of_int paged_input) 0 states then Inr (NO_TOKEN, st)
              else if pa_dllm_config a \<noteq> None then
                (if rem_dllm_tokens a \<le> 0 then Inr (OTHER, st)
                 else let st = add_dllm_req i 0 st in Inr (budget_state ao tc st, st))
              else case rem_chunk_tokens a of
                None \<Rightarrow> let st = admit i r 0 (extend_input_len r) (min (max_new r) CLIP_MAX_NEW_TOKENS) st in Inr (budget_state ao tc st, st)
              | Some c \<Rightarrow>
                  if extend_input_len r \<le> c
                  then let st = admit i r 0 (extend_input_len r) (min (max_new r) CLIP_MAX_NEW_TOKENS) st in Inr (budget_state ao tc st, st)
                  else if c \<le> 0 then Inr (OTHER, st)
                  else let r = set_extend_input_len c r; r = r\<lparr>fill_ids := py_upto c (fill_ids r)\<rparr>; st = admit i r 0 c 0 st;
                           st = st\<lparr>pa_adder := (pa_adder st)\<lparr>new_chunked_req := Some i\<rparr>\<rparr>
                       in Inr (budget_state ao tc st, st))"

definition lock_tree :: "('t, 's) tree_ops \<Rightarrow> nat option \<Rightarrow> ('t, 's, 'z) pa_state_scheme \<Rightarrow> ('t, 's, 'z) pa_state_scheme" where
  "lock_tree tc n st = st\<lparr>pa_mem := (pa_mem st)\<lparr>mem_tree := tc_inc_lock_ref tc n (mem_tree (pa_mem st))\<rparr>\<rparr>"

definition unlock_tree :: "('t, 's) tree_ops \<Rightarrow> nat option \<Rightarrow> ('t, 's, 'z) pa_state_scheme \<Rightarrow> ('t, 's, 'z) pa_state_scheme" where
  "unlock_tree tc n st = st\<lparr>pa_mem := (pa_mem st)\<lparr>mem_tree := tc_dec_lock_ref tc n (mem_tree (pa_mem st))\<rparr>\<rparr>"

text \<open>
  The part of \<open>add_one_req\<close> under the node's lock; the flag tells that \<open>budget_state\<close> gives the result, after the
  lock is released. A host hit needs \<open>init_load_back\<close>, which the plain caches do not implement.
\<close>

definition add_one_req_locked ::
  "'s alloc_ops \<Rightarrow> ('t, 's) tree_ops \<Rightarrow> nat \<Rightarrow> int \<Rightarrow> int option \<Rightarrow> ('t, 's, 'z) pa_state_scheme
    \<Rightarrow> (add_req_result option \<times> ('t, 's, 'z) pa_state_scheme) res" where
  "add_one_req_locked ao tc i total_tokens align st =
     (let r = pa_store st i; a = pa_adder st; prefix_len = int (length (prefix_indices r))
      in if of_int total_tokens \<ge> rem_total_tokens ao tc st then Inr (Some NO_TOKEN, st)
         else if host_hit_length r > 0 then Inl NotImplementedError
         else
           let input_tokens = ceil_paged_tokens a (extend_input_len r)
           in if input_tokens \<ge> rem_input_tokens a \<and> can_run_list a \<noteq> [] then Inr (Some OTHER, st)
              else if pa_dllm_config a \<noteq> None then
                (if rem_dllm_tokens a \<le> 0 then Inr (Some OTHER, st)
                 else py_assert (align = None) (Inr (None, lock_tree tc (last_node r) (add_dllm_req i prefix_len st))))
              else case rem_chunk_tokens a of
                None \<Rightarrow> Inr (None, admit i r prefix_len input_tokens (min (max_new r) CLIP_MAX_NEW_TOKENS) (lock_tree tc (last_node r) st))
              | Some c \<Rightarrow>
                  if input_tokens \<le> c
                  then Inr (None, admit i r prefix_len input_tokens (min (max_new r) CLIP_MAX_NEW_TOKENS) (lock_tree tc (last_node r) st))
                  else
                    let trunc_len = c div pa_page_size a * pa_page_size a
                    in if trunc_len \<le> 0 then Inr (Some OTHER, st)
                       else if (case align of Some al \<Rightarrow> trunc_len < al | None \<Rightarrow> False) then Inr (Some OTHER, st)
                       else
                         let trunc_len = (case align of Some al \<Rightarrow> al * (trunc_len div al) | None \<Rightarrow> trunc_len);
                             r = set_extend_input_len trunc_len r;
                             r = r\<lparr>fill_ids := py_upto (int (length (prefix_indices r)) + trunc_len) (fill_ids r)\<rparr>;
                             st = admit i r prefix_len trunc_len 0 (lock_tree tc (last_node r) st)
                         in Inr (None, st\<lparr>pa_adder := (pa_adder st)\<lparr>new_chunked_req := Some i\<rparr>\<rparr>))"

definition add_one_req :: "'s alloc_ops \<Rightarrow> ('t, 's) tree_ops \<Rightarrow> nat \<Rightarrow> int option \<Rightarrow> ('t, 's, 'z) pa_op" where
  "add_one_req ao tc i align st =
     (let r = pa_store st i; a = pa_adder st
      in if cp_enabled a \<and> can_run_list a \<noteq> [] then Inr (OTHER, st)
         else if (case prefill_max_requests a of Some x \<Rightarrow> length (can_run_list a) \<ge> x | None \<Rightarrow> False) then Inr (OTHER, st)
         else if ignore_eos (sampling_params r) \<and> tc_disable tc then add_one_req_ignore_eos ao tc i st
         else
           let mx = min (max (max_new r - int (length (output_ids r))) 0) CLIP_MAX_NEW_TOKENS;
               total_tokens = extend_input_len r + mx + pa_page_size a;
               real_input_tokens = ceil_paged_tokens a (extend_input_len r - host_hit_length r)
           in if of_int total_tokens \<ge> rem_total_tokens ao tc st then Inr (NO_TOKEN, st)
              else if real_input_tokens \<ge> rem_input_tokens a \<and> can_run_list a \<noteq> [] then Inr (OTHER, st)
              else rbind (add_one_req_locked ao tc i total_tokens align (lock_tree tc (last_node r) st)) (\<lambda>(res, st).
                let st = unlock_tree tc (last_node r) st
                in Inr (case res of Some x \<Rightarrow> x | None \<Rightarrow> budget_state ao tc st, st)))"

section \<open>Preemption\<close>

text \<open>
  \<open>release_req\<close> of \<open>ScheduleBatch\<close>; \<open>retract_steps\<close> is \<open>SGLANG_RETRACT_DECODE_STEPS\<close>. The record
  carries the server arguments that the release reads.
\<close>

record preempt_args =
  low_first :: bool
  retract_steps :: nat
  pr_page_size :: int
  pr_spec :: bool
  pr_strip :: bool

definition release_req ::
  "'s alloc_ops \<Rightarrow> ('t, 's) tree_ops \<Rightarrow> preempt_args \<Rightarrow> nat \<Rightarrow> nat \<Rightarrow> ('t, 's, 'z) pa_state_scheme \<Rightarrow> ('t, 's, 'z) pa_state_scheme res" where
  "release_req ao tc args i remaining st =
     rbind (release_kv_cache ao tc (pr_page_size args) (pr_spec args) (pr_strip args) False (pa_store st i) (pa_mem st)) (\<lambda>(r, m).
       rbind (evict_from_tree_cache ao tc (int (remaining * retract_steps args)) m) (\<lambda>m.
         Inr (st\<lparr>pa_store := (pa_store st)(i := reset_for_retract r), pa_mem := m\<rparr>)))"

text \<open>Take running requests in order while their priority is low enough, until enough tokens are found.\<close>

fun pick_preemptible :: "adder \<Rightarrow> (nat \<Rightarrow> req) \<Rightarrow> int \<Rightarrow> int \<Rightarrow> rat \<Rightarrow> nat list \<Rightarrow> nat list \<times> rat" where
  "pick_preemptible a store sign prio need [] = ([], need)"
| "pick_preemptible a store sign prio need (i # rest) =
     (if (prio - priority (store i)) * (- sign) > preemption_threshold a
      then let need = need - running_request_total_token_offset (new_token_ratio a) (store i)
           in if need \<le> 0 then ([i], need)
              else let (picked, need) = pick_preemptible a store sign prio need rest in (i # picked, need)
      else ([], need))"

fun release_all ::
  "'s alloc_ops \<Rightarrow> ('t, 's) tree_ops \<Rightarrow> preempt_args \<Rightarrow> nat \<Rightarrow> nat \<Rightarrow> nat list \<Rightarrow> ('t, 's, 'z) pa_state_scheme \<Rightarrow> ('t, 's, 'z) pa_state_scheme res" where
  "release_all ao tc args num k [] st = Inr st"
| "release_all ao tc args num k (i # rest) st =
     (let st = st\<lparr>pa_adder := (pa_adder st)\<lparr>rem_total_token_offset := rem_total_token_offset (pa_adder st)
                  - running_request_total_token_offset (new_token_ratio (pa_adder st)) (pa_store st i)\<rparr>\<rparr>
      in rbind (release_req ao tc args i (num - Suc k) st) (\<lambda>st. release_all ao tc args num (Suc k) rest st))"

definition preempt_to_schedule ::
  "'s alloc_ops \<Rightarrow> ('t, 's) tree_ops \<Rightarrow> preempt_args \<Rightarrow> nat \<Rightarrow> ('t, 's, 'z) pa_state_scheme \<Rightarrow> (bool \<times> ('t, 's, 'z) pa_state_scheme) res" where
  "preempt_to_schedule ao tc args i st =
     (let a = pa_adder st; store = pa_store st; r = store i;
          sign = (if low_first args then 1 else -1);
          valid = filter (\<lambda>j. j \<notin> set (preempt_list a) \<and> \<not> finished (store j)) (pa_running st);
          sorted_valid = sort_key (\<lambda>j. (priority (store j) * (- sign), - wait_queue_entry_time (store j))) valid;
          need = of_int (extend_input_len r + min (max_new r) CLIP_MAX_NEW_TOKENS) - rem_total_tokens ao tc st;
          (picked, need) = pick_preemptible a store sign (priority r) need sorted_valid
      in if picked = [] \<or> need > 0 then Inr (False, st)
         else rbind (release_all ao tc args (length (pa_running st)) 0 (filter (\<lambda>j. j \<in> set picked) (pa_running st)) st) (\<lambda>st.
           Inr (True, st\<lparr>pa_running := filter (\<lambda>j. j \<notin> set picked) (pa_running st),
                         pa_adder := (pa_adder st)\<lparr>preempt_list := preempt_list (pa_adder st) @ picked\<rparr>\<rparr>)))"

end
