(* ===== verification/Dllm_Scheduler.thy ===== *)
theory Dllm_Scheduler
  imports Prefill_Adder
begin

text \<open>
  The scheduling of diffusion requests: \<open>DllmManager\<close> and \<open>SchedulerDllmMixin\<close> of
  \<open>dllm/mixin/scheduler.py\<close>, with \<open>prepare_for_extend\<close> of \<open>managers/schedule_batch.py\<close> and the
  diffusion path through \<open>get_next_batch_to_run\<close> and \<open>event_loop_normal\<close> of \<open>managers/scheduler.py\<close>.

  The scheduler is one record over the store of requests and the cache memory. Profiling, metrics and the streaming of
  outputs are left out. The scheduling policy, the decoding algorithm and the tokenizer are parameters (fields of
  \<open>dllm_env\<close>).
\<close>

section \<open>DllmManager\<close>

record dllm_manager =
  dm_config :: "dllm_config option"
  max_running_reqs :: nat
  dm_waiting_queue :: "nat list"
  dm_staging_queue :: "nat list"

definition dllm_manager_init :: "dllm_config option \<Rightarrow> dllm_manager" where
  "dllm_manager_init c =
     \<lparr>dm_config = c, max_running_reqs = (case c of Some c \<Rightarrow> max_running_requests c | None \<Rightarrow> 1),
      dm_waiting_queue = [], dm_staging_queue = []\<rparr>"

definition get_prefill_requests :: "(nat \<Rightarrow> req) \<Rightarrow> dllm_manager \<Rightarrow> nat list" where
  "get_prefill_requests store d = filter (\<lambda>i. is_dllm_prefill (store i)) (dm_waiting_queue d)"

definition get_decode_requests :: "(nat \<Rightarrow> req) \<Rightarrow> dllm_manager \<Rightarrow> nat list" where
  "get_decode_requests store d = filter (\<lambda>i. \<not> is_dllm_prefill (store i)) (dm_waiting_queue d)"

definition has_duplicate_reqs :: "(nat \<Rightarrow> req) \<Rightarrow> nat list \<Rightarrow> dllm_manager \<Rightarrow> bool" where
  "has_duplicate_reqs store reqs d \<longleftrightarrow> (\<exists>i\<in>set reqs. rid (store i) \<in> set (map (\<lambda>j. rid (store j)) (dm_waiting_queue d)))"

definition add_waiting_reqs :: "(nat \<Rightarrow> req) \<Rightarrow> nat list \<Rightarrow> dllm_manager \<Rightarrow> dllm_manager res" where
  "add_waiting_reqs store reqs d =
     py_assert (dm_config d \<noteq> None)
       (if has_duplicate_reqs store reqs d then Inl RuntimeError
        else Inr (d\<lparr>dm_waiting_queue := dm_waiting_queue d @ reqs\<rparr>))"

definition add_staging_reqs :: "nat list \<Rightarrow> dllm_manager \<Rightarrow> dllm_manager" where
  "add_staging_reqs reqs d = d\<lparr>dm_staging_queue := dm_staging_queue d @ reqs\<rparr>"

definition any_staging_reqs :: "dllm_manager \<Rightarrow> bool" where
  "any_staging_reqs d \<longleftrightarrow> dm_config d \<noteq> None \<and> dm_staging_queue d \<noteq> []"

definition dm_is_empty :: "dllm_manager \<Rightarrow> bool" where
  "dm_is_empty d \<longleftrightarrow> dm_config d = None \<or> dm_waiting_queue d = []"

definition increment_chunked_count :: "dllm_manager \<Rightarrow> (nat \<Rightarrow> req) \<Rightarrow> nat \<Rightarrow> req" where
  "increment_chunked_count d store =
     foldl (\<lambda>store i. store(i := (store i)\<lparr>is_chunked := is_chunked (store i) + 1\<rparr>)) store (dm_staging_queue d)"

definition filter_finished_reqs :: "(nat \<Rightarrow> req) \<Rightarrow> dllm_manager \<Rightarrow> dllm_manager" where
  "filter_finished_reqs store d =
     d\<lparr>dm_waiting_queue := filter (\<lambda>i. \<not> finished (store i)) (dm_waiting_queue d),
       dm_staging_queue := filter (\<lambda>i. \<not> finished (store i)) (dm_staging_queue d)\<rparr>"

section \<open>The scheduler\<close>

record dllm_batch =
  db_reqs :: "nat list"
  db_mode :: forward_mode
  db_input_ids :: "int list"
  db_seq_lens :: "nat list"
  db_prefix_lens :: "nat list"
  db_out_cache_loc :: "int list"
  db_req_pool_indices :: "nat list"

record ('t, 's) sched = "('t, 's) pa_state" +
  waiting_queue :: "nat list"
  sc_manager :: dllm_manager
  batch_is_full :: bool
  num_generated_tokens :: int
  last_batch :: "dllm_batch option"

record dllm_result =
  next_token_ids :: "int list list"
  next_token_logprobs :: "rat list list option"
  next_token_reveal_steps :: "nat list list option"
  next_token_entropy :: "rat list list option"

record ('t, 's) dllm_env =
  en_ao :: "'s alloc_ops"
  en_tc :: "('t, 's) tree_ops"
  en_free_group_begin :: "'s \<Rightarrow> 's"
  en_free_group_end :: "'s \<Rightarrow> 's res"
  en_config :: dllm_config
  en_page_size :: int
  en_new_token_ratio :: rat
  en_max_prefill_tokens :: int
  en_chunked_prefill_size :: "int option"
  en_is_mixed_chunk :: bool
  en_threshold :: int
  en_prefill_max_requests :: "nat option"
  en_cp_enabled :: bool
  en_priority_scheduling :: bool
  en_pp_max_micro_batch_size :: int
  en_pp_size :: nat
  en_truncation_align_size :: "int option"
  en_preempt :: preempt_args
  en_root_node :: "nat option"
  en_support_triton :: bool
  en_emit_full_blocks :: bool
  en_calc_priority :: "(nat \<Rightarrow> req) \<Rightarrow> nat list \<Rightarrow> nat list"
  en_decode :: "int list \<Rightarrow> string"
  en_re_search :: "string \<Rightarrow> string \<Rightarrow> bool"

definition get_num_allocatable_reqs :: "('t, 's) dllm_env \<Rightarrow> ('t, 's, 'z) pa_state_scheme \<Rightarrow> int" where
  "get_num_allocatable_reqs e st =
     (let res = en_pp_max_micro_batch_size e - int (length (pa_running st))
      in if en_pp_size e > 1 then min res (int (rtp_available_size (mem_pool (pa_mem st)))) else res)"

definition should_skip_prefill :: "('t, 's) dllm_env \<Rightarrow> ('t, 's) sched \<Rightarrow> bool \<times> ('t, 's) sched" where
  "should_skip_prefill e st =
     (if (batch_is_full st \<or> waiting_queue st = []) \<and> dm_is_empty (sc_manager st) then (True, st)
      else if get_num_allocatable_reqs e st \<le> 0 \<and> dm_is_empty (sc_manager st) \<and> \<not> en_priority_scheduling e
      then (True, st\<lparr>batch_is_full := True\<rparr>)
      else (False, st))"

definition create_dllm_prefill_adder :: "('t, 's) dllm_env \<Rightarrow> ('t, 's) sched \<Rightarrow> adder" where
  "create_dllm_prefill_adder e st =
     adder_init (en_page_size e) (en_new_token_ratio e) (en_max_prefill_tokens e) (en_chunked_prefill_size e)
       (if en_is_mixed_chunk e then int (length (pa_running st)) else 0) (en_threshold e) (en_prefill_max_requests e)
       (en_cp_enabled e) (Some (en_config e)) (map (pa_store st) (pa_running st))"

text \<open>The body of \<open>_prepare_staging_reqs\<close> for one request.\<close>

definition prepare_staging_req :: "req_to_token_pool \<Rightarrow> req \<Rightarrow> req res" where
  "prepare_staging_req p r =
     rbind (init_next_round_input None () r) (\<lambda>(r, _).
       case req_pool_idx r of
         None \<Rightarrow> Inr r
       | Some i \<Rightarrow>
           if kv_committed_len r > 0
           then rbind (determine_dllm_phase (r\<lparr>prefix_indices := py_upto (kv_committed_len r) (rtp_row i p)\<rparr>)) (\<lambda>r.
                  Inr (set_extend_input_len (int (length (fill_ids r)) - int (length (prefix_indices r))) r))
           else Inr r)"

fun prepare_reqs :: "req_to_token_pool \<Rightarrow> nat list \<Rightarrow> (nat \<Rightarrow> req) \<Rightarrow> (nat \<Rightarrow> req) res" where
  "prepare_reqs p [] store = Inr store"
| "prepare_reqs p (i # rest) store = rbind (prepare_staging_req p (store i)) (\<lambda>r. prepare_reqs p rest (store(i := r)))"

definition prepare_staging_reqs :: "('t, 's) sched \<Rightarrow> ('t, 's) sched res" where
  "prepare_staging_reqs st =
     rbind (prepare_reqs (mem_pool (pa_mem st)) (dm_staging_queue (sc_manager st)) (pa_store st)) (\<lambda>store.
       Inr (st\<lparr>pa_store := store, sc_manager := (sc_manager st)\<lparr>dm_staging_queue := []\<rparr>\<rparr>))"

definition fetch_waiting_reqs :: "('t, 's) dllm_env \<Rightarrow> ('t, 's) sched \<Rightarrow> ('t, 's) sched res" where
  "fetch_waiting_reqs e st =
     (let max_dllm_capacity = int (max_running_requests (en_config e)) - int (length (dm_waiting_queue (sc_manager st)));
          num = min max_dllm_capacity (int (length (waiting_queue st)))
      in if num > 0
         then rbind (add_waiting_reqs (pa_store st) (take (nat num) (waiting_queue st)) (sc_manager st)) (\<lambda>d.
                Inr (st\<lparr>sc_manager := d, waiting_queue := drop (nat num) (waiting_queue st)\<rparr>))
         else Inr st)"

section \<open>Filling the batch\<close>

text \<open>
  The test at the head of both loops over incoming requests: whether the loop is left. A full batch goes on only when a
  running request is preempted.
\<close>

definition batch_full_stop :: "('t, 's) dllm_env \<Rightarrow> nat \<Rightarrow> ('t, 's) sched \<Rightarrow> (bool \<times> ('t, 's) sched) res" where
  "batch_full_stop e i st =
     (let st = (if int (length (can_run_list (pa_adder st))) \<ge> get_num_allocatable_reqs e st
                then st\<lparr>batch_is_full := True\<rparr> else st)
      in if \<not> batch_is_full st then Inr (False, st)
         else if \<not> en_priority_scheduling e then Inr (True, st)
         else rbind (preempt_to_schedule (en_ao e) (en_tc e) (en_preempt e) i st) (\<lambda>(ok, st). Inr (\<not> ok, st)))"

fun process_incoming_prefill_reqs :: "('t, 's) dllm_env \<Rightarrow> nat list \<Rightarrow> ('t, 's) sched \<Rightarrow> ('t, 's) sched res" where
  "process_incoming_prefill_reqs e [] st = Inr st"
| "process_incoming_prefill_reqs e (i # rest) st =
     rbind (batch_full_stop e i st) (\<lambda>(stop, st).
       if stop then Inr st
       else
         let r = init_prompt_cache_input (pa_store st i);
             r = (if last_node r = None then r\<lparr>last_node := en_root_node e\<rparr> else r);
             st = st\<lparr>pa_store := (pa_store st)(i := r)\<rparr>
         in rbind (add_dllm_prompt_cache_req (en_ao e) (en_tc e) i st) (\<lambda>(res, st).
              if res = CONTINUE then process_incoming_prefill_reqs e rest st
              else Inr (if res = NO_TOKEN then st\<lparr>batch_is_full := True\<rparr> else st)))"

fun process_dllm_staging_reqs ::
  "('t, 's) dllm_env \<Rightarrow> nat list \<Rightarrow> ('t, 's) sched \<Rightarrow> (add_req_result \<times> ('t, 's) sched) res" where
  "process_dllm_staging_reqs e [] st = Inr (CONTINUE, st)"
| "process_dllm_staging_reqs e (i # rest) st =
     rbind (add_dllm_staging_req (en_ao e) (en_tc e) i st) (\<lambda>(res, st).
       if res = NO_TOKEN then Inr (res, st) else process_dllm_staging_reqs e rest st)"

fun process_dllm_incoming_reqs ::
  "('t, 's) dllm_env \<Rightarrow> add_req_result \<Rightarrow> nat list \<Rightarrow> ('t, 's) sched \<Rightarrow> (add_req_result \<times> ('t, 's) sched) res" where
  "process_dllm_incoming_reqs e res [] st = Inr (res, st)"
| "process_dllm_incoming_reqs e res (i # rest) st =
     rbind (batch_full_stop e i st) (\<lambda>(stop, st).
       if stop then Inr (res, st)
       else
         rbind (init_next_round_input (Some (tc_match_prefix (en_tc e))) (mem_tree (pa_mem st)) (pa_store st i)) (\<lambda>(r, t).
              let st = st\<lparr>pa_store := (pa_store st)(i := r), pa_mem := (pa_mem st)\<lparr>mem_tree := t\<rparr>\<rparr>
              in rbind (add_one_req (en_ao e) (en_tc e) i (en_truncation_align_size e) st) (\<lambda>(res, st).
                   if res = CONTINUE then process_dllm_incoming_reqs e res rest st
                   else Inr (res, if res = NO_TOKEN then st\<lparr>batch_is_full := True\<rparr> else st))))"

definition process_batch_by_phase ::
  "('t, 's) dllm_env \<Rightarrow> nat list \<Rightarrow> dllm_req_phase \<Rightarrow> dllm_req_phase \<Rightarrow> ('t, 's) sched \<Rightarrow> ('t, 's) sched res" where
  "process_batch_by_phase e batch staging_phase incoming_phase st =
     (let staging = filter (\<lambda>i. dllm_phase (pa_store st i) = Some staging_phase) batch
      in rbind (if staging \<noteq> [] then process_dllm_staging_reqs e staging st else Inr (CONTINUE, st)) (\<lambda>(res, st).
           if res \<noteq> CONTINUE then Inr st
           else let incoming = filter (\<lambda>i. dllm_phase (pa_store st i) = Some incoming_phase) batch
                in if incoming \<noteq> [] then rbind (process_dllm_incoming_reqs e CONTINUE incoming st) (\<lambda>(_, st). Inr st)
                   else Inr st))"

definition process_dllm_batches :: "('t, 's) dllm_env \<Rightarrow> ('t, 's) sched \<Rightarrow> (forward_mode \<times> ('t, 's) sched) res" where
  "process_dllm_batches e st =
     (let d = sc_manager st; store = pa_store st;
          incoming_prefill = filter (\<lambda>i. dllm_phase (store i) = Some INCOMING_PREFILL) (dm_waiting_queue d)
      in if incoming_prefill \<noteq> []
         then rbind (process_incoming_prefill_reqs e incoming_prefill st) (\<lambda>st. Inr (EXTEND, st))
         else
           let prefill = get_prefill_requests store d
           in rbind (if prefill \<noteq> [] then process_batch_by_phase e prefill STAGING_PREFILL INCOMING_PREFILL st
                     else process_batch_by_phase e (get_decode_requests store d) STAGING_DECODE INCOMING_DECODE st) (\<lambda>st.
                Inr (DLLM_EXTEND, st)))"

definition update_state_for_batch :: "('t, 's) sched \<Rightarrow> ('t, 's) sched" where
  "update_state_for_batch st =
     (let a = pa_adder st; st = st\<lparr>waiting_queue := waiting_queue st @ preempt_list a\<rparr>
      in if can_run_list a \<noteq> []
         then let d = add_staging_reqs (can_run_list a) (sc_manager st)
              in st\<lparr>sc_manager := d, pa_store := increment_chunked_count d (pa_store st)\<rparr>
         else st)"

section \<open>prepare_for_extend\<close>

text \<open>The loop over the requests after the allocation: rows, cache lengths and the count of cached tokens.\<close>

definition extend_one :: "nat \<Rightarrow> req \<Rightarrow> req res" where
  "extend_one row r =
     (let seq_len = int (length (fill_ids r)); pre_len = int (length (prefix_indices r))
      in py_assert (seq_len - pre_len = extend_input_len r)
           (let r = r\<lparr>req_pool_idx := Some row, kv_committed_len := seq_len, kv_allocated_len := seq_len\<rparr>;
                r = (if retracted_stain r then r
                     else r\<lparr>cached_tokens := cached_tokens r + (pre_len - already_computed r), already_computed := seq_len\<rparr>)
            in Inr (r\<lparr>is_retracted := False\<rparr>)))"

fun extend_all :: "(nat \<times> nat) list \<Rightarrow> (nat \<Rightarrow> req) \<Rightarrow> (nat \<Rightarrow> req) res" where
  "extend_all [] store = Inr store"
| "extend_all ((i, row) # rest) store = rbind (extend_one row (store i)) (\<lambda>r. extend_all rest (store(i := r)))"

text \<open>
  \<open>alloc_for_extend\<close> assigns rows to the request objects, so they go back into the store. A batch whose extend
  lengths differ from its inputs fails in the loop after the allocation.
\<close>

definition prepare_for_extend ::
  "('t, 's) dllm_env \<Rightarrow> nat list \<Rightarrow> ('t, 's) sched \<Rightarrow> (dllm_batch \<times> ('t, 's) sched) res" where
  "prepare_for_extend e idxs st =
     (let reqs = map (pa_store st) idxs;
          input_ids = map (\<lambda>r. drop (length (prefix_indices r)) (fill_ids r)) reqs;
          seq_lens = map (\<lambda>r. length (fill_ids r)) reqs;
          prefix_lens = map (\<lambda>r. length (prefix_indices r)) reqs
      in rbind (alloc_for_extend (en_support_triton e) (en_ao e) (en_tc e) prefix_lens (map (\<lambda>r. nat (extend_input_len r)) reqs)
                  seq_lens (sum_list (map length input_ids)) reqs (pa_mem st)) (\<lambda>(out, rows, reqs, m).
           rbind (extend_all (zip idxs rows) (pa_store st)) (\<lambda>store.
             Inr (\<lparr>db_reqs = idxs, db_mode = DLLM_EXTEND, db_input_ids = concat input_ids, db_seq_lens = seq_lens,
                   db_prefix_lens = prefix_lens, db_out_cache_loc = out, db_req_pool_indices = rows\<rparr>,
                  st\<lparr>pa_store := store, pa_mem := m\<rparr>))))"

definition create_dllm_batch ::
  "('t, 's) dllm_env \<Rightarrow> nat list \<Rightarrow> forward_mode \<Rightarrow> ('t, 's) sched \<Rightarrow> (dllm_batch \<times> ('t, 's) sched) res" where
  "create_dllm_batch e idxs mode st =
     rbind (prepare_for_extend e idxs st) (\<lambda>(b, st). Inr (b\<lparr>db_mode := mode\<rparr>, st))"

definition get_new_batch_dllm :: "('t, 's) dllm_env \<Rightarrow> ('t, 's) sched \<Rightarrow> (dllm_batch option \<times> ('t, 's) sched) res" where
  "get_new_batch_dllm e st =
     (let st = (if en_priority_scheduling e then st\<lparr>batch_is_full := False\<rparr> else st);
          (skip, st) = should_skip_prefill e st
      in if skip then Inr (None, st)
         else
           let st = st\<lparr>waiting_queue := en_calc_priority e (pa_store st) (waiting_queue st)\<rparr>;
               st = st\<lparr>pa_adder := create_dllm_prefill_adder e st\<rparr>
           in rbind (prepare_staging_reqs st) (\<lambda>st.
                rbind (fetch_waiting_reqs e st) (\<lambda>st.
                  rbind (process_dllm_batches e st) (\<lambda>(mode, st).
                    let can_run = can_run_list (pa_adder st)
                    in if can_run = [] then Inr (None, st)
                       else rbind (create_dllm_batch e can_run mode (update_state_for_batch st)) (\<lambda>(b, st).
                         Inr (Some b, st))))))"

section \<open>process_batch_result_dllm\<close>

text \<open>Give back the last \<open>rejected\<close> slots of a request. TiDAR has freed them itself.\<close>

definition trim_kv :: "('t, 's) dllm_env \<Rightarrow> nat \<Rightarrow> req \<Rightarrow> ('t, 's) kv_mem \<Rightarrow> (req \<times> ('t, 's) kv_mem) res" where
  "trim_kv e rejected r m =
     (let tidar_manages_kv = algorithm (en_config e) \<in> {''TiDAR'', ''tidar''};
          free_start = kv_committed_len r - int rejected; free_end = kv_committed_len r
      in rbind (if tidar_manages_kv then Inr (mem_alloc m)
                else ao_free (en_ao e) (py_slice free_start free_end (rtp_row (the (req_pool_idx r)) (mem_pool m))) (mem_alloc m)) (\<lambda>s.
           Inr (r\<lparr>kv_committed_len := free_start, kv_allocated_len := free_start\<rparr>, m\<lparr>mem_alloc := s\<rparr>)))"

definition append_logprobs :: "nat \<Rightarrow> dllm_result \<Rightarrow> int list \<Rightarrow> req \<Rightarrow> req res" where
  "append_logprobs idx result ids r =
     (case next_token_logprobs result of
        None \<Rightarrow> Inr r
      | Some lps \<Rightarrow>
          if \<not> return_logprob r then Inr r
          else if length (lps ! idx) \<noteq> length ids then Inl RuntimeError
          else
            let k = length ids;
                r = r\<lparr>output_token_logprobs_val := output_token_logprobs_val r @ lps ! idx,
                      output_token_logprobs_idx := output_token_logprobs_idx r @ ids\<rparr>;
                r = (case (next_token_reveal_steps result, output_token_reveal_steps r) of
                       (Some s, Some xs) \<Rightarrow> r\<lparr>output_token_reveal_steps := Some (xs @ s ! idx)\<rparr> | _ \<Rightarrow> r);
                r = (case (next_token_entropy result, output_token_entropy_val r) of
                       (Some s, Some xs) \<Rightarrow> r\<lparr>output_token_entropy_val := Some (xs @ s ! idx)\<rparr> | _ \<Rightarrow> r);
                r = (if top_logprobs_num r > 0
                     then r\<lparr>output_top_logprobs_val := output_top_logprobs_val r @ replicate k [],
                            output_top_logprobs_idx := output_top_logprobs_idx r @ replicate k []\<rparr> else r)
            in Inr (if token_ids_logprob r \<noteq> None
                    then r\<lparr>output_token_ids_logprobs_val := output_token_ids_logprobs_val r @ replicate k [],
                           output_token_ids_logprobs_idx := output_token_ids_logprobs_idx r @ replicate k []\<rparr> else r))"

definition round_finished_len :: "('t, 's) dllm_env \<Rightarrow> req \<Rightarrow> req res" where
  "round_finished_len e r =
     (case finished_len r of
        Some k \<Rightarrow>
          if finished r \<and> en_emit_full_blocks e
          then let bs = int (dc_block_size (en_config e))
               in if bs = 0 then Inl ZeroDivisionError
                  else Inr (r\<lparr>finished_len := Some (min (- ((- k) div bs) * bs) (int (length (output_ids r))))\<rparr>)
          else Inr r
      | None \<Rightarrow> Inr r)"

text \<open>One request of the batch.\<close>

definition process_result_req ::
  "('t, 's) dllm_env \<Rightarrow> dllm_result \<Rightarrow> nat \<Rightarrow> nat \<Rightarrow> ('t, 's) sched \<Rightarrow> ('t, 's) sched res" where
  "process_result_req e result idx i st =
     (if \<not> idx < length (next_token_ids result) then Inl IndexError
      else
        let ids = next_token_ids result ! idx; k = length ids; r = pa_store st i; n = dc_block_size (en_config e)
        in if k = 0 then rbind (trim_kv e n r (pa_mem st)) (\<lambda>(r, m). Inr (st\<lparr>pa_store := (pa_store st)(i := r), pa_mem := m\<rparr>))
           else
             let r = r\<lparr>fill_ids := take (length (fill_ids r) - k) (fill_ids r) @ ids, output_ids := output_ids r @ ids\<rparr>;
                 st = st\<lparr>num_generated_tokens := num_generated_tokens st + int k\<rparr>
             in rbind (append_logprobs idx result ids r) (\<lambda>r.
                  rbind (if k < n then trim_kv e (n - k) r (pa_mem st) else Inr (r, pa_mem st)) (\<lambda>(r, m).
                    rbind (check_finished (en_decode e) (en_re_search e) k r) (\<lambda>r.
                      rbind (round_finished_len e r) (\<lambda>r.
                        rbind (if finished r
                               then release_kv_cache (en_ao e) (en_tc e) (pr_page_size (en_preempt e)) (pr_spec (en_preempt e))
                                      (pr_strip (en_preempt e)) False r m
                               else Inr (r, m)) (\<lambda>(r, m).
                          Inr (st\<lparr>pa_store := (pa_store st)(i := r), pa_mem := m\<rparr>)))))))"

fun process_result_reqs ::
  "('t, 's) dllm_env \<Rightarrow> dllm_result \<Rightarrow> nat \<Rightarrow> nat list \<Rightarrow> ('t, 's) sched \<Rightarrow> ('t, 's) sched res" where
  "process_result_reqs e result idx [] st = Inr st"
| "process_result_reqs e result idx (i # rest) st =
     rbind (process_result_req e result idx i st) (\<lambda>st. process_result_reqs e result (Suc idx) rest st)"

definition process_batch_result_dllm ::
  "('t, 's) dllm_env \<Rightarrow> dllm_batch \<Rightarrow> dllm_result \<Rightarrow> ('t, 's) sched \<Rightarrow> ('t, 's) sched res" where
  "process_batch_result_dllm e b result st =
     (if db_mode b \<noteq> DLLM_EXTEND
      then Inr (st\<lparr>pa_store := foldl (\<lambda>store i. store(i := (store i)\<lparr>fill_ids := []\<rparr>)) (pa_store st) (db_reqs b)\<rparr>)
      else if next_token_ids result = [] then Inr st
      else
        rbind (process_result_reqs e result 0 (db_reqs b)
                 (st\<lparr>pa_mem := (pa_mem st)\<lparr>mem_alloc := en_free_group_begin e (mem_alloc (pa_mem st))\<rparr>\<rparr>)) (\<lambda>st.
          rbind (en_free_group_end e (mem_alloc (pa_mem st))) (\<lambda>s.
            Inr (st\<lparr>pa_mem := (pa_mem st)\<lparr>mem_alloc := s\<rparr>\<rparr>))))"

section \<open>One turn of the event loop\<close>

text \<open>
  The diffusion path of \<open>get_next_batch_to_run\<close>: the requests of the last batch are excluded from the running
  batch, which therefore stays as it is, and a non-empty last batch clears \<open>batch_is_full\<close>.
\<close>

definition get_next_batch_to_run :: "('t, 's) dllm_env \<Rightarrow> ('t, 's) sched \<Rightarrow> (dllm_batch option \<times> ('t, 's) sched) res" where
  "get_next_batch_to_run e st =
     (let st = st\<lparr>sc_manager := filter_finished_reqs (pa_store st) (sc_manager st)\<rparr>;
          st = (case last_batch st of
                  Some b \<Rightarrow> if is_extend False (db_mode b) \<and> db_reqs b \<noteq> [] then st\<lparr>batch_is_full := False\<rparr> else st
                | None \<Rightarrow> st)
      in get_new_batch_dllm e st)"

text \<open>\<open>alg\<close> is the decoding algorithm on a batch; it may change the cache memory, and it may raise.\<close>

definition event_loop_turn ::
  "('t, 's) dllm_env \<Rightarrow> (dllm_batch \<Rightarrow> ('t, 's) kv_mem \<Rightarrow> (dllm_result \<times> ('t, 's) kv_mem) res) \<Rightarrow> ('t, 's) sched \<Rightarrow> ('t, 's) sched res" where
  "event_loop_turn e alg st =
     rbind (get_next_batch_to_run e st) (\<lambda>(b, st).
       case b of
         None \<Rightarrow> Inr (st\<lparr>last_batch := None\<rparr>)
       | Some b \<Rightarrow>
           rbind (alg b (pa_mem st)) (\<lambda>(result, m).
             rbind (process_batch_result_dllm e b result (st\<lparr>pa_mem := m\<rparr>)) (\<lambda>st. Inr (st\<lparr>last_batch := Some b\<rparr>))))"

text \<open>The loop of \<open>event_loop_normal\<close>, for a number of turns in which no request arrives.\<close>

fun event_loop_normal ::
  "('t, 's) dllm_env \<Rightarrow> (dllm_batch \<Rightarrow> ('t, 's) kv_mem \<Rightarrow> (dllm_result \<times> ('t, 's) kv_mem) res) \<Rightarrow> nat \<Rightarrow> ('t, 's) sched \<Rightarrow> ('t, 's) sched res" where
  "event_loop_normal e alg 0 st = Inr st"
| "event_loop_normal e alg (Suc n) st = rbind (event_loop_turn e alg st) (event_loop_normal e alg n)"

end
