(* ===== verification/Sched_Memory.thy ===== *)
theory Sched_Memory
  imports Dllm_Scheduler Req_To_Token_Correct KV_Slots
begin

text \<open>
  The cache memory of a set of requests: the slots in the rows of the requests and the free slots of the token
  allocator partition the pool, and the rows in use and the free rows partition the request table. Each operation of the
  scheduler on that memory keeps this: taking slots for a batch, trimming the end of a request, releasing a request.
\<close>

section \<open>The accounting\<close>

text \<open>The slots of the committed tokens of a request, and its row.\<close>

definition held :: "req_to_token_pool \<Rightarrow> req \<Rightarrow> int list" where
  "held p r = (case req_pool_idx r of None \<Rightarrow> [] | Some i \<Rightarrow> take (nat (kv_committed_len r)) (rtp_row i p))"

definition row_of :: "req \<Rightarrow> nat list" where
  "row_of r = (case req_pool_idx r of None \<Rightarrow> [] | Some i \<Rightarrow> [i])"

definition table_ok :: "req_to_token_pool \<Rightarrow> nat list \<Rightarrow> bool" where
  "table_ok p rows \<longleftrightarrow> length (req_to_token p) = rp_size p * max_context_len p
     \<and> distinct (free_slots p @ rows) \<and> set (free_slots p @ rows) = {..<rp_size p}"

definition kv_in_row :: "req_to_token_pool \<Rightarrow> req \<Rightarrow> bool" where
  "kv_in_row p r \<longleftrightarrow> 0 \<le> kv_committed_len r \<and> kv_committed_len r \<le> int (max_context_len p)"

text \<open>The requests \<open>idxs\<close> hold every slot of \<open>U\<close> that the pool does not.\<close>

definition accounted :: "int set \<Rightarrow> ('t, allocator) kv_mem \<Rightarrow> (nat \<Rightarrow> req) \<Rightarrow> nat list \<Rightarrow> bool" where
  "accounted U m store idxs \<longleftrightarrow> tok_inv (mem_alloc m) \<and> distinct idxs
     \<and> owns U (tok_pages (mem_alloc m)) (concat (map (\<lambda>i. held (mem_pool m) (store i)) idxs))
     \<and> table_ok (mem_pool m) (concat (map (\<lambda>i. row_of (store i)) idxs))
     \<and> (\<forall>i\<in>set idxs. kv_in_row (mem_pool m) (store i))"

lemma concat_map_split:
  assumes "i \<in> set idxs" "distinct idxs"
  shows "\<exists>as bs. idxs = as @ i # bs \<and> i \<notin> set as \<and> i \<notin> set bs"
  using split_list [OF assms(1)] assms(2) by force

text \<open>Two stores with the same slots, rows and lengths for the requests.\<close>

definition same_mem :: "req \<Rightarrow> req \<Rightarrow> bool" where
  "same_mem r r' \<longleftrightarrow> req_pool_idx r' = req_pool_idx r \<and> kv_committed_len r' = kv_committed_len r"

lemma same_mem_refl [simp]: "same_mem r r"
  by (simp add: same_mem_def)

lemma same_mem_held: "same_mem r r' \<Longrightarrow> held p r' = held p r \<and> row_of r' = row_of r \<and> kv_in_row p r' = kv_in_row p r"
  by (auto simp: same_mem_def held_def row_of_def kv_in_row_def split: option.split)

lemma accounted_cong:
  assumes "\<And>i. i \<in> set idxs \<Longrightarrow> same_mem (store i) (store' i)" "accounted U m store idxs"
  shows "accounted U m store' idxs"
proof -
  have "map (\<lambda>i. held (mem_pool m) (store' i)) idxs = map (\<lambda>i. held (mem_pool m) (store i)) idxs"
    "map (\<lambda>i. row_of (store' i)) idxs = map (\<lambda>i. row_of (store i)) idxs"
    using assms(1) same_mem_held by (auto intro!: map_cong)
  then show ?thesis
    using assms(2) same_mem_held [OF assms(1)] by (simp only: accounted_def) blast
qed

lemma mset_concat_map: "mset idxs = mset idxs' \<Longrightarrow> mset (concat (map f idxs')) = mset (concat (map f idxs))"
  by (simp add: mset_concat) (metis (no_types, lifting) mset_map sum_mset_sum_list)

lemma accounted_perm:
  assumes "mset idxs = mset idxs'" "accounted U m store idxs"
  shows "accounted U m store idxs'"
proof -
  note m = mset_concat_map [OF assms(1)]
  show ?thesis
    using assms(2) mset_eq_setD [OF assms(1)] mset_eq_imp_distinct_iff [OF assms(1)]
    by (simp only: accounted_def table_ok_def distinct_append set_append
        owns_perm [OF m [of "\<lambda>i. held (mem_pool m) (store i)"]] mset_eq_setD [OF m [of "\<lambda>i. row_of (store i)"]]
        mset_eq_imp_distinct_iff [OF m [of "\<lambda>i. row_of (store i)"]]) simp
qed

text \<open>Requests without slots and rows can be dropped or added.\<close>

lemma accounted_filter:
  assumes "\<And>i. i \<in> set idxs \<Longrightarrow> \<not> P i \<Longrightarrow> req_pool_idx (store i) = None" "accounted U m store idxs"
  shows "accounted U m store (filter P idxs)"
proof -
  have "concat (map (\<lambda>i. held (mem_pool m) (store i)) (filter P idxs)) = concat (map (\<lambda>i. held (mem_pool m) (store i)) idxs)"
    "concat (map (\<lambda>i. row_of (store i)) (filter P idxs)) = concat (map (\<lambda>i. row_of (store i)) idxs)"
    using assms(1) by (induction idxs) (auto simp: held_def row_of_def)
  then show ?thesis using assms(2) by (simp add: accounted_def)
qed

section \<open>Giving slots back\<close>

text \<open>A request is replaced by one that holds only the front of its slots, and the rest is freed.\<close>

lemma owns_shrink:
  assumes "owns U P (concat (map f idxs))" "i \<in> set idxs" "distinct idxs" "f i = g i @ ys"
    and "\<And>j. j \<noteq> i \<Longrightarrow> g j = f j"
  shows "distinct ys \<and> set ys \<inter> P = {} \<and> owns U (P \<union> set ys) (concat (map g idxs))"
proof -
  obtain as bs where idxs: "idxs = as @ i # bs" "i \<notin> set as" "i \<notin> set bs"
    using concat_map_split [OF assms(2,3)] by blast
  have "map g as = map f as" "map g bs = map f bs" using idxs(2,3) assms(5) by (metis map_cong)+
  then have m: "mset (concat (map f idxs)) = mset (concat (map g idxs) @ ys)"
    using assms(4) idxs(1) by (simp del: map_eq_conv)
  have o: "owns U P (concat (map g idxs) @ ys)" using assms(1) owns_perm [OF m] by simp
  then show ?thesis using owns_release [OF o] by (auto simp: owns_def)
qed

lemma rows_upd:
  assumes "\<And>j. j \<in> set idxs \<Longrightarrow> row_of (store' j) = row_of (store j)"
  shows "concat (map (\<lambda>i. row_of (store' i)) idxs) = concat (map (\<lambda>i. row_of (store i)) idxs)"
  using assms by (simp cong: map_cong)

lemma accounted_free:
  assumes acc: "accounted U m store idxs" and i: "i \<in> set idxs"
    and h: "held (mem_pool m) (store i) = held (mem_pool m) r @ ys"
    and r: "row_of r = row_of (store i)" "kv_in_row (mem_pool m) r"
  shows "accounted U (m\<lparr>mem_alloc := tok_free ys (mem_alloc m)\<rparr>) (store(i := r)) idxs"
proof -
  let ?h = "\<lambda>store i. held (mem_pool m) (store i)"
  note A = acc [unfolded accounted_def]
  have "distinct ys \<and> set ys \<inter> tok_pages (mem_alloc m) = {}
      \<and> owns U (tok_pages (mem_alloc m) \<union> set ys) (concat (map (?h (store(i := r))) idxs))"
    using A i h by (intro owns_shrink [of _ _ "?h store"]) auto
  then have "tok_inv (tok_free ys (mem_alloc m))"
    "owns U (tok_pages (tok_free ys (mem_alloc m))) (concat (map (?h (store(i := r))) idxs))"
    using A tok.free_ok [of "mem_alloc m" ys] by auto
  then show ?thesis
    using A r rows_upd [of idxs "store(i := r)" store] by (simp add: accounted_def)
qed

lemma held_trim:
  assumes "req_pool_idx r = Some q" "0 \<le> j" "j \<le> kv_committed_len r" "kv_in_row p r"
    and "req_pool_idx r' = Some q" "kv_committed_len r' = j"
  shows "held p r = held p r' @ py_slice j (kv_committed_len r) (rtp_row q p) \<and> row_of r' = row_of r \<and> kv_in_row p r'"
proof -
  have "take (nat (kv_committed_len r)) xs = take (nat j) xs @ take (nat (kv_committed_len r) - nat j) (drop (nat j) xs)" for xs :: "int list"
    using assms(2,3) take_add [of "nat j" "nat (kv_committed_len r) - nat j" xs] by simp
  then show ?thesis using assms by (simp add: held_def row_of_def kv_in_row_def py_slice_nat)
qed

lemma tok_free_in_group [simp]: "in_free_group (tok_free xs s) = in_free_group s"
  by (simp add: tok_free_def in_free_group_def)

text \<open>\<open>trim_kv\<close> with the token allocator.\<close>

definition tok_env :: "(unit, allocator) dllm_env \<Rightarrow> bool" where
  "tok_env e \<longleftrightarrow> en_ao e = tok_ops \<and> en_tc e = chunk_ops tok_ops False \<and> en_page_size e = 1
     \<and> en_free_group_begin e = free_group_begin \<and> en_free_group_end e = free_group_end (\<lambda>xs s. Inr (tok_free xs s))
     \<and> pr_page_size (en_preempt e) = 1 \<and> \<not> pr_spec (en_preempt e) \<and> \<not> pr_strip (en_preempt e)
     \<and> algorithm (en_config e) \<notin> {''TiDAR'', ''tidar''} \<and> 0 < dc_block_size (en_config e)"

lemma trim_kv_accounted:
  assumes e: "tok_env e" and acc: "accounted U m store idxs" and i: "i \<in> set idxs"
    and r: "same_mem (store i) r" "req_pool_idx r = Some q" and n: "int n \<le> kv_committed_len r"
  shows "\<exists>m'. trim_kv e n r m = Inr (r\<lparr>kv_committed_len := kv_committed_len r - int n, kv_allocated_len := kv_committed_len r - int n\<rparr>, m')
     \<and> accounted U m' (store(i := r\<lparr>kv_committed_len := kv_committed_len r - int n, kv_allocated_len := kv_committed_len r - int n\<rparr>)) idxs
     \<and> mem_pool m' = mem_pool m \<and> mem_tree m' = mem_tree m
     \<and> (tok_soft (mem_alloc m) \<longrightarrow> tok_soft (mem_alloc m')) \<and> in_free_group (mem_alloc m') = in_free_group (mem_alloc m)"
proof -
  let ?j = "kv_committed_len r - int n" and ?r' = "r\<lparr>kv_committed_len := kv_committed_len r - int n, kv_allocated_len := kv_committed_len r - int n\<rparr>"
  let ?ys = "py_slice ?j (kv_committed_len r) (rtp_row q (mem_pool m))"
  have in_row: "kv_in_row (mem_pool m) r"
    using acc i same_mem_held [OF r(1)] by (auto simp: accounted_def)
  have h: "held (mem_pool m) (store i) = held (mem_pool m) ?r' @ ?ys" "row_of ?r' = row_of (store i)" "kv_in_row (mem_pool m) ?r'"
    using held_trim [OF r(2) _ _ in_row, of ?j ?r'] n r(2) same_mem_held [OF r(1), of "mem_pool m"] by simp_all
  have "trim_kv e n r m = Inr (?r', m\<lparr>mem_alloc := tok_free ?ys (mem_alloc m)\<rparr>)"
    using e r(2) by (simp add: trim_kv_def tok_env_def tok_ops_def Let_def)
  then show ?thesis
    using accounted_free [OF acc i h] group_slots.free_soft [OF _ refl, of "mem_alloc m" ?ys]
      tok_free_in_group [of ?ys "mem_alloc m"] by (intro exI [of _ "m\<lparr>mem_alloc := tok_free ?ys (mem_alloc m)\<rparr>"]) simp
qed

lemma rtp_row_free_slots [simp]: "rtp_row q (p\<lparr>free_slots := fs\<rparr>) = rtp_row q p"
  by (simp add: rtp_row_def)

lemma held_free_slots [simp]: "held (p\<lparr>free_slots := fs\<rparr>) r = held p r"
  by (simp add: held_def rtp_row_def split: option.split)

lemma kv_in_row_free_slots [simp]: "kv_in_row (p\<lparr>free_slots := fs\<rparr>) r = kv_in_row p r"
  by (simp add: kv_in_row_def)

lemma table_ok_drop_row:
  assumes "table_ok p (concat (map f idxs))" "i \<in> set idxs" "distinct idxs" "f i = [q]" "g i = []" "\<And>j. j \<noteq> i \<Longrightarrow> g j = f j"
  shows "table_ok (p\<lparr>free_slots := free_slots p @ [q]\<rparr>) (concat (map g idxs))"
proof -
  obtain as bs where idxs: "idxs = as @ i # bs" "i \<notin> set as" "i \<notin> set bs"
    using concat_map_split [OF assms(2,3)] by blast
  have "map g as = map f as" "map g bs = map f bs" using idxs(2,3) assms(6) by (metis map_cong)+
  then have m: "mset (free_slots p @ concat (map f idxs)) = mset ((free_slots p @ [q]) @ concat (map g idxs))"
    using assms(4,5) idxs(1) by (simp del: map_eq_conv)
  show ?thesis
    using assms(1) mset_eq_setD [OF m] mset_eq_imp_distinct_iff [OF m] by (simp only: table_ok_def) simp
qed

text \<open>What the release of a request leaves of it.\<close>

abbreviation released :: "req \<Rightarrow> req" where
  "released r \<equiv> r\<lparr>kv_committed_freed := True, kv_overallocated_freed := True, req_pool_idx := None\<rparr>"

definition releasable :: "req \<Rightarrow> bool" where
  "releasable r \<longleftrightarrow> \<not> kv_committed_freed r \<and> \<not> kv_overallocated_freed r \<and> kv_allocated_len r = kv_committed_len r"

lemma release_accounted:
  assumes acc: "accounted U m store idxs" and i: "i \<in> set idxs"
    and r: "same_mem (store i) r" "req_pool_idx r = Some q" "releasable r"
  shows "\<exists>m'. release_kv_cache tok_ops (chunk_ops tok_ops False) 1 False False ins r m = Inr (released r, m')
     \<and> accounted U m' (store(i := released r)) idxs
     \<and> mem_pool m' = (mem_pool m)\<lparr>free_slots := free_slots (mem_pool m) @ [q]\<rparr> \<and> mem_tree m' = mem_tree m
     \<and> (tok_soft (mem_alloc m) \<longrightarrow> tok_soft (mem_alloc m')) \<and> in_free_group (mem_alloc m') = in_free_group (mem_alloc m)"
proof -
  let ?ys = "py_upto (kv_committed_len r) (rtp_row q (mem_pool m))"
  let ?m = "m\<lparr>mem_alloc := tok_free ?ys (mem_alloc m), mem_pool := (mem_pool m)\<lparr>free_slots := free_slots (mem_pool m) @ [q]\<rparr>\<rparr>"
  let ?r0 = "r\<lparr>kv_committed_len := 0\<rparr>"
  have in_row: "kv_in_row (mem_pool m) r" using acc i same_mem_held [OF r(1)] by (auto simp: accounted_def)
  have h: "held (mem_pool m) (store i) = held (mem_pool m) ?r0 @ ?ys" "row_of ?r0 = row_of (store i)" "kv_in_row (mem_pool m) ?r0"
    using held_trim [OF r(2) _ _ in_row, of 0 ?r0] in_row r(2) same_mem_held [OF r(1), of "mem_pool m"]
    by (simp_all add: kv_in_row_def py_slice_nat py_upto_nat)
  have a0: "accounted U (m\<lparr>mem_alloc := tok_free ?ys (mem_alloc m)\<rparr>) (store(i := ?r0)) idxs" by (rule accounted_free [OF acc i h])
  have eq: "map (\<lambda>j. held (mem_pool m) ((store(i := released r)) j)) idxs = map (\<lambda>j. held (mem_pool m) ((store(i := ?r0)) j)) idxs"
    using r(2) by (intro map_cong) (auto simp: held_def)
  have "table_ok ((mem_pool m)\<lparr>free_slots := free_slots (mem_pool m) @ [q]\<rparr>) (concat (map (\<lambda>j. row_of ((store(i := released r)) j)) idxs))"
    using a0 i r(2) by (intro table_ok_drop_row [of _ "\<lambda>j. row_of ((store(i := ?r0)) j)"]) (auto simp: accounted_def row_of_def)
  then have a: "accounted U ?m (store(i := released r)) idxs"
    using a0 eq in_row by (auto simp: accounted_def kv_in_row_def simp del: map_eq_conv)
  have "release_kv_cache tok_ops (chunk_ops tok_ops False) 1 False False ins r m = Inr (released r, ?m)"
    using r(2,3) by (simp add: release_kv_cache_def chunk_ops_def tok_ops_def chunk_cache_finished_req_def pop_committed_kv_cache_def
        pop_overallocated_kv_cache_def cache_commit_len_def rtp_free_def releasable_def)
  then show ?thesis
    using a group_slots.free_soft [OF _ refl, of "mem_alloc m" ?ys] by (intro exI [of _ ?m]) simp
qed

section \<open>Taking slots for a batch\<close>

subsection \<open>Rows\<close>

lemma length_assign_rows [simp]: "length (assign_rows sel rs) = length rs"
  by (induction sel rs rule: assign_rows.induct) auto

abbreviation rowless :: "req list \<Rightarrow> req list" where
  "rowless rs \<equiv> filter (\<lambda>r. req_pool_idx r = None) rs"

text \<open>The row that a request is given: none when it has one.\<close>

fun new_rows :: "nat list \<Rightarrow> req list \<Rightarrow> nat list list" where
  "new_rows sel [] = []"
| "new_rows sel (r # rs) = (if req_pool_idx r = None then [hd sel] # new_rows (tl sel) rs else [] # new_rows sel rs)"

lemma length_new_rows [simp]: "length (new_rows sel rs) = length rs"
  by (induction sel rs rule: new_rows.induct) auto

lemma concat_new_rows: "length sel = length (rowless rs) \<Longrightarrow> concat (new_rows sel rs) = sel"
proof (induction sel rs rule: new_rows.induct)
  case (2 sel r rs)
  then show ?case by (cases sel; cases "req_pool_idx r") simp_all
qed simp

lemma assign_rows_nth:
  "j < length rs \<Longrightarrow> req_pool_idx (assign_rows sel rs ! j) \<noteq> None
     \<and> [the (req_pool_idx (assign_rows sel rs ! j))] = row_of (rs ! j) @ new_rows sel rs ! j"
proof (induction sel rs arbitrary: j rule: assign_rows.induct)
  case (2 sel r rs)
  then show ?case by (cases j) (auto simp: row_of_def)
qed simp

subsection \<open>The table\<close>

lemma rtp_row_block: "rtp_row q p = block (max_context_len p) q (req_to_token p)"
  by (simp add: rtp_row_def block_def)

lemma block_put_slice_part:
  assumes "length xs = bs * n" "i < bs" "j < bs" "length v \<le> n"
  shows "block n j (put_slice (i * n) v xs) = (if j = i then v @ drop (length v) (block n j xs) else block n j xs)"
proof (rule nth_equalityI)
  have len: "length (block n j (put_slice (i * n) v xs)) = n" "length (block n j xs) = n" using assms(1,3) by (auto intro!: length_block_full)
  show "length (block n j (put_slice (i * n) v xs)) = length (if j = i then v @ drop (length v) (block n j xs) else block n j xs)"
    using assms(4) len by auto
  fix q assume "q < length (block n j (put_slice (i * n) v xs))"
  then have q: "q < n" using len by simp
  have jq: "j * n + q < length xs" using block_bound [OF assms(3), of n] assms(1) q by simp
  have "block n j (put_slice (i * n) v xs) ! q = put_slice (i * n) v xs ! (j * n + q)"
    using nth_block [OF assms(3) _ q, of "put_slice (i * n) v xs"] assms(1) by simp
  also have "\<dots> = (if i * n \<le> j * n + q \<and> j * n + q < i * n + length v then v ! (j * n + q - i * n) else xs ! (j * n + q))"
    using nth_put_slice [OF jq] by simp
  finally have eq: "block n j (put_slice (i * n) v xs) ! q = \<dots>" .
  show "block n j (put_slice (i * n) v xs) ! q = (if j = i then v @ drop (length v) (block n j xs) else block n j xs) ! q"
  proof (cases "j = i")
    case True
    then show ?thesis using eq nth_block [OF assms(3,1) q] len(2) q assms(4) by (auto simp: nth_append)
  next
    case False
    then have neq: "\<not> (i * n \<le> j * n + q \<and> j * n + q < i * n + length v)"
      using block_index_neq [OF False [symmetric] q] assms(4) by linarith
    show ?thesis unfolding eq if_not_P [OF neq] using nth_block [OF assms(3,1) q] False by simp
  qed
qed

text \<open>Values written at the start of distinct rows.\<close>

lemma blocks_written:
  assumes "length xs = bs * n" "distinct rows" "set rows \<subseteq> {..<bs}" "\<And>j. j < length rows \<Longrightarrow> length (v j) \<le> n" "q < bs"
  shows "k \<le> length rows \<Longrightarrow> let xs' = foldl (\<lambda>rtt i. put_slice (rows ! i * n) (v i) rtt) xs [0..<k]
     in (\<forall>j<k. rows ! j = q \<longrightarrow> block n q xs' = v j @ drop (length (v j)) (block n q xs))
        \<and> ((\<forall>j<k. rows ! j \<noteq> q) \<longrightarrow> block n q xs' = block n q xs)"
proof (induction k)
  case (Suc k)
  let ?f = "foldl (\<lambda>rtt i. put_slice (rows ! i * n) (v i) rtt) xs"
  have len: "length (?f is) = bs * n" for "is" using assms(1) by (induction "is" rule: rev_induct) auto
  have k: "rows ! k < bs" using Suc.prems assms(3) nth_mem [of k rows] by fastforce
  have step: "block n q (?f [0..<Suc k]) = (if q = rows ! k then v k @ drop (length (v k)) (block n q (?f [0..<k])) else block n q (?f [0..<k]))"
    using block_put_slice_part [OF len k assms(5), of "v k"] assms(4) [of k] Suc.prems by simp
  have IH: "\<forall>j<k. rows ! j = q \<longrightarrow> block n q (?f [0..<k]) = v j @ drop (length (v j)) (block n q xs)"
    "(\<forall>j<k. rows ! j \<noteq> q) \<longrightarrow> block n q (?f [0..<k]) = block n q xs"
    using Suc by (simp_all add: Let_def)
  have uniq: "rows ! j = rows ! k \<longleftrightarrow> j = k" if "j < Suc k" for j
    using that Suc.prems assms(2) by (simp add: nth_eq_iff_index_eq)
  show ?case
  proof (cases "q = rows ! k")
    case True
    then have "\<forall>j<k. rows ! j \<noteq> q" using uniq less_SucI by blast
    then show ?thesis using step True IH(2) uniq by (auto simp: Let_def simp del: upt_Suc)
  next
    case False
    then show ?thesis using step IH by (simp add: Let_def less_Suc_eq del: upt_Suc)
  qed
qed simp

subsection \<open>The batch\<close>

lemma distinct_concat_map_inj:
  "distinct (concat (map f idxs)) \<Longrightarrow> distinct idxs \<Longrightarrow> i \<in> set idxs \<Longrightarrow> j \<in> set idxs \<Longrightarrow> q \<in> set (f i) \<Longrightarrow> q \<in> set (f j) \<Longrightarrow> i = j"
  by (induction idxs) auto

lemma write_cache_table:
  assumes "extend_fits p out rows prefix_lens seq_lens extend_lens prefix_tensors"
  shows "write_cache_indices tri out rows prefix_lens seq_lens extend_lens prefix_tensors p
     = Inr (p\<lparr>req_to_token := foldl (\<lambda>rtt i. put_slice (rows ! i * max_context_len p) (prefix_tensors ! i @ ext_slots out extend_lens i) rtt)
           (req_to_token p) [0..<length rows]\<rparr>)"
  using triton_writes [OF assms order_refl] loop_writes [OF assms, of 0 "req_to_token p"]
  by (cases tri) (simp_all add: write_cache_indices_def place_req_def [abs_def])

lemma concat_ext_slots:
  assumes "length out = sum_list lens"
  shows "concat (map (ext_slots out lens) [0..<length lens]) = out"
proof -
  have "concat (map (ext_slots out lens) [0..<k]) = take (sum_list (take k lens)) out" if "k \<le> length lens" for k
    using that by (induction k) (simp_all add: ext_slots_def take_Suc_conv_app_nth take_add)
  then show ?thesis using assms by simp
qed

lemma mset_concat_app: "mset (concat (map (\<lambda>i. f i @ g i) idxs)) = mset (concat (map f idxs)) + mset (concat (map g idxs))"
  by (induction idxs) auto

text \<open>Values given to the members \<open>sub\<close> of \<open>idxs\<close>, in the order of \<open>sub\<close>.\<close>

definition given :: "nat list \<Rightarrow> 'a list list \<Rightarrow> nat \<Rightarrow> 'a list" where
  "given sub vs i = (case map_of (zip sub vs) i of None \<Rightarrow> [] | Some v \<Rightarrow> v)"

lemma given_nth: "distinct sub \<Longrightarrow> length vs = length sub \<Longrightarrow> j < length sub \<Longrightarrow> given sub vs (sub ! j) = vs ! j"
  by (simp add: given_def map_of_zip_nth)

lemma given_other: "i \<notin> set sub \<Longrightarrow> length vs = length sub \<Longrightarrow> given sub vs i = []"
  using map_of_zip_is_None [of sub vs i] by (simp add: given_def del: map_of_zip_is_None)

lemma mset_concat_given:
  assumes "distinct sub" "distinct idxs" "set sub \<subseteq> set idxs" "length vs = length sub"
  shows "mset (concat (map (given sub vs) idxs)) = mset (concat vs)"
proof -
  have "concat (map (given sub vs) idxs) = concat (map (given sub vs) (filter (\<lambda>i. i \<in> set sub) idxs))"
    using given_other [OF _ assms(4)] by (induction idxs) auto
  moreover have "mset (filter (\<lambda>i. i \<in> set sub) idxs) = mset sub"
    using assms(1-3) by (intro iffD1 [OF set_eq_iff_mset_eq_distinct]) auto
  moreover have "map (given sub vs) sub = vs" using given_nth [OF assms(1,4)] assms(4) by (intro nth_equalityI) auto
  ultimately show ?thesis using mset_concat_map [of sub "filter (\<lambda>i. i \<in> set sub) idxs" "given sub vs"] by simp
qed

definition extended :: "nat \<Rightarrow> req \<Rightarrow> req" where
  "extended row r =
     (let n = int (length (fill_ids r));
          r' = r\<lparr>req_pool_idx := Some row, kv_committed_len := n, kv_allocated_len := n\<rparr>;
          r'' = (if retracted_stain r then r'
                 else r'\<lparr>cached_tokens := cached_tokens r + (int (length (prefix_indices r)) - already_computed r), already_computed := n\<rparr>)
      in r''\<lparr>is_retracted := False\<rparr>)"

lemma extended_simps [simp]:
  "req_pool_idx (extended row r) = Some row" "kv_committed_len (extended row r) = int (length (fill_ids r))"
  "kv_allocated_len (extended row r) = int (length (fill_ids r))" "fill_ids (extended row r) = fill_ids r"
  "prefix_indices (extended row r) = prefix_indices r" "origin_input_ids (extended row r) = origin_input_ids r"
  "output_ids (extended row r) = output_ids r" "dllm_phase (extended row r) = dllm_phase r"
  "finished_reason (extended row r) = finished_reason r" "req_dllm_config (extended row r) = req_dllm_config r"
  "kv_committed_freed (extended row r) = kv_committed_freed r" "kv_overallocated_freed (extended row r) = kv_overallocated_freed r"
  "sampling_params (extended row r) = sampling_params r" "tokenizer (extended row r) = tokenizer r" "rid (extended row r) = rid r"
  by (simp_all add: extended_def Let_def)

text \<open>A request whose prefix is what it holds, with its input past the prefix to be run.\<close>

definition extend_ready :: "req_to_token_pool \<Rightarrow> req \<Rightarrow> bool" where
  "extend_ready p r \<longleftrightarrow> prefix_indices r = held p r \<and> length (prefix_indices r) \<le> length (fill_ids r)
     \<and> extend_input_len r = int (length (fill_ids r)) - int (length (prefix_indices r))
     \<and> length (fill_ids r) \<le> max_context_len p \<and> (req_pool_idx r \<noteq> None \<longrightarrow> 0 < kv_committed_len r)"

lemma extend_one_ready: "extend_ready p r \<Longrightarrow> extend_one row r = Inr (extended row r)"
  by (simp add: extend_ready_def extend_one_def extended_def Let_def)

lemma extend_all_ready:
  assumes "distinct sub" "length rows = length sub" "\<forall>i\<in>set sub. extend_ready p (store i)"
  shows "\<exists>store'. extend_all (zip sub rows) store = Inr store' \<and> (\<forall>j<length sub. store' (sub ! j) = extended (rows ! j) (store (sub ! j)))
     \<and> (\<forall>i. i \<notin> set sub \<longrightarrow> store' i = store i)"
  using assms
proof (induction sub arbitrary: rows store)
  case (Cons i sub)
  obtain row rows' where rows: "rows = row # rows'" using Cons.prems(2) by (cases rows) auto
  have "\<forall>j\<in>set sub. extend_ready p ((store(i := extended row (store i))) j)" using Cons.prems by auto
  then have "\<exists>store'. extend_all (zip sub rows') (store(i := extended row (store i))) = Inr store'
      \<and> (\<forall>j<length sub. store' (sub ! j) = extended (rows' ! j) ((store(i := extended row (store i))) (sub ! j)))
      \<and> (\<forall>j. j \<notin> set sub \<longrightarrow> store' j = (store(i := extended row (store i))) j)"
    using Cons.prems rows by (intro Cons.IH) simp_all
  then obtain store' where s: "extend_all (zip sub rows') (store(i := extended row (store i))) = Inr store'"
    "\<forall>j<length sub. store' (sub ! j) = extended (rows' ! j) ((store(i := extended row (store i))) (sub ! j))"
    "\<forall>j. j \<notin> set sub \<longrightarrow> store' j = (store(i := extended row (store i))) j"
    by blast
  have ne: "sub ! j \<noteq> i" if "j < length sub" for j using Cons.prems(1) that by auto
  have "store' ((i # sub) ! j) = extended (rows ! j) (store ((i # sub) ! j))" if "j < length (i # sub)" for j
    using that s(2,3) Cons.prems(1) ne rows by (cases j) auto
  moreover have "extend_all (zip (i # sub) rows) store = Inr store'"
    using s(1) rows extend_one_ready [of p "store i" row] Cons.prems(3) by simp
  ultimately show ?case using s(3) by auto
qed simp

text \<open>The rows of a batch: each request keeps its row or takes a free one.\<close>

lemma rtp_alloc_batch:
  assumes tab: "table_ok p (concat (map (\<lambda>i. row_of (store i)) idxs))" and sub: "distinct sub" "set sub \<subseteq> set idxs" "distinct idxs"
    and kv: "\<forall>i\<in>set sub. req_pool_idx (store i) \<noteq> None \<longrightarrow> 0 < kv_committed_len (store i)"
    and n: "n = length (rowless (map store sub))" "n \<le> length (free_slots p)"
  shows "\<exists>rows reqs. rtp_alloc (map store sub) p = Inr (Some rows, reqs, p\<lparr>free_slots := drop n (free_slots p)\<rparr>) \<and> length rows = length sub
     \<and> (\<forall>j<length sub. [rows ! j] = row_of (store (sub ! j)) @ new_rows (take n (free_slots p)) (map store sub) ! j)"
proof -
  let ?rs = "map store sub" and ?sel = "take n (free_slots p)"
  let ?rows = "map (the \<circ> req_pool_idx) (assign_rows ?sel ?rs)"
  have l: "length (filter (\<lambda>r. req_pool_idx r \<noteq> None) ?rs) + n = length sub"
    using sum_length_filter_compl [of "\<lambda>r. req_pool_idx r \<noteq> None" ?rs] n(1) by simp
  have "length ?rs - length (filter (\<lambda>r. req_pool_idx r \<noteq> None) ?rs) = n" using l by simp
  then have "rtp_alloc ?rs p = Inr (Some ?rows, assign_rows ?sel ?rs, p\<lparr>free_slots := drop n (free_slots p)\<rparr>)"
    using kv n(2) by (auto simp: rtp_alloc_def Let_def py_assert_def)
  then show ?thesis using assign_rows_nth [of _ ?rs ?sel] by auto
qed

text \<open>
  The table after the slots \<open>out\<close> of a batch are written: a request of the batch holds its prefix and its new slots,
  another holds what it held.
\<close>

lemma write_batch:
  fixes p :: req_to_token_pool and store :: "nat \<Rightarrow> req"
  assumes tab: "length (req_to_token p) = rp_size p * max_context_len p"
    and rows: "length rows = length sub" "distinct rows" "set rows \<subseteq> {..<rp_size p}"
    and ready: "\<forall>i\<in>set sub. extend_ready p0 (store i)" "max_context_len p0 = max_context_len p"
    and lens: "lens = map (\<lambda>r. length (fill_ids r) - length (prefix_indices r)) (map store sub)" "length out = sum_list lens"
  shows "\<exists>p'. write_cache_indices tri out rows (map (\<lambda>r. length (prefix_indices r)) (map store sub))
       (map (\<lambda>r. length (fill_ids r)) (map store sub)) (map (\<lambda>r. nat (extend_input_len r)) (map store sub))
       (map prefix_indices (map store sub)) p = Inr p'
     \<and> p' = p\<lparr>req_to_token := req_to_token p'\<rparr> \<and> length (req_to_token p') = length (req_to_token p)
     \<and> (\<forall>j<length sub. take (length (fill_ids (store (sub ! j)))) (rtp_row (rows ! j) p') = prefix_indices (store (sub ! j)) @ ext_slots out lens j)
     \<and> (\<forall>q<rp_size p. q \<notin> set rows \<longrightarrow> rtp_row q p' = rtp_row q p)"
proof -
  let ?rs = "map store sub" and ?L = "max_context_len p"
  let ?v = "\<lambda>i. map prefix_indices ?rs ! i @ ext_slots out lens i"
  let ?rtt = "foldl (\<lambda>rtt i. put_slice (rows ! i * ?L) (?v i) rtt) (req_to_token p) [0..<length rows]"
  have ext: "map (\<lambda>r. nat (extend_input_len r)) ?rs = lens"
    using ready(1) lens(1) by (auto simp: extend_ready_def nat_diff_distrib)
  have elem: "length (prefix_indices (store (sub ! j))) + lens ! j = length (fill_ids (store (sub ! j)))"
    "length (fill_ids (store (sub ! j))) \<le> ?L" "rows ! j < rp_size p" if "j < length sub" for j
    using that ready nth_mem [of j sub] rows nth_mem [of j rows] lens(1) by (fastforce simp: extend_ready_def)+
  have "extend_fits p out rows (map (\<lambda>r. length (prefix_indices r)) ?rs) (map (\<lambda>r. length (fill_ids r)) ?rs) lens (map prefix_indices ?rs)"
    using elem rows(1) tab lens by (simp add: extend_fits_def)
  then have w: "write_cache_indices tri out rows (map (\<lambda>r. length (prefix_indices r)) ?rs) (map (\<lambda>r. length (fill_ids r)) ?rs)
      (map (\<lambda>r. nat (extend_input_len r)) ?rs) (map prefix_indices ?rs) p = Inr (p\<lparr>req_to_token := ?rtt\<rparr>)"
    using write_cache_table unfolding ext by blast
  have len: "length (?v j) = length (fill_ids (store (sub ! j)))" if "j < length sub" for j
    using elem(1) [OF that] that lens sum_list_take_le [of j lens] by (simp add: ext_slots_def)
  have B: "let xs' = ?rtt in (\<forall>j<length rows. rows ! j = q \<longrightarrow> block ?L q xs' = ?v j @ drop (length (?v j)) (block ?L q (req_to_token p)))
        \<and> ((\<forall>j<length rows. rows ! j \<noteq> q) \<longrightarrow> block ?L q xs' = block ?L q (req_to_token p))" if "q < rp_size p" for q
    using len elem(2) rows(1) by (intro blocks_written [OF tab rows(2,3) _ that]) auto
  have "take (length (fill_ids (store (sub ! j)))) (rtp_row (rows ! j) (p\<lparr>req_to_token := ?rtt\<rparr>))
      = prefix_indices (store (sub ! j)) @ ext_slots out lens j" if j: "j < length sub" for j
  proof -
    have "block ?L (rows ! j) ?rtt = ?v j @ drop (length (?v j)) (block ?L (rows ! j) (req_to_token p))"
      using B [OF elem(3) [OF j]] j rows(1) by (simp add: Let_def)
    then show ?thesis using len [OF j] j by (simp add: rtp_row_block)
  qed
  moreover have "rtp_row q (p\<lparr>req_to_token := ?rtt\<rparr>) = rtp_row q p" if "q < rp_size p" "q \<notin> set rows" for q
    using B [OF that(1)] that(2) nth_mem by (fastforce simp: Let_def rtp_row_block)
  moreover have "length ?rtt = length (req_to_token p)"
    using length_place_reqs [of ?L out rows "[]" lens "map prefix_indices ?rs"] by (simp add: place_req_def [abs_def])
  ultimately show ?thesis using w by (intro exI [of _ "p\<lparr>req_to_token := ?rtt\<rparr>"]) auto
qed

lemma distinct_concat_sub:
  assumes "distinct (concat (map f idxs))" "distinct sub" "set sub \<subseteq> set idxs" "distinct idxs"
  shows "distinct (concat (map f sub))"
proof -
  have "mset idxs = mset (sub @ filter (\<lambda>i. i \<notin> set sub) idxs)"
    using assms(2-4) by (intro iffD1 [OF set_eq_iff_mset_eq_distinct]) auto
  then have "distinct (concat (map f (sub @ filter (\<lambda>i. i \<notin> set sub) idxs)))"
    using assms(1) mset_eq_imp_distinct_iff [OF mset_concat_map] by blast
  then show ?thesis by simp
qed

text \<open>What a request holds, and its row, when the rows and the slots of a batch are handed out.\<close>

lemma batch_holds:
  assumes acc: "accounted U m store idxs" and sub: "distinct sub" "set sub \<subseteq> set idxs"
    and ready: "\<forall>i\<in>set sub. extend_ready (mem_pool m) (store i)"
    and rows: "length rows = length sub" "\<And>j. j < length sub \<Longrightarrow> [rows ! j] = row_of (store (sub ! j)) @ nr ! j"
      "length nr = length sub" "concat nr = take n (free_slots (mem_pool m))"
    and store': "\<And>j. j < length sub \<Longrightarrow> store' (sub ! j) = extended (rows ! j) (store (sub ! j))" "\<And>i. i \<notin> set sub \<Longrightarrow> store' i = store i"
    and p': "\<And>j. j < length sub \<Longrightarrow> take (length (fill_ids (store (sub ! j)))) (rtp_row (rows ! j) p') = prefix_indices (store (sub ! j)) @ es ! j"
      "\<And>q. q < rp_size (mem_pool m) \<Longrightarrow> q \<notin> set rows \<Longrightarrow> rtp_row q p' = rtp_row q (mem_pool m)"
      "length es = length sub"
    and i: "i \<in> set idxs"
  shows "held p' (store' i) = held (mem_pool m) (store i) @ given sub es i \<and> row_of (store' i) = row_of (store i) @ given sub nr i"
proof (cases "i \<in> set sub")
  case True
  then obtain j where j: "j < length sub" "i = sub ! j" by (metis in_set_conv_nth)
  have "prefix_indices (store i) = held (mem_pool m) (store i)" using ready True by (simp add: extend_ready_def)
  then show ?thesis
    using p'(1) [OF j(1)] rows(2) [OF j(1)] store'(1) [OF j(1)] given_nth [OF sub(1) p'(3) j(1)] given_nth [OF sub(1) rows(3) j(1)] j(2)
    by (simp add: held_def row_of_def)
next
  case False
  have "q \<notin> set rows" if q: "req_pool_idx (store i) = Some q" for q
  proof
    note A = acc [unfolded accounted_def table_ok_def]
    assume "q \<in> set rows"
    then obtain j where j: "j < length sub" "rows ! j = q" using rows(1) by (metis in_set_conv_nth)
    then have "q \<in> set (row_of (store (sub ! j))) \<or> q \<in> set (nr ! j)" using rows(2) [OF j(1)]
      by (metis Un_iff list.set_intros(1) set_append)
    then show False
    proof
      assume "q \<in> set (nr ! j)"
      then have "q \<in> set (concat nr)" using j(1) rows(3) nth_mem [of j nr] by auto
      then have "q \<in> set (free_slots (mem_pool m))" unfolding rows(4) by (rule in_set_takeD)
      moreover have "q \<in> set (concat (map (\<lambda>i. row_of (store i)) idxs))" using i q by (auto simp: row_of_def intro!: bexI [of _ i])
      ultimately show False using A by (auto simp del: set_concat)
    next
      assume "q \<in> set (row_of (store (sub ! j)))"
      moreover have "sub ! j \<in> set idxs" "sub ! j \<noteq> i" using j(1) sub(2) False by auto
      moreover have "distinct (concat (map (\<lambda>i. row_of (store i)) idxs))" using A by simp
      ultimately show False using i q A distinct_concat_map_inj [of "\<lambda>i. row_of (store i)" idxs i "sub ! j" q] by (auto simp: row_of_def)
    qed
  qed
  moreover have "q < rp_size (mem_pool m)" if "req_pool_idx (store i) = Some q" for q
    using acc i that by (fastforce simp: accounted_def table_ok_def row_of_def)
  ultimately show ?thesis
    using False store'(2) p'(2) given_other [OF False p'(3)] given_other [OF False rows(3)] by (auto simp: held_def split: option.split)
qed

text \<open>The rows of a batch with the table around them: \<open>nr\<close> are the rows taken from the free ones.\<close>

lemma batch_rows:
  assumes tab: "table_ok p (concat (map (\<lambda>i. row_of (store i)) idxs))" and sub: "distinct sub" "set sub \<subseteq> set idxs" "distinct idxs"
    and ready: "\<forall>i\<in>set sub. extend_ready p (store i)"
    and n: "n = length (rowless (map store sub))" "n \<le> length (free_slots p)"
    and p1: "p1 = p\<lparr>free_slots := drop n (free_slots p)\<rparr>"
  shows "\<exists>rows reqs nr. rtp_alloc (map store sub) p = Inr (Some rows, reqs, p1) \<and> length rows = length sub
     \<and> (\<forall>j<length sub. [rows ! j] = row_of (store (sub ! j)) @ nr ! j) \<and> length nr = length sub \<and> concat nr = take n (free_slots p)
     \<and> table_ok p1 (concat (map (\<lambda>i. row_of (store i) @ given sub nr i) idxs)) \<and> distinct rows \<and> set rows \<subseteq> {..<rp_size p1}"
proof -
  define nr where "nr = new_rows (take n (free_slots p)) (map store sub)"
  have kv: "\<forall>i\<in>set sub. req_pool_idx (store i) \<noteq> None \<longrightarrow> 0 < kv_committed_len (store i)"
    using ready by (simp add: extend_ready_def)
  obtain rows reqs where R: "rtp_alloc (map store sub) p = Inr (Some rows, reqs, p1)" "length rows = length sub"
    "\<forall>j<length sub. [rows ! j] = row_of (store (sub ! j)) @ nr ! j"
    using rtp_alloc_batch [OF tab sub kv n] unfolding p1 nr_def by blast
  have nr: "length nr = length sub" "concat nr = take n (free_slots p)"
    using concat_new_rows [of "take n (free_slots p)" "map store sub"] n by (simp_all add: nr_def)
  have rows: "mset (free_slots p1 @ concat (map (\<lambda>i. row_of (store i) @ given sub nr i) idxs))
      = mset (free_slots p @ concat (map (\<lambda>i. row_of (store i)) idxs))"
    using mset_concat_app [of "\<lambda>i. row_of (store i)" "given sub nr" idxs] mset_concat_given [OF sub(1,3,2) nr(1)] nr(2)
    by (simp add: p1) (metis append_take_drop_id mset_append union_commute)
  have t1: "table_ok p1 (concat (map (\<lambda>i. row_of (store i) @ given sub nr i) idxs))"
    using tab mset_eq_setD [OF rows] mset_eq_imp_distinct_iff [OF rows] unfolding table_ok_def p1 by simp
  have "map (\<lambda>i. row_of (store i) @ given sub nr i) sub = map (\<lambda>q. [q]) rows"
    using R(2,3) given_nth [OF sub(1) nr(1)] by (intro nth_equalityI) simp_all
  then have rows_eq: "rows = concat (map (\<lambda>i. row_of (store i) @ given sub nr i) sub)" by (simp add: concat_map_singleton)
  have "distinct (concat (map (\<lambda>i. row_of (store i) @ given sub nr i) idxs))" using t1 by (simp only: table_ok_def distinct_append)
  then have "distinct rows" unfolding rows_eq by (rule distinct_concat_sub [OF _ sub])
  moreover have "set rows \<subseteq> set (concat (map (\<lambda>i. row_of (store i) @ given sub nr i) idxs))"
    unfolding rows_eq set_concat set_map using sub(2) by blast
  then have "set rows \<subseteq> {..<rp_size p1}" using t1 unfolding table_ok_def set_append by blast
  ultimately show ?thesis using R nr t1 by blast
qed

text \<open>The memory after a batch: each request holds what it held and what the batch gives it.\<close>

lemma batch_accounted:
  assumes acc: "accounted U m store idxs" and sub: "distinct sub" "set sub \<subseteq> set idxs"
    and ready: "\<forall>i\<in>set sub. extend_ready (mem_pool m) (store i)"
    and H: "\<And>i. i \<in> set idxs \<Longrightarrow> held p' (store' i) = held (mem_pool m) (store i) @ given sub es i \<and> row_of (store' i) = row_of (store i) @ given sub nr i"
    and es: "length es = length sub" "concat es = out"
    and store': "\<forall>j<length sub. store' (sub ! j) = extended (rows ! j) (store (sub ! j))" "\<forall>i. i \<notin> set sub \<longrightarrow> store' i = store i"
    and tab: "table_ok p' (concat (map (\<lambda>i. row_of (store i) @ given sub nr i) idxs))" "max_context_len p' = max_context_len (mem_pool m)"
    and out: "tok_inv s' \<and> distinct out \<and> tok_pages (mem_alloc m) = tok_pages s' \<union> set out \<and> tok_pages s' \<inter> set out = {}"
  shows "accounted U (m\<lparr>mem_alloc := s', mem_pool := p'\<rparr>) store' idxs"
proof -
  note A = acc [unfolded accounted_def]
  have maps: "map (\<lambda>i. held p' (store' i)) idxs = map (\<lambda>i. held (mem_pool m) (store i) @ given sub es i) idxs"
    "map (\<lambda>i. row_of (store' i)) idxs = map (\<lambda>i. row_of (store i) @ given sub nr i) idxs"
    using H by auto
  have perm: "mset (concat (map (\<lambda>i. held (mem_pool m) (store i) @ given sub es i) idxs))
      = mset (concat (map (\<lambda>i. held (mem_pool m) (store i)) idxs) @ out)"
    using mset_concat_app [of "\<lambda>i. held (mem_pool m) (store i)" "given sub es" idxs] mset_concat_given [OF sub(1) _ sub(2) es(1)] A es(2) by simp
  have "owns U (tok_pages s') (concat (map (\<lambda>i. held (mem_pool m) (store i)) idxs) @ out)"
    using A out by (intro owns_take [of U "tok_pages (mem_alloc m)"]) auto
  then have "owns U (tok_pages s') (concat (map (\<lambda>i. held p' (store' i)) idxs))" unfolding maps(1) owns_perm [OF perm] .
  moreover have "kv_in_row p' (store' i)" if i: "i \<in> set idxs" for i
  proof (cases "i \<in> set sub")
    case True
    then obtain j where "j < length sub" "i = sub ! j" by (metis in_set_conv_nth)
    then show ?thesis using store'(1) ready True tab(2) by (simp add: kv_in_row_def extend_ready_def)
  next
    case False
    then show ?thesis using store'(2) A i tab(2) by (simp add: kv_in_row_def)
  qed
  moreover have "table_ok p' (concat (map (\<lambda>i. row_of (store' i)) idxs))" unfolding maps(2) by (rule tab(1))
  moreover have "distinct idxs" using A by blast
  ultimately show ?thesis using out by (simp add: accounted_def)
qed

text \<open>
  \<open>prepare_for_extend\<close> on a batch for which there are rows and slots: it succeeds, only the requests of the batch
  change, and the memory stays accounted for.
\<close>

lemma prepare_for_extend_accounted:
  fixes st :: "(unit, allocator) sched"
  defines "m \<equiv> pa_mem st" and "store \<equiv> pa_store st"
  assumes e: "tok_env e" and acc: "accounted U m store idxs" and rdy: "tok_ready (mem_alloc m)"
    and sub: "distinct sub" "set sub \<subseteq> set idxs" and ready: "\<forall>i\<in>set sub. extend_ready (mem_pool m) (store i)"
    and free_rows: "length (rowless (map store sub)) \<le> length (free_slots (mem_pool m))"
    and room: "(\<Sum>i\<leftarrow>sub. length (fill_ids (store i)) - length (prefix_indices (store i))) \<le> card (tok_pages (mem_alloc m))"
  shows "\<exists>b store' m' rows. prepare_for_extend e sub st = Inr (b, st\<lparr>pa_store := store', pa_mem := m'\<rparr>) \<and> db_reqs b = sub
     \<and> length rows = length sub \<and> (\<forall>j<length sub. store' (sub ! j) = extended (rows ! j) (store (sub ! j)))
     \<and> (\<forall>i. i \<notin> set sub \<longrightarrow> store' i = store i) \<and> accounted U m' store' idxs \<and> tok_ready (mem_alloc m')
     \<and> max_context_len (mem_pool m') = max_context_len (mem_pool m) \<and> rp_size (mem_pool m') = rp_size (mem_pool m)
     \<and> (\<forall>i\<in>set idxs. i \<notin> set sub \<longrightarrow> held (mem_pool m') (store i) = held (mem_pool m) (store i))"
proof -
  let ?p = "mem_pool m" and ?rs = "map store sub" and ?s = "mem_alloc m"
  let ?lens = "map (\<lambda>r. length (fill_ids r) - length (prefix_indices r)) ?rs"
  define n where "n = length (rowless ?rs)"
  define p1 where "p1 = ?p\<lparr>free_slots := drop n (free_slots ?p)\<rparr>"
  have A: "tok_inv ?s" "distinct idxs" "table_ok ?p (concat (map (\<lambda>i. row_of (store i)) idxs))" using acc by (simp_all add: accounted_def)
  obtain rows reqs nr where R: "rtp_alloc ?rs ?p = Inr (Some rows, reqs, p1)" "length rows = length sub"
    "\<forall>j<length sub. [rows ! j] = row_of (store (sub ! j)) @ nr ! j" and nr: "length nr = length sub" "concat nr = take n (free_slots ?p)"
    and tab: "table_ok p1 (concat (map (\<lambda>i. row_of (store i) @ given sub nr i) idxs))" "distinct rows" "set rows \<subseteq> {..<rp_size p1}"
    using batch_rows [OF A(3) sub A(2) ready n_def _ p1_def] free_rows unfolding n_def by blast
  obtain out s' where O: "tok_alloc (sum_list ?lens) ?s = (Some out, s')"
    using slots.alloc_fits [of ?s "sum_list ?lens"] A rdy room by (auto simp: comp_def)
  then have O': "Inr (tok_alloc (sum_list ?lens) ?s) = (Inr (Some out, s') :: _ res)" by simp
  note out = slots.alloc_length [OF O'] tok.alloc_some [OF A(1) O'] slots.alloc_ready [OF rdy O']
  define pw where "pw = write_cache_indices (en_support_triton e) out rows (map (\<lambda>r. length (prefix_indices r)) ?rs)
       (map (\<lambda>r. length (fill_ids r)) ?rs) (map (\<lambda>r. nat (extend_input_len r)) ?rs) (map prefix_indices ?rs) p1"
  have dim1: "max_context_len ?p = max_context_len p1" "length (req_to_token p1) = rp_size p1 * max_context_len p1"
    using tab(1) by (simp_all add: p1_def table_ok_def)
  obtain p' where P: "pw = Inr p'" "p' = p1\<lparr>req_to_token := req_to_token p'\<rparr>" "length (req_to_token p') = length (req_to_token p1)"
    "\<forall>j<length sub. take (length (fill_ids (store (sub ! j)))) (rtp_row (rows ! j) p') = prefix_indices (store (sub ! j)) @ ext_slots out ?lens j"
    "\<forall>q<rp_size p1. q \<notin> set rows \<longrightarrow> rtp_row q p' = rtp_row q p1"
    using write_batch [OF dim1(2) R(2) tab(2,3) ready dim1(1) refl out(1), of "en_support_triton e"] unfolding pw_def by blast
  obtain store' where S: "extend_all (zip sub rows) store = Inr store'"
    "\<forall>j<length sub. store' (sub ! j) = extended (rows ! j) (store (sub ! j))" "\<forall>i. i \<notin> set sub \<longrightarrow> store' i = store i"
    using extend_all_ready [OF sub(1) R(2) ready] by blast
  let ?es = "map (ext_slots out ?lens) [0..<length sub]"
  have H: "held p' (store' i) = held ?p (store i) @ given sub ?es i \<and> row_of (store' i) = row_of (store i) @ given sub nr i" if "i \<in> set idxs" for i
  proof (rule batch_holds [OF acc sub ready R(2) _ nr])
    show "take (length (fill_ids (store (sub ! j)))) (rtp_row (rows ! j) p') = prefix_indices (store (sub ! j)) @ ?es ! j"
      if "j < length sub" for j using P(4) that by simp
    show "rtp_row q p' = rtp_row q ?p" if "q < rp_size ?p" "q \<notin> set rows" for q using P(5) that by (simp add: p1_def)
  qed (use R(3) S(2,3) that in simp_all)
  have dims: "max_context_len p' = max_context_len ?p" "rp_size p' = rp_size ?p" "free_slots p' = free_slots p1"
    using arg_cong [OF P(2), of max_context_len] arg_cong [OF P(2), of rp_size] arg_cong [OF P(2), of free_slots] by (simp_all add: p1_def)
  have tab': "table_ok p' (concat (map (\<lambda>i. row_of (store i) @ given sub nr i) idxs))"
    using tab(1) P(3) dims unfolding table_ok_def by (simp add: p1_def)
  let ?m' = "m\<lparr>mem_alloc := s', mem_pool := p'\<rparr>"
  have pages: "tok_inv s' \<and> distinct out \<and> tok_pages ?s = tok_pages s' \<union> set out \<and> tok_pages s' \<inter> set out = {}"
    using out(2) by blast
  have acc': "accounted U ?m' store' idxs"
    using concat_ext_slots [OF out(1)] by (intro batch_accounted [OF acc sub ready H _ _ S(2,3) tab' dims(1) pages]) simp_all
  have "alloc_for_extend (en_support_triton e) (en_ao e) (en_tc e) (map (\<lambda>r. length (prefix_indices r)) ?rs)
      (map (\<lambda>r. nat (extend_input_len r)) ?rs) (map (\<lambda>r. length (fill_ids r)) ?rs) (sum_list ?lens) ?rs m = Inr (out, rows, reqs, ?m')"
    using e R(1) O P(1) unfolding pw_def
    by (simp add: alloc_for_extend_def alloc_req_slots_def alloc_token_slots_def evict_from_tree_cache_def tok_env_def chunk_ops_def tok_ops_def)
  then have "prepare_for_extend e sub st = Inr (\<lparr>db_reqs = sub, db_mode = DLLM_EXTEND,
      db_input_ids = concat (map (\<lambda>r. drop (length (prefix_indices r)) (fill_ids r)) ?rs), db_seq_lens = map (\<lambda>r. length (fill_ids r)) ?rs,
      db_prefix_lens = map (\<lambda>r. length (prefix_indices r)) ?rs, db_out_cache_loc = out, db_req_pool_indices = rows\<rparr>,
      st\<lparr>pa_store := store', pa_mem := ?m'\<rparr>)"
    using S(1) by (simp add: prepare_for_extend_def Let_def store_def m_def comp_def)
  moreover have "held p' (store i) = held ?p (store i)" if "i \<in> set idxs" "i \<notin> set sub" for i
    using H [OF that(1)] S(3) that(2) given_other [OF that(2), of ?es] by simp
  ultimately show ?thesis
    using acc' out(3) R(2) S(2,3) dims(1,2) by (intro exI conjI) (assumption | simp)+
qed

text \<open>A batch that needs more slots than are free raises.\<close>

lemma prepare_for_extend_dry:
  fixes st :: "(unit, allocator) sched"
  defines "m \<equiv> pa_mem st" and "store \<equiv> pa_store st"
  assumes e: "tok_env e" and acc: "accounted U m store idxs"
    and sub: "distinct sub" "set sub \<subseteq> set idxs" and ready: "\<forall>i\<in>set sub. extend_ready (mem_pool m) (store i)"
    and free_rows: "length (rowless (map store sub)) \<le> length (free_slots (mem_pool m))"
    and dry: "tok_available_size (mem_alloc m) < int (\<Sum>i\<leftarrow>sub. length (fill_ids (store i)) - length (prefix_indices (store i)))"
  shows "prepare_for_extend e sub st = Inl RuntimeError"
proof -
  let ?p = "mem_pool m" and ?n = "length (rowless (map store sub))"
  have A: "distinct idxs" "table_ok ?p (concat (map (\<lambda>i. row_of (store i)) idxs))" using acc by (simp_all add: accounted_def)
  obtain rows reqs where R: "rtp_alloc (map store sub) ?p = Inr (Some rows, reqs, ?p\<lparr>free_slots := drop ?n (free_slots ?p)\<rparr>)"
    using batch_rows [OF A(2) sub A(1) ready refl free_rows refl] by blast
  have "\<exists>s. tok_alloc (\<Sum>i\<leftarrow>sub. length (fill_ids (store i)) - length (prefix_indices (store i))) (mem_alloc m) = (None, s)"
    using dry by (auto simp: tok_alloc_def tok_available_size_def merge_and_sort_free_def Let_def)
  then show ?thesis
    using e R by (auto simp: prepare_for_extend_def Let_def alloc_for_extend_def alloc_req_slots_def alloc_token_slots_def
        evict_from_tree_cache_def tok_env_def chunk_ops_def tok_ops_def comp_def store_def m_def)
qed

end
