(* ===== verification/Sched_Batch.thy ===== *)
theory Sched_Batch
  imports Sched_Memory
begin

text \<open>
  The first half of a turn of the diffusion scheduler, on the token allocator and the chunk cache: the states a request
  goes through, the invariant of the queues, which requests are admitted, and the batch that is created for them.
\<close>

section \<open>Admission of prompts\<close>

text \<open>What \<open>_process_incoming_prefill_reqs\<close> makes of a request before it is offered to the adder.\<close>

definition prompt_input :: "('t, 's) dllm_env \<Rightarrow> req \<Rightarrow> req" where
  "prompt_input e r =
     (let r = init_prompt_cache_input r in if last_node r = None then r\<lparr>last_node := en_root_node e\<rparr> else r)"

lemma prompt_input_simps [simp]:
  "fill_ids (prompt_input e r) = origin_input_ids r" "prefix_indices (prompt_input e r) = []"
  "extend_input_len (prompt_input e r) = int (length (origin_input_ids r))" "origin_input_ids (prompt_input e r) = origin_input_ids r"
  "output_ids (prompt_input e r) = output_ids r" "sampling_params (prompt_input e r) = sampling_params r"
  by (simp_all add: prompt_input_def init_prompt_cache_input_def set_extend_input_len_def Let_def)

lemma ceil_paged_ge: "0 < pa_page_size a \<Longrightarrow> n \<le> ceil_paged_tokens a n"
  using div_mult_mod_eq [of "- n" "pa_page_size a"] pos_mod_sign [of "pa_page_size a" "- n"]
  unfolding ceil_paged_tokens_def minus_mult_left [symmetric] by linarith

lemma budget_simps [simp]:
  "rem_total_token_offset (update_prefill_budget pl n mn a) = rem_total_token_offset a + of_int (ceil_paged_tokens a n + mn + pa_page_size a)"
  "can_run_list (update_prefill_budget pl n mn a) = can_run_list a" "preempt_list (update_prefill_budget pl n mn a) = preempt_list a"
  "pa_page_size (update_prefill_budget pl n mn a) = pa_page_size a" "pa_dllm_config (update_prefill_budget pl n mn a) = pa_dllm_config a"
  "rem_dllm_tokens (update_prefill_budget pl n mn a) =
     (if pa_dllm_config a \<noteq> None then rem_dllm_tokens a - ceil_paged_tokens a n else rem_dllm_tokens a)"
  by (simp_all add: update_prefill_budget_def Let_def ceil_paged_tokens_def)

lemma admit_simps [simp]:
  "pa_mem (admit i r pl n mn st) = pa_mem st" "pa_running (admit i r pl n mn st) = pa_running st"
  "pa_store (admit i r pl n mn st) = (pa_store st)(i := r)"
  "pa_adder (admit i r pl n mn st) = update_prefill_budget pl n mn ((pa_adder st)\<lparr>can_run_list := can_run_list (pa_adder st) @ [i]\<rparr>)"
  by (simp_all add: admit_def)

text \<open>The parts of the scheduler that filling a batch leaves alone.\<close>

definition same_frame :: "('t, 's) sched \<Rightarrow> ('t, 's) sched \<Rightarrow> bool" where
  "same_frame st st' \<longleftrightarrow> pa_mem st' = pa_mem st \<and> pa_running st' = pa_running st \<and> waiting_queue st' = waiting_queue st
     \<and> sc_manager st' = sc_manager st \<and> num_generated_tokens st' = num_generated_tokens st \<and> last_batch st' = last_batch st
     \<and> preempt_list (pa_adder st') = preempt_list (pa_adder st) \<and> pa_page_size (pa_adder st') = pa_page_size (pa_adder st)"

lemma same_frame_refl [simp]: "same_frame st st"
  by (simp add: same_frame_def)

lemma same_frame_trans: "same_frame st st' \<Longrightarrow> same_frame st' st'' \<Longrightarrow> same_frame st st''"
  by (simp add: same_frame_def)

lemma admit_frame [simp]: "same_frame st (admit i r pl n mn st)"
  by (simp add: same_frame_def admit_def)

lemma batch_full_stop_frame:
  assumes "\<not> en_priority_scheduling e"
  shows "\<exists>b full. batch_full_stop e i st = Inr (b, st\<lparr>batch_is_full := full\<rparr>)"
  using assms by (cases "batch_is_full st") (auto simp: batch_full_stop_def Let_def intro: exI [of _ "batch_is_full st"])

text \<open>The loop over incoming prompts: a front part of the list is admitted, whose prompts fit in the free and evictable tokens.\<close>

definition prompt_len :: "(nat \<Rightarrow> req) \<Rightarrow> nat \<Rightarrow> int" where
  "prompt_len store i = int (length (origin_input_ids (store i)))"

lemma add_prompt_cases:
  obtains (refused) res where "add_dllm_prompt_cache_req ao tc i st = Inr (res, st)" "res \<noteq> CONTINUE"
  | (admitted) "add_dllm_prompt_cache_req ao tc i st = Inr (CONTINUE,
       admit i (pa_store st i) (int (length (prefix_indices (pa_store st i)))) (ceil_paged_tokens (pa_adder st) (extend_input_len (pa_store st i)))
         (min (max_new (pa_store st i)) CLIP_MAX_NEW_TOKENS) st)"
     "of_int (extend_input_len (pa_store st i)) < rem_total_tokens ao tc st"
proof -
  let ?r = "pa_store st i"
  let ?mx = "min (max (max_new ?r - int (length (output_ids ?r))) 0) CLIP_MAX_NEW_TOKENS"
  have "0 \<le> ?mx" by (simp add: CLIP_MAX_NEW_TOKENS_def)
  then have "of_int (extend_input_len ?r) \<le> (of_int (extend_input_len ?r + ?mx) :: rat)" by (simp only: of_int_le_iff)
  then have le: "of_int (extend_input_len ?r + ?mx) < rem_total_tokens ao tc st \<Longrightarrow> of_int (extend_input_len ?r) < rem_total_tokens ao tc st"
    by (rule le_less_trans)
  show ?thesis
  proof (cases "rem_total_tokens ao tc st \<le> of_int (extend_input_len ?r + ?mx)")
    case True
    then show ?thesis by (intro refused [of NO_TOKEN]) (simp_all add: add_dllm_prompt_cache_req_def Let_def)
  next
    case rem: False
    show ?thesis
    proof (cases "rem_input_tokens (pa_adder st) \<le> ceil_paged_tokens (pa_adder st) (extend_input_len ?r) \<and> can_run_list (pa_adder st) \<noteq> []")
      case True
      then show ?thesis using rem by (intro refused [of OTHER]) (simp_all add: add_dllm_prompt_cache_req_def Let_def)
    next
      case False
      then show ?thesis using rem le by (intro admitted) (auto simp: add_dllm_prompt_cache_req_def Let_def)
    qed
  qed
qed

lemma admit_offset:
  assumes "0 < pa_page_size a" "of_int n \<le> rem_total_token_offset a" "0 \<le> mx"
  shows "of_int (n + len) \<le> rem_total_token_offset (update_prefill_budget pl (ceil_paged_tokens a len) (min mx CLIP_MAX_NEW_TOKENS) (a\<lparr>can_run_list := c\<rparr>))"
proof -
  let ?a = "a\<lparr>can_run_list := c\<rparr>"
  have "len \<le> ceil_paged_tokens a len" "ceil_paged_tokens a len \<le> ceil_paged_tokens ?a (ceil_paged_tokens a len)"
    using assms(1) ceil_paged_ge [of a] ceil_paged_ge [of ?a] by simp_all
  then have "len \<le> ceil_paged_tokens ?a (ceil_paged_tokens a len) + min mx CLIP_MAX_NEW_TOKENS + pa_page_size a"
    using assms(1,3) by (simp add: CLIP_MAX_NEW_TOKENS_def)
  then have "(of_int len :: rat) \<le> of_int (ceil_paged_tokens ?a (ceil_paged_tokens a len) + min mx CLIP_MAX_NEW_TOKENS + pa_page_size a)"
    by (simp only: of_int_le_iff)
  then show ?thesis using assms(2) by simp
qed

lemma prompt_loop:
  assumes "\<not> en_priority_scheduling e" "distinct rs" "0 < pa_page_size (pa_adder st)" "\<forall>i\<in>set rs. 0 \<le> max_new (pa_store st i)"
    and "of_int n \<le> rem_total_token_offset (pa_adder st)" "n \<le> max 0 (available_and_evictable (en_ao e) (en_tc e) (pa_mem st))"
  shows "\<exists>st' k. process_incoming_prefill_reqs e rs st = Inr st' \<and> same_frame st st'
     \<and> can_run_list (pa_adder st') = can_run_list (pa_adder st) @ take k rs
     \<and> (\<forall>i. pa_store st' i = pa_store st i \<or> (i \<in> set rs \<and> pa_store st' i = prompt_input e (pa_store st i)))
     \<and> (\<forall>i\<in>set (take k rs). pa_store st' i = prompt_input e (pa_store st i))
     \<and> n + (\<Sum>i\<leftarrow>take k rs. prompt_len (pa_store st) i) \<le> max 0 (available_and_evictable (en_ao e) (en_tc e) (pa_mem st))"
  using assms(2-)
proof (induction rs arbitrary: st n)
  case Nil
  then show ?case by simp
next
  case (Cons i rs)
  let ?A = "available_and_evictable (en_ao e) (en_tc e) (pa_mem st)"
  obtain b full where f: "batch_full_stop e i st = Inr (b, st\<lparr>batch_is_full := full\<rparr>)"
    using batch_full_stop_frame [OF assms(1)] by blast
  define st1 where "st1 = st\<lparr>batch_is_full := full, pa_store := (pa_store st)(i := prompt_input e (pa_store st i))\<rparr>"
  have fr1: "same_frame st st1" "pa_adder st1 = pa_adder st" by (simp_all add: st1_def same_frame_def)
  have body: "process_incoming_prefill_reqs e (i # rs) st = (if b then Inr (st\<lparr>batch_is_full := full\<rparr>)
      else rbind (add_dllm_prompt_cache_req (en_ao e) (en_tc e) i st1) (\<lambda>(res, st).
        if res = CONTINUE then process_incoming_prefill_reqs e rs st else Inr (if res = NO_TOKEN then st\<lparr>batch_is_full := True\<rparr> else st)))"
    using f by (simp add: st1_def prompt_input_def Let_def)
  show ?case
  proof (cases b)
    case True
    then show ?thesis
      using body Cons.prems by (intro exI [of _ "st\<lparr>batch_is_full := full\<rparr>"] exI [of _ 0]) (simp add: same_frame_def)
  next
    case False
    show ?thesis
    proof (cases rule: add_prompt_cases [of "en_ao e" "en_tc e" i st1])
      case (refused res)
      then show ?thesis
        using body False Cons.prems
        by (intro exI [of _ "if res = NO_TOKEN then st1\<lparr>batch_is_full := True\<rparr> else st1"] exI [of _ 0]) (simp add: same_frame_def st1_def)
    next
      case admitted
      define st2 where "st2 = admit i (pa_store st1 i) (int (length (prefix_indices (pa_store st1 i))))
        (ceil_paged_tokens (pa_adder st1) (extend_input_len (pa_store st1 i))) (min (max_new (pa_store st1 i)) CLIP_MAX_NEW_TOKENS) st1"
      let ?n = "n + prompt_len (pa_store st) i"
      have fr: "same_frame st st2" "pa_store st2 = (pa_store st)(i := prompt_input e (pa_store st i))" "pa_page_size (pa_adder st2) = pa_page_size (pa_adder st)"
        "can_run_list (pa_adder st2) = can_run_list (pa_adder st) @ [i]" "pa_mem st2 = pa_mem st"
        using same_frame_trans [OF fr1(1) admit_frame] by (simp_all add: st2_def st1_def)
      have len: "extend_input_len (pa_store st1 i) = prompt_len (pa_store st) i" "0 \<le> max_new (pa_store st1 i)" "pa_adder st1 = pa_adder st"
        using Cons.prems(3) by (simp_all add: st1_def prompt_len_def max_new_def)
      have off: "of_int ?n \<le> rem_total_token_offset (pa_adder st2)"
        using admit_offset [OF Cons.prems(2,4) len(2)] len unfolding st2_def by simp
      have "of_int ?n < (of_int ?A :: rat)"
        using admitted(2) Cons.prems(4) len unfolding rem_total_tokens_def by (simp add: st1_def)
      then have "?n \<le> max 0 ?A" by linarith
      moreover have prems: "distinct rs" "0 < pa_page_size (pa_adder st2)" "\<forall>j\<in>set rs. 0 \<le> max_new (pa_store st2 j)"
        using Cons.prems(1-3) fr(2,3) by (auto simp: max_new_def)
      ultimately obtain st' k where IH: "process_incoming_prefill_reqs e rs st2 = Inr st'" "same_frame st2 st'"
        "can_run_list (pa_adder st') = can_run_list (pa_adder st2) @ take k rs"
        "\<forall>i. pa_store st' i = pa_store st2 i \<or> (i \<in> set rs \<and> pa_store st' i = prompt_input e (pa_store st2 i))"
        "\<forall>i\<in>set (take k rs). pa_store st' i = prompt_input e (pa_store st2 i)"
        "?n + (\<Sum>i\<leftarrow>take k rs. prompt_len (pa_store st2) i) \<le> max 0 ?A"
        using Cons.IH [OF prems(1-3) off] unfolding fr(5) by blast
      have pl: "prompt_len (pa_store st2) = prompt_len (pa_store st)" by (auto simp: prompt_len_def fr(2))
      have "process_incoming_prefill_reqs e (i # rs) st = Inr st'"
        using body False admitted(1) IH(1) by (simp add: st2_def)
      moreover have "pa_store st' j = pa_store st j \<or> (j \<in> set (i # rs) \<and> pa_store st' j = prompt_input e (pa_store st j))" for j
        using IH(4) [rule_format, of j] Cons.prems(1) fr(2) by (cases "j = i") auto
      moreover have "\<forall>j\<in>set (take (Suc k) (i # rs)). pa_store st' j = prompt_input e (pa_store st j)"
        using IH(4) [rule_format, of i] IH(5) Cons.prems(1) fr(2) by (auto dest: in_set_takeD)
      ultimately show ?thesis
        using same_frame_trans [OF fr(1) IH(2)] IH(3,6) fr(4) pl by (intro exI [of _ st'] exI [of _ "Suc k"]) simp
    qed
  qed
qed

section \<open>Admission of blocks\<close>

text \<open>A request that is to decode a whole block.\<close>

definition block_input :: "('t, 's) dllm_env \<Rightarrow> req \<Rightarrow> bool" where
  "block_input e r \<longleftrightarrow> extend_input_len r = int (dc_block_size (en_config e))
     \<and> length (fill_ids r) = length (prefix_indices r) + dc_block_size (en_config e)"

text \<open>The tokens a decode request takes from the budget.\<close>

definition block_cost :: "('t, 's) dllm_env \<Rightarrow> req \<Rightarrow> int" where
  "block_cost e r = int (dc_block_size (en_config e)) + min (max_new r) CLIP_MAX_NEW_TOKENS + 1"

text \<open>
  A budget of \<open>x\<close> tokens in front of each request of the list is either spent, so that the adder falls back to the
  block budget, or covers a whole block. In between the adder would cut the block.
\<close>

fun whole_blocks :: "('t, 's) dllm_env \<Rightarrow> (nat \<Rightarrow> req) \<Rightarrow> nat list \<Rightarrow> int \<Rightarrow> bool" where
  "whole_blocks e store [] x = True"
| "whole_blocks e store (i # rs) x \<longleftrightarrow> (x \<le> 0 \<or> int (dc_block_size (en_config e)) \<le> x) \<and> whole_blocks e store rs (x - block_cost e (store i))"

lemma py_int_of_int [simp]: "py_int (of_int x) = x"
  by (simp add: py_int_def)

lemma ceil_paged_one [simp]: "pa_page_size a = 1 \<Longrightarrow> ceil_paged_tokens a n = n"
  by (simp add: ceil_paged_tokens_def)

lemma add_staging_whole:
  assumes a: "pa_dllm_config (pa_adder st) = Some (en_config e)" "pa_page_size (pa_adder st) = 1" "0 < dc_block_size (en_config e)"
      "rem_dllm_tokens (pa_adder st) = int ((k + 1) * dc_block_size (en_config e))"
    and x: "rem_total_tokens ao tc st = of_int x" "x \<le> 0 \<or> int (dc_block_size (en_config e)) \<le> x"
    and r: "block_input e (pa_store st i)"
  shows "\<exists>a. add_dllm_staging_req ao tc i st = Inr (if k = 0 then NO_TOKEN else CONTINUE, st\<lparr>pa_adder := a\<rparr>)
     \<and> can_run_list a = can_run_list (pa_adder st) @ [i] \<and> preempt_list a = preempt_list (pa_adder st)
     \<and> pa_dllm_config a = Some (en_config e) \<and> pa_page_size a = 1 \<and> rem_dllm_tokens a = int (k * dc_block_size (en_config e))
     \<and> rem_total_tokens ao tc (st\<lparr>pa_adder := a\<rparr>) = of_int (x - block_cost e (pa_store st i))"
proof -
  let ?bs = "int (dc_block_size (en_config e))" and ?r = "pa_store st i"
  let ?mx = "min (max_new ?r) CLIP_MAX_NEW_TOKENS"
  define a where "a = update_prefill_budget 0 ?bs ?mx ((pa_adder st)\<lparr>can_run_list := can_run_list (pa_adder st) @ [i]\<rparr>)"
  have rem: "?bs \<le> get_dllm_remain_tokens ao tc st"
    using a x by (auto simp: get_dllm_remain_tokens_def pa_block_size_def Let_def algebra_simps)
  have r': "?r\<lparr>extend_input_len := ?bs, fill_ids := py_upto (int (length (prefix_indices ?r)) + ?bs) (fill_ids ?r)\<rparr> = ?r"
    using r by (simp add: block_input_def py_upto_nat nat_add_distrib)
  have st: "admit i ?r 0 ?bs ?mx st = st\<lparr>pa_adder := a\<rparr>" by (simp add: admit_def a_def)
  have rt: "rem_total_tokens ao tc (st\<lparr>pa_adder := a\<rparr>) = of_int (x - block_cost e ?r)"
    using x(1) a(2) by (simp add: rem_total_tokens_def a_def block_cost_def)
  have rd: "rem_dllm_tokens a = int (k * dc_block_size (en_config e))" "pa_dllm_config a = Some (en_config e)" "pa_page_size a = 1"
    using a by (simp_all add: a_def algebra_simps)
  have "get_dllm_remain_tokens ao tc (st\<lparr>pa_adder := a\<rparr>) \<le> 0 \<longleftrightarrow> k = 0"
    using a(3) rd rt by (cases "k = 0") (auto simp: get_dllm_remain_tokens_def pa_block_size_def Let_def mult_le_0_iff)
  then have "add_dllm_staging_req ao tc i st = Inr (if k = 0 then NO_TOKEN else CONTINUE, st\<lparr>pa_adder := a\<rparr>)"
    using rem r r' a(1,3) st by (simp add: add_dllm_staging_req_def Let_def block_input_def min_def)
  then show ?thesis using rd rt by (intro exI [of _ a]) (simp add: a_def)
qed

text \<open>Every decode request is admitted, none is changed.\<close>

lemma block_loop:
  assumes "pa_dllm_config (pa_adder st) = Some (en_config e)" "pa_page_size (pa_adder st) = 1" "0 < dc_block_size (en_config e)"
      "rem_dllm_tokens (pa_adder st) = int ((k + length rs) * dc_block_size (en_config e))"
    and "rem_total_tokens (en_ao e) (en_tc e) st = of_int x" "whole_blocks e (pa_store st) rs x"
    and "\<forall>i\<in>set rs. block_input e (pa_store st i)"
  shows "\<exists>res a. process_dllm_staging_reqs e rs st = Inr (res, st\<lparr>pa_adder := a\<rparr>)
     \<and> can_run_list a = can_run_list (pa_adder st) @ rs \<and> preempt_list a = preempt_list (pa_adder st) \<and> pa_page_size a = 1"
  using assms
proof (induction rs arbitrary: st x)
  case Nil
  then show ?case by (intro exI [of _ CONTINUE] exI [of _ "pa_adder st"]) simp
next
  case (Cons i rs)
  obtain a where a: "add_dllm_staging_req (en_ao e) (en_tc e) i st = Inr (if k + length rs = 0 then NO_TOKEN else CONTINUE, st\<lparr>pa_adder := a\<rparr>)"
    "can_run_list a = can_run_list (pa_adder st) @ [i]" "preempt_list a = preempt_list (pa_adder st)"
    "pa_dllm_config a = Some (en_config e)" "pa_page_size a = 1" "rem_dllm_tokens a = int ((k + length rs) * dc_block_size (en_config e))"
    "rem_total_tokens (en_ao e) (en_tc e) (st\<lparr>pa_adder := a\<rparr>) = of_int (x - block_cost e (pa_store st i))"
    using add_staging_whole [of st e "k + length rs" "en_ao e" "en_tc e" x i] Cons.prems by auto
  show ?case
  proof (cases "k + length rs = 0")
    case True
    then show ?thesis using a by (intro exI [of _ NO_TOKEN] exI [of _ a]) simp
  next
    case False
    obtain res a' where "process_dllm_staging_reqs e rs (st\<lparr>pa_adder := a\<rparr>) = Inr (res, st\<lparr>pa_adder := a'\<rparr>)"
      "can_run_list a' = can_run_list a @ rs" "preempt_list a' = preempt_list a" "pa_page_size a' = 1"
      using Cons.IH [of "st\<lparr>pa_adder := a\<rparr>" "x - block_cost e (pa_store st i)"] a Cons.prems by auto
    then show ?thesis using a False by (intro exI [of _ res] exI [of _ a']) auto
  qed
qed

section \<open>The states of a request\<close>

definition sound_req :: "('t, 's) dllm_env \<Rightarrow> nat \<Rightarrow> req \<Rightarrow> bool" where
  "sound_req e L r \<longleftrightarrow> req_dllm_config r = Some (en_config e) \<and> origin_input_ids r \<noteq> [] \<and> \<not> finished r
     \<and> \<not> kv_committed_freed r \<and> \<not> kv_overallocated_freed r
     \<and> (stop_strs (sampling_params r) = [] \<and> stop_regex_strs (sampling_params r) = [] \<or> tokenizer r \<noteq> None)
     \<and> int (length (output_ids r)) \<le> max_new r
     \<and> int (length (origin_input_ids r)) + max_new r + int (dc_block_size (en_config e)) \<le> int L"

text \<open>Not started; with its tokens in the cache; with the input of its next block set up; finished.\<close>

definition fresh_req :: "('t, 's) dllm_env \<Rightarrow> nat \<Rightarrow> req \<Rightarrow> bool" where
  "fresh_req e L r \<longleftrightarrow> sound_req e L r \<and> req_pool_idx r = None \<and> kv_committed_len r = 0 \<and> output_ids r = []
     \<and> dllm_phase r = Some INCOMING_PREFILL"

definition cached_req :: "('t, 's) dllm_env \<Rightarrow> nat \<Rightarrow> req \<Rightarrow> bool" where
  "cached_req e L r \<longleftrightarrow> sound_req e L r \<and> req_pool_idx r \<noteq> None \<and> kv_committed_len r = int (seqlen r)
     \<and> kv_allocated_len r = kv_committed_len r"

definition decoding_req :: "('t, 's) dllm_env \<Rightarrow> req_to_token_pool \<Rightarrow> req \<Rightarrow> bool" where
  "decoding_req e p r \<longleftrightarrow> cached_req e (max_context_len p) r \<and> dllm_phase r = Some STAGING_DECODE \<and> prefix_indices r = held p r
     \<and> extend_input_len r = int (dc_block_size (en_config e))
     \<and> fill_ids r = origin_input_ids r @ output_ids r @ replicate (dc_block_size (en_config e)) (dc_mask_id (en_config e))"

definition done_req :: "req \<Rightarrow> bool" where
  "done_req r \<longleftrightarrow> finished r \<and> req_pool_idx r = None"

text \<open>The fields on which these depend, apart from the input of the next round.\<close>

definition same_core :: "req \<Rightarrow> req \<Rightarrow> bool" where
  "same_core r r' \<longleftrightarrow> rid r' = rid r \<and> origin_input_ids r' = origin_input_ids r \<and> output_ids r' = output_ids r
     \<and> req_pool_idx r' = req_pool_idx r \<and> kv_committed_len r' = kv_committed_len r \<and> kv_allocated_len r' = kv_allocated_len r
     \<and> kv_committed_freed r' = kv_committed_freed r \<and> kv_overallocated_freed r' = kv_overallocated_freed r
     \<and> sampling_params r' = sampling_params r \<and> tokenizer r' = tokenizer r \<and> finished_reason r' = finished_reason r
     \<and> req_dllm_config r' = req_dllm_config r"

lemma same_core_refl [simp]: "same_core r r"
  by (simp add: same_core_def)

lemma same_core_trans: "same_core r r' \<Longrightarrow> same_core r' r'' \<Longrightarrow> same_core r r''"
  by (simp add: same_core_def)

lemma same_core_mem: "same_core r r' \<Longrightarrow> same_mem r r'"
  by (simp add: same_core_def same_mem_def)

text \<open>The fields that only the results of a batch change.\<close>

definition same_text :: "req \<Rightarrow> req \<Rightarrow> bool" where
  "same_text r r' \<longleftrightarrow> origin_input_ids r' = origin_input_ids r \<and> output_ids r' = output_ids r \<and> sampling_params r' = sampling_params r
     \<and> finished_reason r' = finished_reason r"

lemma same_core_text: "same_core r r' \<Longrightarrow> same_text r r'"
  by (simp add: same_core_def same_text_def)

lemma same_text_trans: "same_text r r' \<Longrightarrow> same_text r' r'' \<Longrightarrow> same_text r r''"
  by (simp add: same_text_def)

lemma same_core_sound: "same_core r r' \<Longrightarrow> sound_req e L r' = sound_req e L r"
  by (simp add: same_core_def sound_req_def max_new_def finished_def)

lemma same_core_cached: "same_core r r' \<Longrightarrow> cached_req e L r' = cached_req e L r"
  using same_core_sound [of r r' e L] by (simp add: cached_req_def same_core_def seqlen_def)

lemma same_core_done: "same_core r r' \<Longrightarrow> done_req r' = done_req r"
  by (simp add: done_req_def same_core_def finished_def)

lemma prompt_input_core [simp]: "same_core r (prompt_input e r)"
  by (simp add: prompt_input_def init_prompt_cache_input_def set_extend_input_len_def Let_def same_core_def)

lemma length_held:
  "kv_in_row p r \<Longrightarrow> length (req_to_token p) = rp_size p * max_context_len p \<Longrightarrow> req_pool_idx r = Some q \<Longrightarrow> q < rp_size p \<Longrightarrow>
   length (held p r) = nat (kv_committed_len r)"
  using length_block_full [of "req_to_token p" "rp_size p" "max_context_len p" q] by (auto simp: held_def rtp_row_block kv_in_row_def)

lemma accounted_length_held:
  assumes "accounted U m store idxs" "i \<in> set idxs" "req_pool_idx (store i) = Some q"
  shows "length (held (mem_pool m) (store i)) = nat (kv_committed_len (store i))"
proof -
  have "q \<in> set (concat (map (\<lambda>i. row_of (store i)) idxs))" using assms(2,3) by (auto simp: row_of_def intro!: bexI [of _ i])
  then have "q < rp_size (mem_pool m)" using assms(1) unfolding accounted_def table_ok_def set_append by blast
  then show ?thesis using assms by (intro length_held) (auto simp: accounted_def table_ok_def)
qed

lemma seqlen_pos: "origin_input_ids r \<noteq> [] \<Longrightarrow> 0 < seqlen r"
  by (simp add: seqlen_def)

lemma determine_phase_core:
  assumes "req_dllm_config r = Some c"
  shows "\<exists>r'. determine_dllm_phase r = Inr r' \<and> same_core r r' \<and> fill_ids r' = fill_ids r"
  using assms by (cases "length (fill_ids r) < length (prefix_indices r) + dc_block_size c")
    (simp_all add: determine_dllm_phase_def with_dllm_config_def Let_def same_core_def)

lemma init_next_round_core:
  assumes "req_dllm_config r = Some c"
  shows "\<exists>r'. init_next_round_input None t r = Inr (r', t) \<and> same_core r r'
     \<and> fill_ids r' = origin_input_ids r @ output_ids r @ replicate (dc_block_size c) (dc_mask_id c)"
proof -
  let ?fill = "origin_input_ids r @ output_ids r @ replicate (dc_block_size c) (dc_mask_id c)"
  obtain r1 where r1: "init_fill_ids_for_dllm r = Inr r1" "same_core r r1" "fill_ids r1 = ?fill"
    using assms by (simp add: init_fill_ids_for_dllm_def with_dllm_config_def same_core_def)
  then obtain r2 where r2: "determine_dllm_phase r1 = Inr r2" "same_core r1 r2" "fill_ids r2 = ?fill"
    using determine_phase_core [of r1 c] assms by (auto simp: same_core_def)
  define r3 where "r3 = (if session_streaming r2 \<and> return_logprob r2 \<and> logprob_start_len r2 \<ge> 0 then r2\<lparr>logprob_start_len := -1\<rparr> else r2)"
  have r3: "same_core r r3" "fill_ids r3 = ?fill" using same_core_trans [OF r1(2) r2(2)] r2(3) by (simp_all add: r3_def same_core_def)
  have "init_next_round_input None t r = Inr (set_extend_input_len (int (length (fill_ids r3)) - int (length (prefix_indices r3))) r3, t)"
    using assms r1(1) r2(1) by (simp add: init_next_round_input_def is_dllm_def r3_def Let_def)
  then show ?thesis using r3 by (simp add: set_extend_input_len_def Let_def same_core_def)
qed

text \<open>\<open>_prepare_staging_reqs\<close> on one request.\<close>

lemma prepare_staging_cached:
  assumes "cached_req e (max_context_len p) r" "0 < dc_block_size (en_config e)" "length (held p r) = nat (kv_committed_len r)"
  shows "\<exists>r'. prepare_staging_req p r = Inr r' \<and> same_core r r' \<and> decoding_req e p r'"
proof -
  let ?c = "en_config e" and ?fill = "origin_input_ids r @ output_ids r @ replicate (dc_block_size (en_config e)) (dc_mask_id (en_config e))"
  obtain q where q: "req_pool_idx r = Some q" using assms(1) by (auto simp: cached_req_def)
  have c: "req_dllm_config r = Some ?c" "0 < kv_committed_len r" "kv_committed_len r = int (seqlen r)"
    using assms(1) seqlen_pos [of r] by (auto simp: cached_req_def sound_req_def)
  obtain r1 where r1: "init_next_round_input None () r = Inr (r1, ())" "same_core r r1" "fill_ids r1 = ?fill"
    using init_next_round_core [OF c(1), of "()"] by blast
  define r2 where "r2 = r1\<lparr>prefix_indices := py_upto (kv_committed_len r1) (rtp_row q p)\<rparr>"
  have h: "py_upto (kv_committed_len r1) (rtp_row q p) = held p r"
    using r1(2) c(2) q by (simp add: same_core_def held_def py_upto_nat)
  have l: "length (prefix_indices r2) = seqlen r" using assms(3) h c(3) by (simp add: r2_def)
  have ph: "determine_dllm_phase r2 = Inr (r2\<lparr>dllm_phase := Some STAGING_DECODE\<rparr>)"
    using r1(2,3) c(1) l assms(2)
    by (auto simp: determine_dllm_phase_def with_dllm_config_def r2_def same_core_def seqlen_def Let_def)
  define r3 where "r3 = set_extend_input_len (int (length (fill_ids r2)) - int (length (prefix_indices r2))) (r2\<lparr>dllm_phase := Some STAGING_DECODE\<rparr>)"
  have "prepare_staging_req p r = Inr r3"
    using r1(1,2) q c(2) ph by (simp add: prepare_staging_req_def same_core_def r2_def r3_def)
  moreover have core: "same_core r r3" using r1(2) by (simp add: r3_def r2_def set_extend_input_len_def Let_def same_core_def)
  moreover have "dllm_phase r3 = Some STAGING_DECODE" "prefix_indices r3 = held p r" "fill_ids r3 = ?fill"
      "extend_input_len r3 = int (dc_block_size ?c)"
    using h l r1(3) by (simp_all add: r3_def r2_def set_extend_input_len_def Let_def seqlen_def)
  ultimately have "decoding_req e p r3"
    using assms(1) same_core_cached [OF core, of e] same_mem_held [OF same_core_mem [OF core]] by (simp add: decoding_req_def same_core_def)
  with \<open>prepare_staging_req p r = Inr r3\<close> core show ?thesis by blast
qed

section \<open>The invariant of the event loop\<close>

text \<open>What the environment is assumed to be: the token allocator with the chunk cache, no priorities, a queue policy that
  only reorders.\<close>

definition env_ok :: "(unit, allocator) dllm_env \<Rightarrow> bool" where
  "env_ok e \<longleftrightarrow> tok_env e \<and> \<not> en_priority_scheduling e \<and> (\<forall>store q. mset (en_calc_priority e store q) = mset q)"

abbreviation queued :: "('t, 's) sched \<Rightarrow> nat list" where
  "queued st \<equiv> dm_waiting_queue (sc_manager st)"

abbreviation staged :: "('t, 's) sched \<Rightarrow> nat list" where
  "staged st \<equiv> dm_staging_queue (sc_manager st)"

abbreviation row_len :: "('t, 's) sched \<Rightarrow> nat" where
  "row_len st \<equiv> max_context_len (mem_pool (pa_mem st))"

text \<open>The memory, and the queues around it.\<close>

definition queues_ok :: "(unit, allocator) dllm_env \<Rightarrow> int set \<Rightarrow> (unit, allocator) sched \<Rightarrow> bool" where
  "queues_ok e U st \<longleftrightarrow> env_ok e \<and> accounted U (pa_mem st) (pa_store st) (queued st @ waiting_queue st) \<and> tok_ready (mem_alloc (pa_mem st))
     \<and> pa_running st = [] \<and> dm_config (sc_manager st) = Some (en_config e) \<and> distinct (staged st) \<and> set (staged st) \<subseteq> set (queued st)
     \<and> length (queued st) \<le> max_running_requests (en_config e) \<and> max_running_requests (en_config e) \<le> rp_size (mem_pool (pa_mem st))
     \<and> distinct (map (\<lambda>i. rid (pa_store st i)) (queued st @ waiting_queue st))
     \<and> (\<forall>i\<in>set (waiting_queue st). fresh_req e (row_len st) (pa_store st i))"

text \<open>Between two turns, and once the staged requests are prepared.\<close>

definition sched_inv :: "(unit, allocator) dllm_env \<Rightarrow> int set \<Rightarrow> (unit, allocator) sched \<Rightarrow> bool" where
  "sched_inv e U st \<longleftrightarrow> queues_ok e U st
     \<and> (\<forall>i\<in>set (queued st). done_req (pa_store st i)
          \<or> (if i \<in> set (staged st) then cached_req e (row_len st) (pa_store st i)
             else fresh_req e (row_len st) (pa_store st i) \<or> decoding_req e (mem_pool (pa_mem st)) (pa_store st i)))"

definition sched_prepared :: "(unit, allocator) dllm_env \<Rightarrow> int set \<Rightarrow> (unit, allocator) sched \<Rightarrow> bool" where
  "sched_prepared e U st \<longleftrightarrow> queues_ok e U st \<and> staged st = []
     \<and> (\<forall>i\<in>set (queued st). fresh_req e (row_len st) (pa_store st i) \<or> decoding_req e (mem_pool (pa_mem st)) (pa_store st i))"

lemma prepare_reqs_cached:
  assumes "distinct rs" "\<forall>i\<in>set rs. cached_req e (max_context_len p) (store i) \<and> length (held p (store i)) = nat (kv_committed_len (store i))"
    and "0 < dc_block_size (en_config e)"
  shows "\<exists>store'. prepare_reqs p rs store = Inr store' \<and> (\<forall>i\<in>set rs. same_core (store i) (store' i) \<and> decoding_req e p (store' i))
     \<and> (\<forall>i. i \<notin> set rs \<longrightarrow> store' i = store i)"
  using assms(1,2)
proof (induction rs arbitrary: store)
  case (Cons i rs)
  obtain r where r: "prepare_staging_req p (store i) = Inr r" "same_core (store i) r" "decoding_req e p r"
    using prepare_staging_cached [of e p "store i"] Cons.prems(2) assms(3) by auto
  have "\<exists>store'. prepare_reqs p rs (store(i := r)) = Inr store'
      \<and> (\<forall>j\<in>set rs. same_core ((store(i := r)) j) (store' j) \<and> decoding_req e p (store' j))
      \<and> (\<forall>j. j \<notin> set rs \<longrightarrow> store' j = (store(i := r)) j)"
    using Cons.prems by (intro Cons.IH) auto
  then obtain store' where s: "prepare_reqs p rs (store(i := r)) = Inr store'"
    "\<forall>j\<in>set rs. same_core ((store(i := r)) j) (store' j) \<and> decoding_req e p (store' j)"
    "\<forall>j. j \<notin> set rs \<longrightarrow> store' j = (store(i := r)) j" by blast
  have "same_core (store j) (store' j) \<and> decoding_req e p (store' j)" if "j \<in> set (i # rs)" for j
    using that s(2,3) r(2,3) Cons.prems(1) by (cases "j = i") auto
  then show ?case using s r(1) by (intro exI [of _ store']) auto
qed simp

lemma filter_finished_inv:
  assumes "sched_inv e U st"
  shows "sched_inv e U (st\<lparr>sc_manager := filter_finished_reqs (pa_store st) (sc_manager st)\<rparr>)
     \<and> (\<forall>i\<in>set (queued (st\<lparr>sc_manager := filter_finished_reqs (pa_store st) (sc_manager st)\<rparr>)). \<not> done_req (pa_store st i))"
proof -
  let ?q = "filter (\<lambda>i. \<not> finished (pa_store st i)) (queued st)"
  note I = assms [unfolded sched_inv_def queues_ok_def]
  have d: "finished (pa_store st i) \<Longrightarrow> req_pool_idx (pa_store st i) = None" if "i \<in> set (queued st)" for i
    using I that by (auto simp: done_req_def cached_req_def fresh_req_def decoding_req_def sound_req_def split: if_splits)
  have w: "\<not> finished (pa_store st i)" if "i \<in> set (waiting_queue st)" for i
    using I that by (auto simp: fresh_req_def sound_req_def)
  have f: "filter (\<lambda>i. \<not> finished (pa_store st i)) (queued st @ waiting_queue st) = ?q @ waiting_queue st"
    using w by (auto simp: filter_id_conv)
  have "accounted U (pa_mem st) (pa_store st) (?q @ waiting_queue st)"
    using accounted_filter [of "queued st @ waiting_queue st" "\<lambda>i. \<not> finished (pa_store st i)" "pa_store st" U "pa_mem st"] d w I
    unfolding f by auto
  moreover have "distinct (map (\<lambda>i. rid (pa_store st i)) (?q @ waiting_queue st))"
    using I unfolding f [symmetric] by (intro distinct_map_filter) simp
  moreover have "length ?q \<le> max_running_requests (en_config e)" using I length_filter_le order_trans by blast
  moreover have "\<forall>i\<in>set ?q. \<not> done_req (pa_store st i)" by (simp add: done_req_def)
  ultimately show ?thesis using I by (auto simp: sched_inv_def queues_ok_def filter_finished_reqs_def)
qed

lemma decoding_cong:
  assumes "held p' r = held p r" "max_context_len p' = max_context_len p"
  shows "decoding_req e p' r = decoding_req e p r"
  using assms by (simp add: decoding_req_def)

lemma prepare_staging_inv:
  assumes I: "sched_inv e U st" "\<forall>i\<in>set (queued st). \<not> done_req (pa_store st i)"
  shows "\<exists>store'. prepare_staging_reqs st = Inr (st\<lparr>pa_store := store', sc_manager := (sc_manager st)\<lparr>dm_staging_queue := []\<rparr>\<rparr>)
     \<and> (\<forall>i. same_core (pa_store st i) (store' i))
     \<and> sched_prepared e U (st\<lparr>pa_store := store', sc_manager := (sc_manager st)\<lparr>dm_staging_queue := []\<rparr>\<rparr>)"
proof -
  let ?p = "mem_pool (pa_mem st)"
  note J = I(1) [unfolded sched_inv_def queues_ok_def]
  have c: "cached_req e (max_context_len ?p) (pa_store st i)" if "i \<in> set (staged st)" for i using J I(2) that by fastforce
  moreover have "length (held ?p (pa_store st i)) = nat (kv_committed_len (pa_store st i))" if i: "i \<in> set (staged st)" for i
  proof -
    obtain q where "req_pool_idx (pa_store st i) = Some q" using c [OF i] by (auto simp: cached_req_def)
    moreover have "i \<in> set (queued st @ waiting_queue st)" using J i by auto
    ultimately show ?thesis using J accounted_length_held by blast
  qed
  moreover have "0 < dc_block_size (en_config e)" "distinct (staged st)" using J by (auto simp: env_ok_def tok_env_def)
  ultimately obtain store' where s: "prepare_reqs ?p (staged st) (pa_store st) = Inr store'"
    "\<forall>i\<in>set (staged st). same_core (pa_store st i) (store' i) \<and> decoding_req e ?p (store' i)"
    "\<forall>i. i \<notin> set (staged st) \<longrightarrow> store' i = pa_store st i"
    using prepare_reqs_cached [of "staged st" e ?p "pa_store st"] by blast
  have core: "same_core (pa_store st i) (store' i)" for i using s(2,3) by (cases "i \<in> set (staged st)") auto
  have "accounted U (pa_mem st) store' (queued st @ waiting_queue st)"
    using J accounted_cong [of "queued st @ waiting_queue st" "pa_store st" store'] same_core_mem [OF core] by blast
  moreover have "(\<lambda>i. rid (store' i)) = (\<lambda>i. rid (pa_store st i))" using core by (auto simp: same_core_def)
  moreover have "store' i = pa_store st i" if "i \<in> set (waiting_queue st)" for i
    using that s(3) J by (auto simp: accounted_def)
  moreover have "fresh_req e (max_context_len ?p) (store' i) \<or> decoding_req e ?p (store' i)" if "i \<in> set (queued st)" for i
    using that s(2,3) J I(2) by (cases "i \<in> set (staged st)") auto
  ultimately show ?thesis
    using J s(1) core by (intro exI [of _ store']) (auto simp: prepare_staging_reqs_def sched_prepared_def queues_ok_def)
qed

lemma fetch_prepared:
  assumes P: "sched_prepared e U st"
  shows "\<exists>n. fetch_waiting_reqs e st = Inr (st\<lparr>sc_manager := (sc_manager st)\<lparr>dm_waiting_queue := queued st @ take n (waiting_queue st)\<rparr>,
        waiting_queue := drop n (waiting_queue st)\<rparr>)
     \<and> sched_prepared e U (st\<lparr>sc_manager := (sc_manager st)\<lparr>dm_waiting_queue := queued st @ take n (waiting_queue st)\<rparr>,
        waiting_queue := drop n (waiting_queue st)\<rparr>)"
proof -
  note J = P [unfolded sched_prepared_def queues_ok_def]
  define num where "num = min (int (max_running_requests (en_config e)) - int (length (queued st))) (int (length (waiting_queue st)))"
  have nodup: "\<not> has_duplicate_reqs (pa_store st) (take n (waiting_queue st)) (sc_manager st)" for n
    using J by (auto simp: has_duplicate_reqs_def dest!: in_set_takeD)
  have app: "(queued st @ take n (waiting_queue st)) @ drop n (waiting_queue st) = queued st @ waiting_queue st" for n by simp
  have "fetch_waiting_reqs e st = Inr (st\<lparr>sc_manager := (sc_manager st)\<lparr>dm_waiting_queue := queued st @ take (nat num) (waiting_queue st)\<rparr>,
        waiting_queue := drop (nat num) (waiting_queue st)\<rparr>)"
    using J nodup [of "nat num"] unfolding fetch_waiting_reqs_def Let_def num_def [symmetric]
    by (cases "0 < num") (simp_all add: add_waiting_reqs_def)
  moreover have "sched_prepared e U (st\<lparr>sc_manager := (sc_manager st)\<lparr>dm_waiting_queue := queued st @ take (nat num) (waiting_queue st)\<rparr>,
        waiting_queue := drop (nat num) (waiting_queue st)\<rparr>)"
  proof -
    have len: "length (queued st) + min (length (waiting_queue st)) (nat num) \<le> max_running_requests (en_config e)"
      using J by (auto simp: num_def min_def nat_le_iff)
    have "\<forall>i\<in>set (take (nat num) (waiting_queue st)) \<union> set (drop (nat num) (waiting_queue st)). fresh_req e (row_len st) (pa_store st i)"
      using J by (auto dest: in_set_takeD in_set_dropD)
    then show ?thesis using J len app [of "nat num"] unfolding sched_prepared_def queues_ok_def by (auto simp del: append_assoc distinct_append map_append)
  qed
  ultimately show ?thesis by blast
qed

section \<open>Creating a batch\<close>

text \<open>A request of a running batch: \<open>n\<close> tokens of it are in the cache beyond its output.\<close>

definition running_req :: "('t, 's) dllm_env \<Rightarrow> nat \<Rightarrow> nat \<Rightarrow> req \<Rightarrow> bool" where
  "running_req e L n r \<longleftrightarrow> sound_req e L r \<and> req_pool_idx r \<noteq> None \<and> kv_committed_len r = int (seqlen r + n)
     \<and> kv_allocated_len r = kv_committed_len r"

definition sched_running :: "(unit, allocator) dllm_env \<Rightarrow> int set \<Rightarrow> nat \<Rightarrow> nat list \<Rightarrow> (unit, allocator) sched \<Rightarrow> bool" where
  "sched_running e U n sub st \<longleftrightarrow> queues_ok e U st \<and> staged st = sub \<and> (\<forall>i\<in>set sub. running_req e (row_len st) n (pa_store st i))
     \<and> (\<forall>i\<in>set (queued st). i \<notin> set sub \<longrightarrow>
          fresh_req e (row_len st) (pa_store st i) \<or> decoding_req e (mem_pool (pa_mem st)) (pa_store st i))"

lemma sum_rows: "length (concat (map (\<lambda>i. row_of (store i)) idxs)) = length (filter (\<lambda>i. req_pool_idx (store i) \<noteq> None) idxs)"
  by (induction idxs) (auto simp: row_of_def)

lemma free_rows_enough:
  assumes Q: "queues_ok e U st" and sub: "distinct sub" "set sub \<subseteq> set (queued st)"
  shows "length (rowless (map (pa_store st) sub)) \<le> length (free_slots (mem_pool (pa_mem st)))"
proof -
  let ?p = "mem_pool (pa_mem st)" and ?has = "\<lambda>i. req_pool_idx (pa_store st i) \<noteq> None" and ?all = "queued st @ waiting_queue st"
  note J = Q [unfolded queues_ok_def accounted_def table_ok_def]
  have w: "filter ?has (waiting_queue st) = []" using J by (auto simp: filter_empty_conv fresh_req_def)
  have "rp_size ?p = length (free_slots ?p @ concat (map (\<lambda>i. row_of (pa_store st i)) ?all))"
    using J distinct_card [of "free_slots ?p @ concat (map (\<lambda>i. row_of (pa_store st i)) ?all)"] by simp
  also have "\<dots> = length (free_slots ?p) + length (filter ?has (queued st))"
    using sum_rows [of "pa_store st" ?all] w by simp
  finally have rp: "rp_size ?p = length (free_slots ?p) + length (filter ?has (queued st))" .
  have d: "distinct (queued st)" using J by simp
  have "length (rowless (map (pa_store st) sub)) = card (set (filter (\<lambda>i. \<not> ?has i) sub))"
    using sub(1) distinct_card [of "filter (\<lambda>i. \<not> ?has i) sub"] by (simp add: filter_map comp_def)
  also have "\<dots> \<le> card (set (filter (\<lambda>i. \<not> ?has i) (queued st)))" using sub(2) by (intro card_mono) auto
  also have "\<dots> = length (filter (\<lambda>i. \<not> ?has i) (queued st))" using d distinct_card by (metis distinct_filter)
  finally show ?thesis
    using rp J sum_length_filter_compl [of ?has "queued st"] by linarith
qed

lemma tok_available_card: "tok_inv s \<Longrightarrow> tok_ready s \<Longrightarrow> tok_available_size s = int (card (tok_pages s))"
  using distinct_card [of "free_pages s @ release_pages s"]
  by (simp add: tok_available_size_def tok_inv_def tok_pages_def tok_ready_def pending_def)

lemma increment_chunked: "\<exists>c. increment_chunked_count d store i = (store i)\<lparr>is_chunked := c\<rparr>"
proof -
  have "\<exists>c. foldl (\<lambda>store i. store(i := (store i)\<lparr>is_chunked := is_chunked (store i) + 1\<rparr>)) store xs i = (store i)\<lparr>is_chunked := c\<rparr>" for xs
  proof (induction xs rule: rev_induct)
    case Nil
    then show ?case by (intro exI [of _ "is_chunked (store i)"]) simp
  next
    case (snoc x xs)
    then obtain c where "foldl (\<lambda>store i. store(i := (store i)\<lparr>is_chunked := is_chunked (store i) + 1\<rparr>)) store xs i = (store i)\<lparr>is_chunked := c\<rparr>" by blast
    then show ?case by (cases "x = i") (auto simp: fun_upd_same fun_upd_other simp del: fun_upd_apply)
  qed
  then show ?thesis by (simp add: increment_chunked_count_def)
qed

lemma held_chunked [simp]: "held p (r\<lparr>is_chunked := c\<rparr>) = held p r"
  using same_mem_held [of r "r\<lparr>is_chunked := c\<rparr>"] by (simp add: same_mem_def)

lemma chunked_simps [simp]:
  "same_core r (r\<lparr>is_chunked := c\<rparr>)" "extend_ready p (r\<lparr>is_chunked := c\<rparr>) = extend_ready p r"
  "fresh_req e L (r\<lparr>is_chunked := c\<rparr>) = fresh_req e L r" "decoding_req e p (r\<lparr>is_chunked := c\<rparr>) = decoding_req e p r"
  "sound_req e L (r\<lparr>is_chunked := c\<rparr>) = sound_req e L r"
  by (simp_all add: same_core_def extend_ready_def fresh_req_def decoding_req_def cached_req_def sound_req_def max_new_def
      finished_def seqlen_def)

text \<open>\<open>_update_state_for_batch\<close> makes the batch the staging queue and counts its chunks.\<close>

lemma update_state_prepared:
  assumes P: "sched_prepared e U st" and pre: "preempt_list (pa_adder st) = []" "can_run_list (pa_adder st) = sub" "sub \<noteq> []"
    and sub: "distinct sub" "set sub \<subseteq> set (queued st)" and st1: "st1 = update_state_for_batch st"
  shows "queues_ok e U st1" "pa_mem st1 = pa_mem st" "sc_manager st1 = (sc_manager st)\<lparr>dm_staging_queue := sub\<rparr>" "waiting_queue st1 = waiting_queue st"
    "\<exists>c. pa_store st1 i = (pa_store st i)\<lparr>is_chunked := c\<rparr>"
proof -
  note J = P [unfolded sched_prepared_def queues_ok_def]
  let ?d = "(sc_manager st)\<lparr>dm_staging_queue := sub\<rparr>"
  define store1 where "store1 = increment_chunked_count ?d (pa_store st)"
  have up: "st1 = st\<lparr>sc_manager := ?d, pa_store := store1\<rparr>"
    using pre J by (simp add: st1 update_state_for_batch_def add_staging_reqs_def Let_def store1_def)
  have s1: "\<exists>c. store1 i = (pa_store st i)\<lparr>is_chunked := c\<rparr>" for i unfolding store1_def by (rule increment_chunked)
  then have core: "same_core (pa_store st i) (store1 i)" for i using chunked_simps(1) by metis
  have fresh: "fresh_req e L (store1 i) = fresh_req e L (pa_store st i)" for i L using s1 [of i] by auto
  have "accounted U (pa_mem st) store1 (queued st @ waiting_queue st)" using J same_core_mem [OF core] by (auto intro: accounted_cong)
  then show "queues_ok e U st1" using J sub core by (auto simp: queues_ok_def up fresh same_core_def)
  show "pa_mem st1 = pa_mem st" "sc_manager st1 = ?d" "waiting_queue st1 = waiting_queue st" by (simp_all add: up)
  show "\<exists>c. pa_store st1 i = (pa_store st i)\<lparr>is_chunked := c\<rparr>" using s1 by (simp add: up)
qed

lemma chunked_keep:
  assumes "\<exists>c. r' = r\<lparr>is_chunked := c\<rparr>"
  shows "extend_ready p r' = extend_ready p r" "fresh_req e L r' = fresh_req e L r" "decoding_req e p r' = decoding_req e p r"
    "fill_ids r' = fill_ids r" "prefix_indices r' = prefix_indices r" "sound_req e L r' = sound_req e L r" "same_core r r'"
  using assms by auto

text \<open>
  \<open>_update_state_for_batch\<close> and \<open>_create_dllm_batch\<close>, when the requests of the batch are ready and there is room
  for their new tokens.
\<close>

lemma extended_running:
  assumes "extend_ready p r" "length (fill_ids r) = seqlen r + n" "sound_req e L r"
  shows "running_req e L n (extended row r) \<and> rid (extended row r) = rid r \<and> same_text r (extended row r)"
  using assms by (simp add: running_req_def sound_req_def max_new_def finished_def seqlen_def same_text_def)

lemma create_batch:
  assumes P: "sched_prepared e U st" and pre: "preempt_list (pa_adder st) = []" "can_run_list (pa_adder st) = sub" "sub \<noteq> []"
    and sub: "distinct sub" "set sub \<subseteq> set (queued st)"
    and ready: "\<forall>i\<in>set sub. extend_ready (mem_pool (pa_mem st)) (pa_store st i)"
      "\<forall>i\<in>set sub. length (fill_ids (pa_store st i)) = seqlen (pa_store st i) + n"
    and room: "(\<Sum>i\<leftarrow>sub. length (fill_ids (pa_store st i)) - length (prefix_indices (pa_store st i))) \<le> card (tok_pages (mem_alloc (pa_mem st)))"
  shows "\<exists>b st'. create_dllm_batch e sub mode (update_state_for_batch st) = Inr (b, st') \<and> db_reqs b = sub \<and> db_mode b = mode
     \<and> sched_running e U n sub st' \<and> queued st' = queued st \<and> waiting_queue st' = waiting_queue st
     \<and> (\<forall>i. same_text (pa_store st i) (pa_store st' i))"
proof -
  let ?p = "mem_pool (pa_mem st)"
  note J = P [unfolded sched_prepared_def queues_ok_def]
  define st1 where "st1 = update_state_for_batch st"
  note U = update_state_prepared [OF P pre sub st1_def]
  note keep = chunked_keep [OF U(5)]
  have f1: "queued st1 = queued st" by (simp add: U(3))
  have acc1: "accounted U (pa_mem st1) (pa_store st1) (queued st @ waiting_queue st)" using U(1,4) f1 by (simp add: queues_ok_def)
  have prems: "tok_env e" "tok_ready (mem_alloc (pa_mem st1))" "set sub \<subseteq> set (queued st @ waiting_queue st)"
    "\<forall>i\<in>set sub. extend_ready (mem_pool (pa_mem st1)) (pa_store st1 i)"
    "length (rowless (map (pa_store st1) sub)) \<le> length (free_slots (mem_pool (pa_mem st1)))"
    "(\<Sum>i\<leftarrow>sub. length (fill_ids (pa_store st1 i)) - length (prefix_indices (pa_store st1 i))) \<le> card (tok_pages (mem_alloc (pa_mem st1)))"
    using J sub free_rows_enough [OF U(1) sub(1)] ready(1) room by (auto simp: f1 U(2) keep env_ok_def)
  obtain b store' m' rows where B: "prepare_for_extend e sub st1 = Inr (b, st1\<lparr>pa_store := store', pa_mem := m'\<rparr>)" "db_reqs b = sub"
    "length rows = length sub" "\<forall>j<length sub. store' (sub ! j) = extended (rows ! j) (pa_store st1 (sub ! j))"
    "\<forall>i. i \<notin> set sub \<longrightarrow> store' i = pa_store st1 i" "accounted U m' store' (queued st @ waiting_queue st)" "tok_ready (mem_alloc m')"
    "max_context_len (mem_pool m') = max_context_len ?p" "rp_size (mem_pool m') = rp_size ?p"
    "\<forall>i\<in>set (queued st @ waiting_queue st). i \<notin> set sub \<longrightarrow> held (mem_pool m') (pa_store st1 i) = held ?p (pa_store st1 i)"
    using prepare_for_extend_accounted [OF prems(1) acc1 prems(2) sub(1) prems(3-6)] unfolding U(2) by blast
  define st' where "st' = st1\<lparr>pa_store := store', pa_mem := m'\<rparr>"
  have run: "running_req e (max_context_len ?p) n (store' i) \<and> rid (store' i) = rid (pa_store st1 i) \<and> same_text (pa_store st1 i) (store' i)"
    if i: "i \<in> set sub" for i
  proof -
    obtain j where j: "j < length sub" "i = sub ! j" using i by (metis in_set_conv_nth)
    have "sound_req e (max_context_len ?p) (pa_store st i)" using J sub i by (auto simp: fresh_req_def decoding_req_def cached_req_def)
    then have "sound_req e (max_context_len ?p) (pa_store st1 i)" by (simp only: keep(6))
    moreover have "seqlen (pa_store st1 i) = seqlen (pa_store st i)" using keep(7) [of i] by (simp add: same_core_def seqlen_def)
    then have "extend_ready ?p (pa_store st1 i)" "length (fill_ids (pa_store st1 i)) = seqlen (pa_store st1 i) + n"
      using ready i by (simp_all only: keep(1,4))
    ultimately show ?thesis using extended_running [of ?p "pa_store st1 i" n e _ "rows ! j"] B(4) j by simp
  qed
  have rids: "rid (store' i) = rid (pa_store st i)" for i
    using B(5) run keep(7) [of i] by (cases "i \<in> set sub") (auto simp: same_core_def)
  have "fresh_req e (max_context_len ?p) (store' i)" if "i \<in> set (waiting_queue st)" for i
  proof -
    have "i \<notin> set sub" using that J sub(2) by (auto simp: accounted_def)
    then show ?thesis using that J B(5) by (simp add: keep(2))
  qed
  then have "queues_ok e U st'"
    using B(6-9) sub rids U(1,3,4) J unfolding st'_def queues_ok_def by simp
  moreover have "fresh_req e (row_len st') (pa_store st' i) \<or> decoding_req e (mem_pool (pa_mem st')) (pa_store st' i)"
    if "i \<in> set (queued st')" "i \<notin> set sub" for i
    using that B(5,8,10) J decoding_cong [of "mem_pool m'" "pa_store st1 i" ?p e] f1 by (auto simp: st'_def keep)
  ultimately have "sched_running e U n sub st'"
    using run B(8) by (simp add: sched_running_def st'_def U(3))
  moreover have "same_text (pa_store st i) (pa_store st' i)" for i
    using run same_core_text [OF keep(7) [of i]] B(5) by (cases "i \<in> set sub") (auto simp: st'_def same_text_def)
  ultimately show ?thesis
    using B(1,2) f1 U(4) unfolding create_dllm_batch_def st1_def [symmetric] by (auto simp: st'_def)
qed

lemma create_batch_dry:
  assumes P: "sched_prepared e U st" and pre: "preempt_list (pa_adder st) = []" "can_run_list (pa_adder st) = sub" "sub \<noteq> []"
    and sub: "distinct sub" "set sub \<subseteq> set (queued st)"
    and ready: "\<forall>i\<in>set sub. extend_ready (mem_pool (pa_mem st)) (pa_store st i)"
    and dry: "tok_available_size (mem_alloc (pa_mem st))
      < int (\<Sum>i\<leftarrow>sub. length (fill_ids (pa_store st i)) - length (prefix_indices (pa_store st i)))"
  shows "create_dllm_batch e sub mode (update_state_for_batch st) = Inl RuntimeError"
proof -
  define st1 where "st1 = update_state_for_batch st"
  note U = update_state_prepared [OF P pre sub st1_def]
  note keep = chunked_keep [OF U(5)]
  have acc: "tok_env e" "accounted U (pa_mem st1) (pa_store st1) (queued st @ waiting_queue st)" using U(1,3,4) by (simp_all add: queues_ok_def env_ok_def)
  have "prepare_for_extend e sub st1 = Inl RuntimeError"
    using ready dry free_rows_enough [OF U(1) sub(1)] sub by (intro prepare_for_extend_dry [OF acc]) (auto simp: keep U(2,3))
  then show ?thesis by (simp add: create_dllm_batch_def st1_def)
qed

section \<open>Choosing a batch\<close>

lemma prompt_input_fresh: "fresh_req e L r \<Longrightarrow> fresh_req e L (prompt_input e' r)"
proof -
  assume "fresh_req e L r"
  moreover have "dllm_phase (prompt_input e' r) = dllm_phase r"
    by (simp add: prompt_input_def init_prompt_cache_input_def set_extend_input_len_def Let_def)
  ultimately show ?thesis
    using prompt_input_core [of r e'] same_core_sound [OF prompt_input_core [of r e'], of e L] by (simp add: fresh_req_def same_core_def)
qed

lemma fresh_prompt_ready:
  assumes "fresh_req e (max_context_len p) r"
  shows "extend_ready p (prompt_input e' r) \<and> length (fill_ids (prompt_input e' r)) = seqlen (prompt_input e' r) + 0"
  using assms prompt_input_core [of r e'] by (auto simp: extend_ready_def fresh_req_def sound_req_def same_core_def held_def seqlen_def)

lemma decoding_ready:
  assumes "decoding_req e p r" "length (held p r) = nat (kv_committed_len r)"
  shows "extend_ready p r" "length (fill_ids r) = seqlen r + dc_block_size (en_config e)" "block_input e r"
    "length (fill_ids r) - length (prefix_indices r) = dc_block_size (en_config e)"
proof -
  have c: "kv_committed_len r = int (seqlen r)" "0 < seqlen r" "int (seqlen r) + int (dc_block_size (en_config e)) \<le> int (max_context_len p)"
    using assms(1) seqlen_pos [of r] by (auto simp: decoding_req_def cached_req_def sound_req_def seqlen_def)
  have f: "length (fill_ids r) = seqlen r + dc_block_size (en_config e)" "length (prefix_indices r) = seqlen r"
    "extend_input_len r = int (dc_block_size (en_config e))" "prefix_indices r = held p r"
    using assms c(1) by (simp_all add: decoding_req_def seqlen_def)
  show "extend_ready p r" "length (fill_ids r) = seqlen r + dc_block_size (en_config e)" "block_input e r"
    "length (fill_ids r) - length (prefix_indices r) = dc_block_size (en_config e)"
    using c f by (simp_all add: extend_ready_def block_input_def)
qed

lemma prepared_cong:
  assumes "sched_prepared e U st" "same_frame st st'"
    and "\<And>i. pa_store st' i = pa_store st i \<or> (fresh_req e (row_len st) (pa_store st i) \<and> pa_store st' i = prompt_input e (pa_store st i))"
  shows "sched_prepared e U st'"
proof -
  note J = assms(1) [unfolded sched_prepared_def queues_ok_def] and F = assms(2) [unfolded same_frame_def]
  have core: "same_core (pa_store st i) (pa_store st' i)" for i using assms(3) [of i] by auto
  have keep: "fresh_req e (row_len st) (pa_store st i) \<Longrightarrow> fresh_req e (row_len st) (pa_store st' i)"
    "fresh_req e (row_len st) (pa_store st i) \<or> decoding_req e (mem_pool (pa_mem st)) (pa_store st i) \<Longrightarrow>
     fresh_req e (row_len st) (pa_store st' i) \<or> decoding_req e (mem_pool (pa_mem st)) (pa_store st' i)" for i
    using assms(3) [of i] prompt_input_fresh [of e _ "pa_store st i" e] by auto
  have "accounted U (pa_mem st) (pa_store st') (queued st @ waiting_queue st)"
    using J same_core_mem [OF core] by (auto intro: accounted_cong)
  moreover have "(\<lambda>i. rid (pa_store st' i)) = (\<lambda>i. rid (pa_store st i))" using core by (auto simp: same_core_def)
  ultimately show ?thesis using J F keep by (simp add: sched_prepared_def queues_ok_def)
qed

lemma int_sum_list_map: "int (\<Sum>x\<leftarrow>xs. f x) = (\<Sum>x\<leftarrow>xs. int (f x))"
  by (induction xs) auto

text \<open>What the batch that a turn chooses satisfies: \<open>create_batch\<close> applies to it.\<close>

definition batch_chosen :: "(unit, allocator) dllm_env \<Rightarrow> nat \<Rightarrow> (unit, allocator) sched \<Rightarrow> bool" where
  "batch_chosen e n st \<longleftrightarrow> (let sub = can_run_list (pa_adder st) in
     preempt_list (pa_adder st) = [] \<and> distinct sub \<and> set sub \<subseteq> set (queued st)
     \<and> (\<forall>i\<in>set sub. extend_ready (mem_pool (pa_mem st)) (pa_store st i) \<and> length (fill_ids (pa_store st i)) = seqlen (pa_store st i) + n)
     \<and> (\<Sum>i\<leftarrow>sub. length (fill_ids (pa_store st i)) - length (prefix_indices (pa_store st i))) \<le> card (tok_pages (mem_alloc (pa_mem st))))"

lemma choose_prompts:
  assumes P: "sched_prepared e U st" and a: "pa_adder st = create_dllm_prefill_adder e st"
    and inc: "incoming = filter (\<lambda>i. dllm_phase (pa_store st i) = Some INCOMING_PREFILL) (queued st)"
  shows "\<exists>st'. process_incoming_prefill_reqs e incoming st = Inr st' \<and> sched_prepared e U st' \<and> same_frame st st' \<and> batch_chosen e 0 st'"
proof -
  note J = P [unfolded sched_prepared_def queues_ok_def]
  let ?A = "available_and_evictable (en_ao e) (en_tc e) (pa_mem st)"
  have A: "?A = int (card (tok_pages (mem_alloc (pa_mem st))))"
    using J tok_available_card [of "mem_alloc (pa_mem st)"]
    by (simp add: available_and_evictable_def env_ok_def tok_env_def tok_ops_def chunk_ops_def accounted_def)
  have fresh: "fresh_req e (row_len st) (pa_store st i)" if "i \<in> set incoming" for i
    using that J inc by (auto simp: decoding_req_def)
  have mx: "\<forall>i\<in>set incoming. 0 \<le> max_new (pa_store st i)"
    using order_trans [OF of_nat_0_le_iff] fresh by (fastforce simp: fresh_req_def sound_req_def)
  have adder: "can_run_list (pa_adder st) = []" "preempt_list (pa_adder st) = []" "0 < pa_page_size (pa_adder st)"
    "of_int 0 \<le> rem_total_token_offset (pa_adder st)" "0 \<le> max 0 ?A"
    using J by (simp_all add: a create_dllm_prefill_adder_def adder_init_def env_ok_def tok_env_def)
  have d: "distinct incoming" using J inc by (simp add: accounted_def)
  obtain st' k where L: "process_incoming_prefill_reqs e incoming st = Inr st'" "same_frame st st'"
    "can_run_list (pa_adder st') = take k incoming"
    "\<forall>i. pa_store st' i = pa_store st i \<or> (i \<in> set incoming \<and> pa_store st' i = prompt_input e (pa_store st i))"
    "\<forall>i\<in>set (take k incoming). pa_store st' i = prompt_input e (pa_store st i)"
    "(\<Sum>i\<leftarrow>take k incoming. prompt_len (pa_store st) i) \<le> max 0 ?A"
    using prompt_loop [of e incoming st 0] J d adder mx by (auto simp: env_ok_def)
  have P': "sched_prepared e U st'" using L(4) fresh by (intro prepared_cong [OF P L(2)]) blast
  have len: "length (fill_ids (pa_store st' i)) - length (prefix_indices (pa_store st' i)) = length (origin_input_ids (pa_store st i))"
    if "i \<in> set (take k incoming)" for i using L(5) that by simp
  have "int (\<Sum>i\<leftarrow>take k incoming. length (fill_ids (pa_store st' i)) - length (prefix_indices (pa_store st' i)))
      = (\<Sum>i\<leftarrow>take k incoming. prompt_len (pa_store st) i)"
    using len by (simp add: prompt_len_def int_sum_list_map cong: map_cong)
  then have room: "(\<Sum>i\<leftarrow>take k incoming. length (fill_ids (pa_store st' i)) - length (prefix_indices (pa_store st' i))) \<le> card (tok_pages (mem_alloc (pa_mem st)))"
    using L(6) A by simp
  have "extend_ready (mem_pool (pa_mem st)) (pa_store st' i) \<and> length (fill_ids (pa_store st' i)) = seqlen (pa_store st' i) + 0"
    if "i \<in> set (take k incoming)" for i
    using L(5) that fresh [of i] fresh_prompt_ready [of e "mem_pool (pa_mem st)" "pa_store st i" e] by (auto dest: in_set_takeD)
  then have "batch_chosen e 0 st'"
    using L(2,3) room d adder(2) inc by (auto simp: batch_chosen_def same_frame_def Let_def distinct_take dest: in_set_takeD)
  then show ?thesis using L(1,2) P' by blast
qed

text \<open>The slots a decode turn needs, for the requests that are not finished.\<close>

definition decode_room :: "(unit, allocator) dllm_env \<Rightarrow> (unit, allocator) sched \<Rightarrow> bool" where
  "decode_room e st \<longleftrightarrow> (let rs = filter (\<lambda>i. \<not> finished (pa_store st i)) (queued st); n = tok_available_size (mem_alloc (pa_mem st)) in
     int (length rs * dc_block_size (en_config e)) \<le> n \<and> whole_blocks e (pa_store st) rs n)"

lemma whole_blocks_cong: "(\<And>i. i \<in> set rs \<Longrightarrow> max_new (store' i) = max_new (store i)) \<Longrightarrow> whole_blocks e store' rs x = whole_blocks e store rs x"
  by (induction rs arbitrary: x) (simp_all add: block_cost_def)

lemma decoding_blocks:
  assumes P: "sched_prepared e U st" and i: "i \<in> set (queued st)" and dec: "decoding_req e (mem_pool (pa_mem st)) (pa_store st i)"
  shows "extend_ready (mem_pool (pa_mem st)) (pa_store st i)" "length (fill_ids (pa_store st i)) = seqlen (pa_store st i) + dc_block_size (en_config e)"
    "block_input e (pa_store st i)" "length (fill_ids (pa_store st i)) - length (prefix_indices (pa_store st i)) = dc_block_size (en_config e)"
proof -
  note J = P [unfolded sched_prepared_def queues_ok_def]
  obtain q where "req_pool_idx (pa_store st i) = Some q" using dec by (auto simp: decoding_req_def cached_req_def)
  then have "length (held (mem_pool (pa_mem st)) (pa_store st i)) = nat (kv_committed_len (pa_store st i))"
    using J i accounted_length_held [of U "pa_mem st" "pa_store st" "queued st @ waiting_queue st" i] by simp
  note decoding_ready [OF dec this]
  then show "extend_ready (mem_pool (pa_mem st)) (pa_store st i)" "length (fill_ids (pa_store st i)) = seqlen (pa_store st i) + dc_block_size (en_config e)"
    "block_input e (pa_store st i)" "length (fill_ids (pa_store st i)) - length (prefix_indices (pa_store st i)) = dc_block_size (en_config e)"
    by blast+
qed

text \<open>When all requests decode, the adder takes a block of each of them, whether or not the pool has room for all blocks.\<close>

lemma fill_blocks:
  assumes P: "sched_prepared e U st" and a: "pa_adder st = create_dllm_prefill_adder e st"
    and dec: "\<forall>i\<in>set (queued st). decoding_req e (mem_pool (pa_mem st)) (pa_store st i)"
    and whole: "whole_blocks e (pa_store st) (queued st) (tok_available_size (mem_alloc (pa_mem st)))"
  shows "\<exists>a'. process_batch_by_phase e (queued st) STAGING_DECODE INCOMING_DECODE st = Inr (st\<lparr>pa_adder := a'\<rparr>) \<and> same_frame st (st\<lparr>pa_adder := a'\<rparr>)
     \<and> can_run_list a' = queued st \<and> preempt_list a' = []"
proof -
  note J = P [unfolded sched_prepared_def queues_ok_def]
  let ?bs = "dc_block_size (en_config e)" and ?s = "mem_alloc (pa_mem st)"
  have f: "filter (\<lambda>i. dllm_phase (pa_store st i) = Some STAGING_DECODE) (queued st) = queued st"
    "filter (\<lambda>i. dllm_phase (pa_store st i) = Some INCOMING_DECODE) (queued st) = []"
    using dec by (auto simp: filter_id_conv filter_empty_conv decoding_req_def)
  have bi: "\<forall>i\<in>set (queued st). block_input e (pa_store st i)" using decoding_blocks(3) [OF P] dec by blast
  obtain k where k: "max_running_requests (en_config e) = k + length (queued st)" using J by (metis le_add_diff_inverse2)
  have ad: "pa_dllm_config (pa_adder st) = Some (en_config e)" "pa_page_size (pa_adder st) = 1" "0 < ?bs" "can_run_list (pa_adder st) = []"
    "preempt_list (pa_adder st) = []"
    "rem_dllm_tokens (pa_adder st) = int ((k + length (queued st)) * ?bs)"
    "rem_total_tokens (en_ao e) (en_tc e) st = of_int (tok_available_size ?s)"
    using J k by (simp_all add: a create_dllm_prefill_adder_def adder_init_def env_ok_def tok_env_def rem_total_tokens_def
        available_and_evictable_def tok_ops_def chunk_ops_def)
  obtain res a' where L: "process_dllm_staging_reqs e (queued st) st = Inr (res, st\<lparr>pa_adder := a'\<rparr>)" "can_run_list a' = queued st" "preempt_list a' = []" "pa_page_size a' = 1"
    using block_loop [OF ad(1-3,6,7)] whole bi ad(4,5) by auto
  have "process_batch_by_phase e (queued st) STAGING_DECODE INCOMING_DECODE st = Inr (st\<lparr>pa_adder := a'\<rparr>)"
    using L(1) f by (cases "queued st = []") (simp_all add: process_batch_by_phase_def)
  moreover have "same_frame st (st\<lparr>pa_adder := a'\<rparr>)" using L(3,4) ad by (simp add: same_frame_def)
  ultimately show ?thesis using L(2,3) by blast
qed

lemma blocks_sum:
  assumes P: "sched_prepared e U st" and dec: "\<forall>i\<in>set (queued st). decoding_req e (mem_pool (pa_mem st)) (pa_store st i)"
  shows "(\<Sum>i\<leftarrow>queued st. length (fill_ids (pa_store st i)) - length (prefix_indices (pa_store st i))) = length (queued st) * dc_block_size (en_config e)"
  using decoding_blocks(4) [OF P] dec by (simp add: sum_list_triv cong: map_cong)

lemma decoding_unfinished:
  "\<forall>i\<in>set (queued st). decoding_req e (mem_pool (pa_mem st)) (pa_store st i) \<Longrightarrow> filter (\<lambda>i. \<not> finished (pa_store st i)) (queued st) = queued st"
  by (auto simp: filter_id_conv decoding_req_def cached_req_def sound_req_def)

lemma choose_blocks:
  assumes P: "sched_prepared e U st" and a: "pa_adder st = create_dllm_prefill_adder e st"
    and dec: "\<forall>i\<in>set (queued st). decoding_req e (mem_pool (pa_mem st)) (pa_store st i)" and room: "decode_room e st"
  shows "\<exists>st'. process_batch_by_phase e (queued st) STAGING_DECODE INCOMING_DECODE st = Inr st' \<and> sched_prepared e U st' \<and> same_frame st st'
     \<and> batch_chosen e (dc_block_size (en_config e)) st' \<and> can_run_list (pa_adder st') = queued st \<and> pa_store st' = pa_store st"
proof -
  note J = P [unfolded sched_prepared_def queues_ok_def]
  let ?bs = "dc_block_size (en_config e)" and ?s = "mem_alloc (pa_mem st)"
  obtain a' where L: "process_batch_by_phase e (queued st) STAGING_DECODE INCOMING_DECODE st = Inr (st\<lparr>pa_adder := a'\<rparr>)" "same_frame st (st\<lparr>pa_adder := a'\<rparr>)"
    "can_run_list a' = queued st" "preempt_list a' = []"
    using fill_blocks [OF P a dec] room unfolding decode_room_def decoding_unfinished [OF dec] Let_def by blast
  let ?st = "st\<lparr>pa_adder := a'\<rparr>"
  have "sched_prepared e U ?st" by (rule prepared_cong [OF P L(2)]) simp
  moreover have "length (queued st) * ?bs \<le> card (tok_pages ?s)"
    using room decoding_unfinished [OF dec] J tok_available_card [of ?s] by (simp add: decode_room_def Let_def accounted_def flip: of_nat_mult)
  then have "batch_chosen e ?bs ?st"
    using L(3,4) decoding_blocks(1,2) [OF P] blocks_sum [OF P dec] dec J by (simp add: batch_chosen_def Let_def accounted_def)
  ultimately show ?thesis using L by (intro exI [of _ ?st]) simp
qed

end
