(* ===== verification/Dllm_Scheduler_Correct.thy ===== *)
theory Dllm_Scheduler_Correct
  imports Sched_Batch
begin

text \<open>
  The diffusion scheduler is correct on the token allocator and the chunk cache: the results of a batch are accounted for,
  a turn of the event loop keeps its invariant, and the batches it admits fit. Where it can block is shown too.
\<close>

section \<open>The results of a batch\<close>

lemma same_core_upds [simp]:
  "same_core r (r'\<lparr>output_token_reveal_steps := x1\<rparr>) = same_core r r'" "same_core r (r'\<lparr>output_token_entropy_val := x2\<rparr>) = same_core r r'"
  "same_core r (r'\<lparr>output_top_logprobs_val := x3\<rparr>) = same_core r r'" "same_core r (r'\<lparr>output_top_logprobs_idx := x4\<rparr>) = same_core r r'"
  "same_core r (r'\<lparr>output_token_ids_logprobs_val := x3\<rparr>) = same_core r r'" "same_core r (r'\<lparr>output_token_ids_logprobs_idx := x4\<rparr>) = same_core r r'"
  "same_core r (r'\<lparr>output_token_logprobs_val := x5\<rparr>) = same_core r r'" "same_core r (r'\<lparr>output_token_logprobs_idx := x6\<rparr>) = same_core r r'"
  by (simp_all add: same_core_def)

lemma append_logprobs_core:
  assumes "\<forall>lps. next_token_logprobs result = Some lps \<longrightarrow> length (lps ! idx) = length ids"
  shows "\<exists>r'. append_logprobs idx result ids r = Inr r' \<and> same_core r r'"
proof (cases "next_token_logprobs result")
  case (Some lps)
  show ?thesis
  proof (cases "return_logprob r")
    case True
    then show ?thesis
      using Some assms unfolding append_logprobs_def Let_def
      by (cases "next_token_reveal_steps result"; cases "next_token_entropy result")
        (simp_all split: option.split)
  qed (simp add: append_logprobs_def Some)
qed (simp add: append_logprobs_def)

text \<open>What \<open>check_finished\<close> and the rounding of \<open>finished_len\<close> may change: the output keeps its length.\<close>

definition same_but_finish :: "req \<Rightarrow> req \<Rightarrow> bool" where
  "same_but_finish r r' \<longleftrightarrow> rid r' = rid r \<and> origin_input_ids r' = origin_input_ids r \<and> length (output_ids r') = length (output_ids r)
     \<and> req_pool_idx r' = req_pool_idx r \<and> kv_committed_len r' = kv_committed_len r \<and> kv_allocated_len r' = kv_allocated_len r
     \<and> kv_committed_freed r' = kv_committed_freed r \<and> kv_overallocated_freed r' = kv_overallocated_freed r
     \<and> sampling_params r' = sampling_params r \<and> tokenizer r' = tokenizer r \<and> req_dllm_config r' = req_dllm_config r"

definition stops_ok :: "req \<Rightarrow> bool" where
  "stops_ok r \<longleftrightarrow> (stop_strs (sampling_params r) = [] \<and> stop_regex_strs (sampling_params r) = [] \<or> tokenizer r \<noteq> None)"

lemma same_but_finish_refl [simp]: "same_but_finish r r"
  by (simp add: same_but_finish_def)

lemma same_but_finish_trans: "same_but_finish r r' \<Longrightarrow> same_but_finish r' r'' \<Longrightarrow> same_but_finish r r''"
  by (simp add: same_but_finish_def)

lemma check_token_frame: "same_but_finish r (snd (check_token_based_finish new r))"
  by (auto simp: check_token_based_finish_def same_but_finish_def split: option.split)

lemma check_vocab_frame: "same_but_finish r (snd (check_vocab_boundary_finish new r))"
proof -
  have "length (replace_bad_token r k out) = length out" for k out
    by (auto simp: replace_bad_token_def Let_def split: list.split)
  then show ?thesis by (auto simp: check_vocab_boundary_finish_def same_but_finish_def Let_def split: option.split)
qed

lemma check_str_frame:
  assumes "stops_ok r"
  shows "\<exists>b r'. check_str_based_finish decode re_search r = Inr (b, r') \<and> same_but_finish r r'"
proof (cases "stop_strs (sampling_params r) = [] \<and> stop_regex_strs (sampling_params r) = []")
  case False
  then have "tokenizer r \<noteq> None" using assms by (auto simp: stops_ok_def)
  then have "\<exists>t. tail_str decode r = Inr t" using False by (simp add: tail_str_def Let_def)
  then obtain t where t: "tail_str decode r = Inr t" by blast
  show ?thesis using False t
    by (cases "find (\<lambda>s. contains s t \<or> contains s (decoded_text r)) (stop_strs (sampling_params r))";
        cases "find (\<lambda>p. re_search p t) (stop_regex_strs (sampling_params r))")
      (auto simp: check_str_based_finish_def Let_def same_but_finish_def)
qed (auto simp: check_str_based_finish_def)

lemma check_finished_frame:
  assumes "stops_ok r" "output_ids r \<noteq> []"
  shows "\<exists>r'. check_finished decode re_search k r = Inr r' \<and> same_but_finish r r'
     \<and> (\<not> finished r' \<longrightarrow> int (length (output_ids r')) \<le> max_new r')"
proof -
  consider "finished r" | "to_finish r \<noteq> None" "\<not> finished r" | "\<not> finished r" "to_finish r = None" "max_new r \<le> int (length (output_ids r))"
    | "\<not> finished r" "to_finish r = None" "int (length (output_ids r)) < max_new r" "grammar_terminated r = Some True"
    | "\<not> finished r" "to_finish r = None" "int (length (output_ids r)) < max_new r" "grammar_terminated r \<noteq> Some True" by linarith
  then show ?thesis
  proof cases
    case 1
    then show ?thesis by (intro exI [of _ r]) (simp add: check_finished_def)
  next
    case 2
    then obtain f where "to_finish r = Some f" by blast
    with 2 have "check_finished decode re_search k r = Inr (r\<lparr>finished_reason := Some f, to_finish := None\<rparr>)"
      by (simp add: check_finished_def)
    then show ?thesis by (simp add: same_but_finish_def finished_def)
  next
    case 3
    then have "check_finished decode re_search k r = Inr (r\<lparr>finished_reason := Some (FINISH_LENGTH (max_new r)), finished_len := Some (max_new r)\<rparr>)"
      by (simp add: check_finished_def max_new_def)
    then show ?thesis by (simp add: same_but_finish_def finished_def)
  next
    case 4
    then have "check_finished decode re_search k r = Inr (r\<lparr>finished_reason := Some (FINISH_MATCHED_TOKEN (last (output_ids r)))\<rparr>)"
      using assms(2) by (simp add: check_finished_def max_new_def)
    then show ?thesis by (simp add: same_but_finish_def finished_def)
  next
    case 5
    let ?new = "py_last k (output_ids r)"
    obtain b1 r1 where r1: "check_token_based_finish ?new r = (b1, r1)" by fastforce
    obtain b2 r2 where r2: "check_vocab_boundary_finish ?new r1 = (b2, r2)" by fastforce
    have f: "same_but_finish r r1" "same_but_finish r1 r2"
      using check_token_frame [of r ?new] check_vocab_frame [of r1 ?new] r1 r2 by simp_all
    then have "stops_ok r2" using assms(1) by (simp add: same_but_finish_def stops_ok_def)
    then obtain b3 r3 where r3: "check_str_based_finish decode re_search r2 = Inr (b3, r3)" "same_but_finish r2 r3"
      using check_str_frame by blast
    define r' where "r' = (if b1 then r1 else if b2 then r2 else r3)"
    have "check_finished decode re_search k r = Inr r'"
      using 5 r1 r2 r3(1) by (simp add: check_finished_def Let_def max_new_def r'_def)
    moreover have fr: "same_but_finish r r'"
      using f(1) same_but_finish_trans [OF f] same_but_finish_trans [OF same_but_finish_trans [OF f] r3(2)] by (simp add: r'_def)
    moreover have "int (length (output_ids r')) \<le> max_new r'" using fr 5 by (simp add: same_but_finish_def max_new_def)
    ultimately show ?thesis by blast
  qed
qed

lemma round_finished_frame:
  assumes "0 < dc_block_size (en_config e)"
  shows "\<exists>r'. round_finished_len e r = Inr r' \<and> same_but_finish r r' \<and> finished r' = finished r \<and> output_ids r' = output_ids r"
  using assms by (auto simp: round_finished_len_def same_but_finish_def finished_def Let_def split: option.split)

text \<open>What the algorithm hands to the scheduler for request \<open>idx\<close> of the batch.\<close>

definition result_ok :: "(unit, allocator) dllm_env \<Rightarrow> dllm_result \<Rightarrow> nat \<Rightarrow> bool" where
  "result_ok e result idx \<longleftrightarrow> idx < length (next_token_ids result) \<and> length (next_token_ids result ! idx) \<le> dc_block_size (en_config e)
     \<and> (\<forall>lps. next_token_logprobs result = Some lps \<longrightarrow> length (lps ! idx) = length (next_token_ids result ! idx))"

text \<open>The memory inside the free group of \<open>process_batch_result_dllm\<close>.\<close>

definition group_mem :: "int set \<Rightarrow> (nat \<Rightarrow> req) \<Rightarrow> nat list \<Rightarrow> req_to_token_pool \<Rightarrow> (unit, allocator) kv_mem \<Rightarrow> bool" where
  "group_mem U store idxs p m \<longleftrightarrow> accounted U m store idxs \<and> tok_soft (mem_alloc m) \<and> in_free_group (mem_alloc m)
     \<and> (\<exists>fs. mem_pool m = p\<lparr>free_slots := fs\<rparr>)"

lemma group_accounted: "group_mem U store idxs p m \<Longrightarrow> accounted U m store idxs"
  by (simp add: group_mem_def)

lemma group_trim:
  assumes "tok_env e" "group_mem U store idxs p m" "i \<in> set idxs" "same_mem (store i) r" "req_pool_idx r = Some q" "int n \<le> kv_committed_len r"
  shows "\<exists>m'. trim_kv e n r m = Inr (r\<lparr>kv_committed_len := kv_committed_len r - int n, kv_allocated_len := kv_committed_len r - int n\<rparr>, m')
     \<and> group_mem U (store(i := r\<lparr>kv_committed_len := kv_committed_len r - int n, kv_allocated_len := kv_committed_len r - int n\<rparr>)) idxs p m'"
  using trim_kv_accounted [OF assms(1) group_accounted [OF assms(2)] assms(3-6)] assms(2) by (auto simp: group_mem_def)

lemma group_release:
  assumes "tok_env e" "group_mem U store idxs p m" "i \<in> set idxs" "same_mem (store i) r" "req_pool_idx r = Some q" "releasable r"
  shows "\<exists>m'. release_kv_cache (en_ao e) (en_tc e) (pr_page_size (en_preempt e)) (pr_spec (en_preempt e)) (pr_strip (en_preempt e)) False r m
       = Inr (released r, m') \<and> group_mem U (store(i := released r)) idxs p m'"
  using release_accounted [OF group_accounted [OF assms(2)] assms(3-6), of False] assms(1,2) by (auto simp: group_mem_def tok_env_def)

lemma group_cong: "same_mem (store i) r \<Longrightarrow> group_mem U store idxs p m \<Longrightarrow> group_mem U (store(i := r)) idxs p m"
  using accounted_cong [of idxs store "store(i := r)" U m] unfolding group_mem_def by auto

text \<open>After its result is processed a request has its tokens in the cache, or it is finished and holds nothing.\<close>

definition result_state :: "(unit, allocator) dllm_env \<Rightarrow> nat \<Rightarrow> nat \<Rightarrow> req \<Rightarrow> req \<Rightarrow> bool" where
  "result_state e L k r r' \<longleftrightarrow> rid r' = rid r \<and> origin_input_ids r' = origin_input_ids r \<and> sampling_params r' = sampling_params r
     \<and> length (output_ids r') = length (output_ids r) + k \<and> (cached_req e L r' \<or> done_req r')"

lemma process_result_one:
  assumes e: "tok_env e" and g: "group_mem U (pa_store st) idxs p (pa_mem st)" and i: "i \<in> set idxs"
    and run: "running_req e L (dc_block_size (en_config e)) (pa_store st i)" and res: "result_ok e result idx"
  shows "\<exists>r m n. process_result_req e result idx i st = Inr (st\<lparr>pa_store := (pa_store st)(i := r), pa_mem := m, num_generated_tokens := n\<rparr>)
     \<and> result_state e L (length (next_token_ids result ! idx)) (pa_store st i) r \<and> group_mem U ((pa_store st)(i := r)) idxs p m"
proof -
  let ?r = "pa_store st i" and ?ids = "next_token_ids result ! idx" and ?bs = "dc_block_size (en_config e)"
  obtain q where q: "req_pool_idx ?r = Some q" using run by (auto simp: running_req_def)
  have kv: "kv_committed_len ?r = int (seqlen ?r + ?bs)" "sound_req e L ?r" using run by (simp_all add: running_req_def)
  show ?thesis
  proof (cases "?ids = []")
    case True
    let ?r' = "?r\<lparr>kv_committed_len := kv_committed_len ?r - int ?bs, kv_allocated_len := kv_committed_len ?r - int ?bs\<rparr>"
    obtain m' where "trim_kv e ?bs ?r (pa_mem st) = Inr (?r', m')" "group_mem U ((pa_store st)(i := ?r')) idxs p m'"
      using group_trim [OF e g i, of ?r q ?bs] q kv by auto
    moreover have "cached_req e L ?r'"
      using kv q by (simp add: cached_req_def sound_req_def seqlen_def max_new_def finished_def)
    ultimately show ?thesis
      using True res by (intro exI [of _ ?r'] exI [of _ m'] exI [of _ "num_generated_tokens st"])
        (simp add: process_result_req_def result_ok_def result_state_def Let_def)
  next
    case False
    let ?k = "length ?ids" and ?n = "num_generated_tokens st + int (length ?ids)"
    define r1 where "r1 = ?r\<lparr>fill_ids := take (length (fill_ids ?r) - ?k) (fill_ids ?r) @ ?ids, output_ids := output_ids ?r @ ?ids\<rparr>"
    obtain r2 where r2: "append_logprobs idx result ?ids r1 = Inr r2" "same_core r1 r2"
      using append_logprobs_core [of result idx ?ids r1] res by (auto simp: result_ok_def)
    have k: "?k \<le> ?bs" "0 < ?k" using res False by (auto simp: result_ok_def)
    have mem2: "same_mem ?r r2" "req_pool_idx r2 = Some q" "kv_committed_len r2 = kv_committed_len ?r" "seqlen r2 = seqlen ?r + ?k"
      using r2(2) q by (simp_all add: same_core_def same_mem_def r1_def seqlen_def)
    define r3 where "r3 = (if ?k < ?bs then r2\<lparr>kv_committed_len := kv_committed_len r2 - int (?bs - ?k), kv_allocated_len := kv_committed_len r2 - int (?bs - ?k)\<rparr> else r2)"
    obtain m3 where m3: "(if ?k < ?bs then trim_kv e (?bs - ?k) r2 (pa_mem st) else Inr (r2, pa_mem st)) = Inr (r3, m3)"
      "group_mem U ((pa_store st)(i := r3)) idxs p m3"
    proof (cases "?k < ?bs")
      case True
      then show ?thesis using that group_trim [OF e g i mem2(1,2), of "?bs - ?k"] mem2(3) kv(1) by (auto simp: r3_def)
    next
      case False
      then show ?thesis using that group_cong [OF mem2(1) g] by (simp add: r3_def)
    qed
    have r3: "req_pool_idx r3 = Some q" "kv_committed_len r3 = int (seqlen r3)" "kv_allocated_len r3 = kv_committed_len r3" "rid r3 = rid ?r"
      "output_ids r3 = output_ids ?r @ ?ids" "\<not> finished r3" "stops_ok r3" "\<not> kv_committed_freed r3" "\<not> kv_overallocated_freed r3"
      "req_dllm_config r3 = Some (en_config e)" "origin_input_ids r3 = origin_input_ids ?r" "sampling_params r3 = sampling_params ?r" "tokenizer r3 = tokenizer ?r"
      using r2(2) mem2 kv k run by (auto simp: r3_def r1_def same_core_def sound_req_def running_req_def stops_ok_def finished_def seqlen_def of_nat_diff)
    have ne: "output_ids r3 \<noteq> []" using r3(5) False by simp
    obtain r4 where r4: "check_finished (en_decode e) (en_re_search e) ?k r3 = Inr r4" "same_but_finish r3 r4"
      "\<not> finished r4 \<longrightarrow> int (length (output_ids r4)) \<le> max_new r4"
      using check_finished_frame [OF r3(7) ne] by blast
    obtain r5 where r5: "round_finished_len e r4 = Inr r5" "same_but_finish r4 r5" "finished r5 = finished r4" "output_ids r5 = output_ids r4"
      using round_finished_frame [of e r4] e by (auto simp: tok_env_def)
    have f5: "same_but_finish r3 r5" using same_but_finish_trans [OF r4(2) r5(2)] .
    have mem5: "same_mem r3 r5" "req_pool_idx r5 = Some q" "releasable r5"
      using f5 r3 by (simp_all add: same_but_finish_def same_mem_def releasable_def)
    have g5: "group_mem U ((pa_store st)(i := r5)) idxs p m3" using group_cong [of "(pa_store st)(i := r3)" i r5, OF _ m3(2)] mem5(1) by simp
    have body: "process_result_req e result idx i st = rbind (if finished r5
        then release_kv_cache (en_ao e) (en_tc e) (pr_page_size (en_preempt e)) (pr_spec (en_preempt e)) (pr_strip (en_preempt e)) False r5 m3
        else Inr (r5, m3)) (\<lambda>(r, m). Inr (st\<lparr>num_generated_tokens := ?n, pa_store := (pa_store st)(i := r), pa_mem := m\<rparr>))"
      using res False unfolding process_result_req_def Let_def r1_def [symmetric]
      by (simp add: result_ok_def r2(1) m3(1) r4(1) r5(1) split del: if_split cong del: if_weak_cong)
    show ?thesis
    proof (cases "finished r5")
      case True
      obtain m' where "release_kv_cache (en_ao e) (en_tc e) (pr_page_size (en_preempt e)) (pr_spec (en_preempt e)) (pr_strip (en_preempt e)) False r5 m3
          = Inr (released r5, m')" "group_mem U ((pa_store st)(i := released r5)) idxs p m'"
        using group_release [OF e g5 i _ mem5(2,3)] by auto
      moreover have "result_state e L ?k ?r (released r5)"
        using True f5 r3 by (simp add: result_state_def done_req_def finished_def same_but_finish_def)
      ultimately show ?thesis
        using body True by (intro exI [of _ "released r5"] exI [of _ m'] exI [of _ ?n]) simp
    next
      case False
      then have "result_state e L ?k ?r r5"
        using f5 r3 r4(2,3) r5(3,4) kv(2)
        by (simp add: result_state_def cached_req_def sound_req_def same_but_finish_def seqlen_def stops_ok_def max_new_def)
      then show ?thesis
        using body False g5 by (intro exI [of _ r5] exI [of _ m3] exI [of _ ?n]) simp
    qed
  qed
qed

lemma process_results_loop:
  assumes e: "tok_env e" and g: "group_mem U (pa_store st) idxs p (pa_mem st)" and rs: "set rs \<subseteq> set idxs" "distinct rs"
    and run: "\<forall>i\<in>set rs. running_req e L (dc_block_size (en_config e)) (pa_store st i)"
    and res: "\<forall>j<length rs. result_ok e result (idx + j)"
  shows "\<exists>store' m' n. process_result_reqs e result idx rs st = Inr (st\<lparr>pa_store := store', pa_mem := m', num_generated_tokens := n\<rparr>)
     \<and> group_mem U store' idxs p m' \<and> (\<forall>j<length rs. result_state e L (length (next_token_ids result ! (idx + j))) (pa_store st (rs ! j)) (store' (rs ! j))) \<and> (\<forall>i. i \<notin> set rs \<longrightarrow> store' i = pa_store st i)"
  using g rs run res
proof (induction rs arbitrary: st idx)
  case Nil
  then show ?case by (intro exI [of _ "pa_store st"] exI [of _ "pa_mem st"] exI [of _ "num_generated_tokens st"]) simp
next
  case (Cons i rs)
  have prems: "i \<in> set idxs" "running_req e L (dc_block_size (en_config e)) (pa_store st i)" "result_ok e result idx"
    using Cons.prems(2,4) Cons.prems(5) [rule_format, of 0] by auto
  obtain r m n where R: "process_result_req e result idx i st = Inr (st\<lparr>pa_store := (pa_store st)(i := r), pa_mem := m, num_generated_tokens := n\<rparr>)"
    "result_state e L (length (next_token_ids result ! idx)) (pa_store st i) r" "group_mem U ((pa_store st)(i := r)) idxs p m"
    using process_result_one [OF e Cons.prems(1) prems] by blast
  let ?st = "st\<lparr>pa_store := (pa_store st)(i := r), pa_mem := m, num_generated_tokens := n\<rparr>"
  have "\<exists>store' m' n. process_result_reqs e result (Suc idx) rs ?st = Inr (?st\<lparr>pa_store := store', pa_mem := m', num_generated_tokens := n\<rparr>)
     \<and> group_mem U store' idxs p m' \<and> (\<forall>j<length rs. result_state e L (length (next_token_ids result ! (Suc idx + j))) (pa_store ?st (rs ! j)) (store' (rs ! j))) \<and> (\<forall>i. i \<notin> set rs \<longrightarrow> store' i = pa_store ?st i)"
  proof (rule Cons.IH)
    show "\<forall>j\<in>set rs. running_req e L (dc_block_size (en_config e)) (pa_store ?st j)" using Cons.prems(3,4) by auto
    show "\<forall>j<length rs. result_ok e result (Suc idx + j)" using Cons.prems(5) by (metis Suc_less_eq add_Suc_shift length_Cons)
  qed (use R(3) Cons.prems in \<open>simp_all del: fun_upd_apply\<close>)
  then obtain store' m' n' where S: "process_result_reqs e result (Suc idx) rs ?st = Inr (?st\<lparr>pa_store := store', pa_mem := m', num_generated_tokens := n'\<rparr>)"
    "group_mem U store' idxs p m'" "\<forall>j<length rs. result_state e L (length (next_token_ids result ! (Suc idx + j))) (pa_store ?st (rs ! j)) (store' (rs ! j))" "\<forall>j. j \<notin> set rs \<longrightarrow> store' j = pa_store ?st j" by blast
  have ne: "rs ! j \<noteq> i" if "j < length rs" for j using that Cons.prems(3) by auto
  have "result_state e L (length (next_token_ids result ! (idx + j))) (pa_store st ((i # rs) ! j)) (store' ((i # rs) ! j))"
    if "j < length (i # rs)" for j
    using that S(3,4) R(2) Cons.prems(3) ne by (cases j) auto
  then show ?case
    using R(1) S by (intro exI [of _ store'] exI [of _ m'] exI [of _ n']) auto
qed

lemma group_open:
  assumes "accounted U m store idxs" "tok_ready (mem_alloc m)"
  shows "group_mem U store idxs (mem_pool m) (m\<lparr>mem_alloc := free_group_begin (mem_alloc m)\<rparr>)"
proof -
  let ?s = "mem_alloc m"
  have s: "tok_soft ?s" "\<not> in_free_group ?s" using assms(2) by (simp_all add: group_slots.ready_iff)
  have "tok_inv (free_group_begin ?s)" "tok_pages (free_group_begin ?s) = tok_pages ?s"
    using tok.begin_ok [of ?s] assms(1) s(2) by (simp_all add: accounted_def)
  then show ?thesis
    using assms(1) group_slots.begin_soft [OF s(1)] by (auto simp: group_mem_def accounted_def intro: exI [of _ "free_slots (mem_pool m)"])
qed

lemma group_close:
  assumes "group_mem U store idxs p m"
  shows "\<exists>s'. free_group_end (\<lambda>xs s. Inr (tok_free xs s)) (mem_alloc m) = Inr s' \<and> accounted U (m\<lparr>mem_alloc := s'\<rparr>) store idxs \<and> tok_ready s'"
proof -
  let ?s = "mem_alloc m"
  have g: "tok_inv ?s" "tok_soft ?s" "in_free_group ?s" using assms by (simp_all add: group_mem_def accounted_def)
  obtain s' where s': "free_group_end (\<lambda>xs s. Inr (tok_free xs s)) ?s = Inr s'" "tok_inv s'" "tok_pages s' = tok_pages ?s"
    using tok.end_ok [OF g(1,3)] by blast
  moreover have "tok_ready s'" using group_slots.end_soft [OF g(2,3) s'(1)] by (simp add: group_slots.ready_iff)
  ultimately show ?thesis using assms by (auto simp: group_mem_def accounted_def)
qed

section \<open>A turn of the event loop\<close>

text \<open>
  The contract of a decoding algorithm: it leaves the allocator and the table alone, and returns for each request of a
  denoising batch at most a block of tokens, with a log probability for each when it returns any.
\<close>

definition alg_ok :: "(unit, allocator) dllm_env \<Rightarrow> (dllm_batch \<Rightarrow> (unit, allocator) kv_mem \<Rightarrow> (dllm_result \<times> (unit, allocator) kv_mem) res) \<Rightarrow> bool" where
  "alg_ok e alg \<longleftrightarrow> (\<forall>b m. \<exists>result. alg b m = Inr (result, m) \<and> (db_mode b = DLLM_EXTEND \<longrightarrow>
     length (next_token_ids result) = length (db_reqs b) \<and> (\<forall>j<length (db_reqs b). result_ok e result j)))"

lemma clear_fill_core:
  "same_core (store i) (foldl (\<lambda>store i. store(i := (store i)\<lparr>fill_ids := []\<rparr>)) store rs i)
     \<and> (i \<notin> set rs \<longrightarrow> foldl (\<lambda>store i. store(i := (store i)\<lparr>fill_ids := []\<rparr>)) store rs i = store i)"
  by (induction rs rule: rev_induct) (auto simp: same_core_def)

lemma batch_result_prompts:
  assumes R: "sched_running e U 0 sub st" and b: "db_mode b = EXTEND" "db_reqs b = sub"
  shows "\<exists>st'. process_batch_result_dllm e b result st = Inr st' \<and> sched_inv e U st'"
proof -
  note J = R [unfolded sched_running_def queues_ok_def]
  define store' where "store' = foldl (\<lambda>store i. store(i := (store i)\<lparr>fill_ids := []\<rparr>)) (pa_store st) sub"
  have core: "same_core (pa_store st i) (store' i)" "i \<notin> set sub \<Longrightarrow> store' i = pa_store st i" for i
    using clear_fill_core [of "pa_store st" i sub] by (simp_all add: store'_def)
  have "accounted U (pa_mem st) store' (queued st @ waiting_queue st)" using J same_core_mem [OF core(1)] by (auto intro: accounted_cong)
  moreover have "(\<lambda>i. rid (store' i)) = (\<lambda>i. rid (pa_store st i))" using core(1) by (auto simp: same_core_def)
  moreover have "store' i = pa_store st i" if "i \<in> set (waiting_queue st)" for i
    using that J core(2) by (auto simp: accounted_def)
  moreover have "cached_req e (row_len st) (store' i)" if "i \<in> set sub" for i
    using that J same_core_cached [OF core(1) [of i], of e "row_len st"] by (auto simp: cached_req_def running_req_def)
  ultimately have "sched_inv e U (st\<lparr>pa_store := store'\<rparr>)"
    using J core(2) by (auto simp: sched_inv_def queues_ok_def)
  then show ?thesis using b by (simp add: process_batch_result_dllm_def store'_def)
qed

lemma batch_result_blocks:
  assumes R: "sched_running e U (dc_block_size (en_config e)) sub st" "sub \<noteq> []" and b: "db_mode b = DLLM_EXTEND" "db_reqs b = sub"
    and res: "length (next_token_ids result) = length sub" "\<forall>j<length sub. result_ok e result j"
  shows "\<exists>st'. process_batch_result_dllm e b result st = Inr st' \<and> sched_inv e U st' \<and> queued st' = queued st \<and> waiting_queue st' = waiting_queue st
     \<and> (\<forall>j<length sub. result_state e (row_len st) (length (next_token_ids result ! j)) (pa_store st (sub ! j)) (pa_store st' (sub ! j)))
     \<and> (\<forall>i. i \<notin> set sub \<longrightarrow> pa_store st' i = pa_store st i)"
proof -
  note J = R(1) [unfolded sched_running_def queues_ok_def]
  let ?idxs = "queued st @ waiting_queue st" and ?p = "mem_pool (pa_mem st)"
  let ?st = "st\<lparr>pa_mem := (pa_mem st)\<lparr>mem_alloc := free_group_begin (mem_alloc (pa_mem st))\<rparr>\<rparr>"
  have e: "tok_env e" using J by (simp add: env_ok_def)
  have g: "group_mem U (pa_store ?st) ?idxs ?p (pa_mem ?st)" using group_open [of U "pa_mem st"] J by simp
  have "\<exists>store' m' n. process_result_reqs e result 0 sub ?st = Inr (?st\<lparr>pa_store := store', pa_mem := m', num_generated_tokens := n\<rparr>)
      \<and> group_mem U store' ?idxs ?p m'
      \<and> (\<forall>j<length sub. result_state e (row_len st) (length (next_token_ids result ! (0 + j))) (pa_store ?st (sub ! j)) (store' (sub ! j)))
      \<and> (\<forall>i. i \<notin> set sub \<longrightarrow> store' i = pa_store ?st i)"
    using J res by (intro process_results_loop [OF e g]) auto
  then obtain store' m' n where L: "process_result_reqs e result 0 sub ?st = Inr (?st\<lparr>pa_store := store', pa_mem := m', num_generated_tokens := n\<rparr>)"
    "group_mem U store' ?idxs ?p m'" "\<forall>j<length sub. result_state e (row_len st) (length (next_token_ids result ! j)) (pa_store st (sub ! j)) (store' (sub ! j))"
    "\<forall>i. i \<notin> set sub \<longrightarrow> store' i = pa_store st i" by auto
  obtain s' where s': "free_group_end (\<lambda>xs s. Inr (tok_free xs s)) (mem_alloc m') = Inr s'" "accounted U (m'\<lparr>mem_alloc := s'\<rparr>) store' ?idxs" "tok_ready s'"
    using group_close [OF L(2)] by blast
  define st' where "st' = st\<lparr>pa_store := store', pa_mem := m'\<lparr>mem_alloc := s'\<rparr>, num_generated_tokens := n\<rparr>"
  obtain fs where p': "mem_pool m' = ?p\<lparr>free_slots := fs\<rparr>" using L(2) by (auto simp: group_mem_def)
  have state: "\<exists>k. result_state e (row_len st) k (pa_store st i) (store' i)" if "i \<in> set sub" for i
    using that L(3) by (metis in_set_conv_nth)
  have "process_batch_result_dllm e b result st = Inr st'"
    using b L(1) s'(1) e R(2) res(1) by (auto simp: process_batch_result_dllm_def tok_env_def st'_def)
  moreover have rids: "(\<lambda>i. rid (store' i)) = (\<lambda>i. rid (pa_store st i))"
    using state L(4) by (fastforce simp: result_state_def)
  moreover have "store' i = pa_store st i" if "i \<in> set (waiting_queue st)" for i
    using that J L(4) by (auto simp: accounted_def)
  moreover have "decoding_req e (mem_pool m') r = decoding_req e ?p r" for r using decoding_cong [of "mem_pool m'" r ?p e] p' by simp
  ultimately have "sched_inv e U st'"
    using J L(4) state s'(2,3) p' by (auto simp: sched_inv_def queues_ok_def st'_def result_state_def)
  with \<open>process_batch_result_dllm e b result st = Inr st'\<close> show ?thesis using L(3,4) by (auto simp: st'_def)
qed

text \<open>Fields the invariant does not read, and the order of the waiting queue.\<close>

lemma sched_inv_upds [simp]:
  "sched_inv e U (st\<lparr>batch_is_full := x1\<rparr>) = sched_inv e U st" "sched_inv e U (st\<lparr>pa_adder := x2\<rparr>) = sched_inv e U st"
  "sched_inv e U (st\<lparr>last_batch := x3\<rparr>) = sched_inv e U st"
  by (simp_all add: sched_inv_def queues_ok_def)

lemma sched_inv_reorder:
  assumes I: "sched_inv e U st" and w: "mset w = mset (waiting_queue st)"
  shows "sched_inv e U (st\<lparr>waiting_queue := w\<rparr>)"
proof -
  note J = I [unfolded sched_inv_def queues_ok_def]
  have m: "mset (queued st @ waiting_queue st) = mset (queued st @ w)" using w by simp
  have "accounted U (pa_mem st) (pa_store st) (queued st @ w)" using J accounted_perm [OF m] by blast
  moreover have "mset (map (\<lambda>i. rid (pa_store st i)) (queued st @ waiting_queue st)) = mset (map (\<lambda>i. rid (pa_store st i)) (queued st @ w))"
    using w by (metis m mset_map)
  then have "distinct (map (\<lambda>i. rid (pa_store st i)) (queued st @ w))" using J mset_eq_imp_distinct_iff by blast
  ultimately show ?thesis using J mset_eq_setD [OF w] by (simp add: sched_inv_def queues_ok_def split del: if_split cong del: if_weak_cong)
qed

lemma prepared_inv: "sched_prepared e U st \<Longrightarrow> sched_inv e U st"
  by (auto simp: sched_prepared_def sched_inv_def)

text \<open>What a turn has decided: no batch, a batch of prompts, or a batch of blocks.\<close>

definition turn_decided :: "(unit, allocator) dllm_env \<Rightarrow> int set \<Rightarrow> dllm_batch option \<Rightarrow> (unit, allocator) sched \<Rightarrow> bool" where
  "turn_decided e U b st \<longleftrightarrow>
     (case b of
        None \<Rightarrow> sched_inv e U st
      | Some b \<Rightarrow> db_reqs b \<noteq> [] \<and> (db_mode b = EXTEND \<and> sched_running e U 0 (db_reqs b) st
                   \<or> db_mode b = DLLM_EXTEND \<and> sched_running e U (dc_block_size (en_config e)) (db_reqs b) st))"

lemma chosen_batch:
  assumes P: "sched_prepared e U st" and c: "batch_chosen e n st"
    and mode: "mode = EXTEND \<and> n = 0 \<or> mode = DLLM_EXTEND \<and> n = dc_block_size (en_config e)"
  shows "\<exists>b st'. (let can_run = can_run_list (pa_adder st) in if can_run = [] then Inr (None, st)
       else rbind (create_dllm_batch e can_run mode (update_state_for_batch st)) (\<lambda>(b, st). Inr (Some b, st))) = Inr (b, st') \<and> turn_decided e U b st'"
proof (cases "can_run_list (pa_adder st) = []")
  case True
  then show ?thesis using prepared_inv [OF P] by (simp add: turn_decided_def)
next
  case False
  then obtain b st' where "create_dllm_batch e (can_run_list (pa_adder st)) mode (update_state_for_batch st) = Inr (b, st')"
    "db_reqs b = can_run_list (pa_adder st)" "db_mode b = mode" "sched_running e U n (can_run_list (pa_adder st)) st'"
    using create_batch [OF P _ refl False, of n mode] c by (auto simp: batch_chosen_def Let_def)
  then show ?thesis using False mode by (auto simp: turn_decided_def Let_def)
qed

text \<open>\<open>_process_dllm_batches\<close> and the creation of the batch.\<close>

lemma process_batches:
  assumes P: "sched_prepared e U st" and a: "pa_adder st = create_dllm_prefill_adder e st"
    and room: "(\<forall>i\<in>set (queued st). decoding_req e (mem_pool (pa_mem st)) (pa_store st i)) \<Longrightarrow> decode_room e st"
  shows "\<exists>b st'. rbind (process_dllm_batches e st) (\<lambda>(mode, st). let can_run = can_run_list (pa_adder st) in if can_run = [] then Inr (None, st)
       else rbind (create_dllm_batch e can_run mode (update_state_for_batch st)) (\<lambda>(b, st). Inr (Some b, st))) = Inr (b, st') \<and> turn_decided e U b st'"
proof -
  note J = P [unfolded sched_prepared_def]
  define incoming where "incoming = filter (\<lambda>i. dllm_phase (pa_store st i) = Some INCOMING_PREFILL) (queued st)"
  show ?thesis
  proof (cases "incoming = []")
    case False
    obtain st' where "process_incoming_prefill_reqs e incoming st = Inr st'" "sched_prepared e U st'" "batch_chosen e 0 st'"
      using choose_prompts [OF P a incoming_def] by blast
    then show ?thesis
      using False chosen_batch [of e U st' 0 EXTEND] by (simp add: process_dllm_batches_def Let_def incoming_def [symmetric])
  next
    case True
    have dec: "\<forall>i\<in>set (queued st). decoding_req e (mem_pool (pa_mem st)) (pa_store st i)"
      using True J by (auto simp: incoming_def filter_empty_conv fresh_req_def)
    then have phase: "\<forall>i\<in>set (queued st). \<not> is_dllm_prefill (pa_store st i)"
      by (auto simp: is_dllm_prefill_def decoding_req_def)
    obtain st' where "process_batch_by_phase e (queued st) STAGING_DECODE INCOMING_DECODE st = Inr st'" "sched_prepared e U st'"
      "batch_chosen e (dc_block_size (en_config e)) st'"
      using choose_blocks [OF P a dec room [OF dec]] by blast
    moreover have "get_prefill_requests (pa_store st) (sc_manager st) = []" "get_decode_requests (pa_store st) (sc_manager st) = queued st"
      using phase by (simp_all add: get_prefill_requests_def get_decode_requests_def filter_empty_conv filter_id_conv)
    ultimately show ?thesis
      using True chosen_batch [of e U st' "dc_block_size (en_config e)" DLLM_EXTEND]
      by (simp add: process_dllm_batches_def Let_def incoming_def [symmetric])
  qed
qed

text \<open>Preparing the staged requests and fetching new ones leaves the room for a decode turn as it was.\<close>

lemma decode_room_fetched:
  assumes room: "decode_room e st" and P: "sched_prepared e U st'"
    and q: "queued st' = queued st @ new" "pa_mem st' = pa_mem st" "\<forall>i\<in>set new. fresh_req e L (pa_store st' i)"
    and core: "\<And>i. same_core (pa_store st i) (pa_store st' i)"
    and dec: "\<forall>i\<in>set (queued st'). decoding_req e (mem_pool (pa_mem st')) (pa_store st' i)"
  shows "decode_room e st'"
proof -
  have "new = []"
  proof (rule ccontr)
    assume "new \<noteq> []"
    then have "decoding_req e (mem_pool (pa_mem st')) (pa_store st' (hd new))" "fresh_req e L (pa_store st' (hd new))" using dec q by auto
    then show False by (simp add: fresh_req_def decoding_req_def)
  qed
  then have eq: "filter (\<lambda>i. \<not> finished (pa_store st' i)) (queued st') = filter (\<lambda>i. \<not> finished (pa_store st i)) (queued st)"
    using q(1) core by (auto simp: finished_def same_core_def intro!: filter_cong)
  have "max_new (pa_store st' i) = max_new (pa_store st i)" for i using core [of i] by (simp add: same_core_def max_new_def)
  then show ?thesis
    using room q(2) eq whole_blocks_cong [of "filter (\<lambda>i. \<not> finished (pa_store st i)) (queued st)" "pa_store st'" "pa_store st" e]
    by (simp add: decode_room_def Let_def)
qed

text \<open>The first part of \<open>get_new_batch_dllm\<close>: the adder, the staged requests, the new requests.\<close>

lemma get_new_batch_prepare:
  assumes I: "sched_inv e U st" "\<forall>i\<in>set (queued st). \<not> done_req (pa_store st i)" and sk: "should_skip_prefill e st = (False, s0)"
  shows "\<exists>st3 new. get_new_batch_dllm e st = rbind (process_dllm_batches e st3) (\<lambda>(mode, st). let can_run = can_run_list (pa_adder st) in
         if can_run = [] then Inr (None, st) else rbind (create_dllm_batch e can_run mode (update_state_for_batch st)) (\<lambda>(b, st). Inr (Some b, st)))
     \<and> sched_prepared e U st3 \<and> pa_adder st3 = create_dllm_prefill_adder e st3 \<and> pa_mem st3 = pa_mem st \<and> queued st3 = queued st @ new
     \<and> mset (new @ waiting_queue st3) = mset (waiting_queue st) \<and> (\<forall>i\<in>set new. fresh_req e (row_len st) (pa_store st3 i))
     \<and> (\<forall>i. same_core (pa_store st i) (pa_store st3 i))"
proof -
  have e: "env_ok e" using I(1) by (simp add: sched_inv_def queues_ok_def)
  have s0: "s0 = st" using sk by (auto simp: should_skip_prefill_def split: if_splits)
  define st0 where "st0 = st\<lparr>waiting_queue := en_calc_priority e (pa_store st) (waiting_queue st)\<rparr>"
  define st1 where "st1 = st0\<lparr>pa_adder := create_dllm_prefill_adder e st0\<rparr>"
  have w: "mset (waiting_queue st1) = mset (waiting_queue st)" using e by (simp add: st1_def st0_def env_ok_def)
  then have "sched_inv e U st0" using sched_inv_reorder [OF I(1)] by (simp add: st0_def st1_def)
  then have I1: "sched_inv e U st1" "\<forall>i\<in>set (queued st1). \<not> done_req (pa_store st1 i)" using I(2) by (simp_all add: st1_def st0_def)
  obtain store' where S: "prepare_staging_reqs st1 = Inr (st1\<lparr>pa_store := store', sc_manager := (sc_manager st1)\<lparr>dm_staging_queue := []\<rparr>\<rparr>)"
    "\<forall>i. same_core (pa_store st1 i) (store' i)" "sched_prepared e U (st1\<lparr>pa_store := store', sc_manager := (sc_manager st1)\<lparr>dm_staging_queue := []\<rparr>\<rparr>)"
    using prepare_staging_inv [OF I1] by blast
  define st2 where "st2 = st1\<lparr>pa_store := store', sc_manager := (sc_manager st1)\<lparr>dm_staging_queue := []\<rparr>\<rparr>"
  obtain n where F: "fetch_waiting_reqs e st2 = Inr (st2\<lparr>sc_manager := (sc_manager st2)\<lparr>dm_waiting_queue := queued st2 @ take n (waiting_queue st2)\<rparr>,
      waiting_queue := drop n (waiting_queue st2)\<rparr>)"
    "sched_prepared e U (st2\<lparr>sc_manager := (sc_manager st2)\<lparr>dm_waiting_queue := queued st2 @ take n (waiting_queue st2)\<rparr>,
      waiting_queue := drop n (waiting_queue st2)\<rparr>)"
    using fetch_prepared S(3) unfolding st2_def [symmetric] by blast
  define st3 where "st3 = st2\<lparr>sc_manager := (sc_manager st2)\<lparr>dm_waiting_queue := queued st2 @ take n (waiting_queue st2)\<rparr>,
      waiting_queue := drop n (waiting_queue st2)\<rparr>"
  have fr: "pa_mem st3 = pa_mem st" "queued st3 = queued st @ take n (waiting_queue st1)" "pa_running st3 = pa_running st" "pa_running st = []"
    "pa_adder st3 = create_dllm_prefill_adder e st0" "pa_store st3 = store'" "pa_store st1 = pa_store st" "pa_running st0 = pa_running st"
    "waiting_queue st3 = drop n (waiting_queue st1)"
    using I(1) by (simp_all add: st3_def st2_def st1_def st0_def sched_inv_def queues_ok_def)
  have "get_new_batch_dllm e st = rbind (process_dllm_batches e st3) (\<lambda>(mode, st). let can_run = can_run_list (pa_adder st) in
       if can_run = [] then Inr (None, st) else rbind (create_dllm_batch e can_run mode (update_state_for_batch st)) (\<lambda>(b, st). Inr (Some b, st)))"
    using e sk S(1) F(1) unfolding get_new_batch_dllm_def env_ok_def s0 st3_def st2_def st1_def st0_def by (simp add: Let_def)
  moreover have "\<forall>i\<in>set (take n (waiting_queue st1)). fresh_req e (row_len st) (pa_store st3 i)"
    using S(3) by (auto simp: st3_def st2_def st1_def st0_def sched_prepared_def queues_ok_def dest: in_set_takeD)
  moreover have "mset (take n (waiting_queue st1) @ waiting_queue st3) = mset (waiting_queue st)" using w fr(9) by simp
  moreover have "pa_adder st3 = create_dllm_prefill_adder e st3" using fr by (simp add: create_dllm_prefill_adder_def)
  moreover have "\<forall>i. same_core (pa_store st i) (pa_store st3 i)" using S(2) fr(6,7) by simp
  ultimately show ?thesis using F(2) fr(1,2) unfolding st3_def [symmetric] by blast
qed

lemma get_new_batch_inv:
  assumes I: "sched_inv e U st" "\<forall>i\<in>set (queued st). \<not> done_req (pa_store st i)" and room: "decode_room e st"
  shows "\<exists>b st'. get_new_batch_dllm e st = Inr (b, st') \<and> turn_decided e U b st'"
proof (cases "fst (should_skip_prefill e st)")
  case True
  then have "should_skip_prefill e st \<in> {(True, st), (True, st\<lparr>batch_is_full := True\<rparr>)}"
    by (auto simp: should_skip_prefill_def split: if_splits)
  moreover have "\<not> en_priority_scheduling e" using I(1) by (simp add: sched_inv_def queues_ok_def env_ok_def)
  ultimately show ?thesis using I(1) by (auto simp: get_new_batch_dllm_def turn_decided_def)
next
  case False
  then obtain st1 where "should_skip_prefill e st = (False, st1)" by (metis prod.collapse)
  then obtain st3 new where B: "get_new_batch_dllm e st = rbind (process_dllm_batches e st3) (\<lambda>(mode, st). let can_run = can_run_list (pa_adder st) in
         if can_run = [] then Inr (None, st) else rbind (create_dllm_batch e can_run mode (update_state_for_batch st)) (\<lambda>(b, st). Inr (Some b, st)))"
    "sched_prepared e U st3" "pa_adder st3 = create_dllm_prefill_adder e st3" "pa_mem st3 = pa_mem st" "queued st3 = queued st @ new"
    "\<forall>i\<in>set new. fresh_req e (row_len st) (pa_store st3 i)" "\<forall>i. same_core (pa_store st i) (pa_store st3 i)"
    using get_new_batch_prepare [OF I] by blast
  then show ?thesis
    using process_batches [OF B(2,3)] decode_room_fetched [OF room B(2,5,4,6)] by simp
qed

lemma get_next_batch_eq:
  "\<exists>full. get_next_batch_to_run e st = get_new_batch_dllm e (st\<lparr>sc_manager := filter_finished_reqs (pa_store st) (sc_manager st), batch_is_full := full\<rparr>)"
proof -
  let ?st = "st\<lparr>sc_manager := filter_finished_reqs (pa_store st) (sc_manager st)\<rparr>"
  show ?thesis
  proof (cases "\<exists>b. last_batch ?st = Some b \<and> is_extend False (db_mode b) \<and> db_reqs b \<noteq> []")
    case True
    then show ?thesis by (intro exI [of _ False]) (auto simp: get_next_batch_to_run_def)
  next
    case False
    then show ?thesis by (intro exI [of _ "batch_is_full ?st"]) (cases "last_batch ?st"; auto simp: get_next_batch_to_run_def)
  qed
qed

text \<open>
  The state of a scheduler that has just been set up, with requests in its waiting queue.
\<close>

definition sched_start ::
  "('t, 's) dllm_env \<Rightarrow> adder \<Rightarrow> ('t, 's) kv_mem \<Rightarrow> (nat \<Rightarrow> req) \<Rightarrow> nat list \<Rightarrow> ('t, 's) sched" where
  "sched_start e ad m store rs = \<lparr>pa_adder = ad, pa_store = store, pa_mem = m, pa_running = [], waiting_queue = rs,
     sc_manager = dllm_manager_init (Some (en_config e)), batch_is_full = False, num_generated_tokens = 0, last_batch = None\<rparr>"

lemma sched_start_inv:
  assumes e: "env_ok e" and sz: "max_running_requests (en_config e) \<le> sz" and rs: "distinct rs" "distinct (map (\<lambda>i. rid (store i)) rs)"
    and f: "\<forall>i\<in>set rs. fresh_req e len (store i)"
  shows "sched_inv e {1..n} (sched_start e ad \<lparr>mem_tree = (), mem_alloc = tok_init n ns, mem_pool = rtp_init sz len\<rparr> store rs)"
proof -
  let ?m = "\<lparr>mem_tree = (), mem_alloc = tok_init n ns, mem_pool = rtp_init sz len\<rparr>"
  have h: "held (rtp_init sz len) (store i) = [] \<and> row_of (store i) = [] \<and> kv_in_row (rtp_init sz len) (store i)" if "i \<in> set rs" for i
    using f that by (simp add: fresh_req_def held_def row_of_def kv_in_row_def)
  then have c: "concat (map (\<lambda>i. held (rtp_init sz len) (store i)) rs) = []" "concat (map (\<lambda>i. row_of (store i)) rs) = []" by simp_all
  have "tok_inv (tok_init n ns)" "owns {1..n} (tok_pages (tok_init n ns)) []"
    by (simp_all add: owns_def tok_inv_def tok_pages_def tok_init_def tok_clear_def pending_def in_free_group_def)
  moreover have "table_ok (rtp_init sz len) []" by (simp add: table_ok_def rtp_init_def atLeast0LessThan)
  ultimately have "accounted {1..n} ?m store rs" using c h rs(1) by (simp only: accounted_def kv_mem.simps) blast
  then show ?thesis
    using e sz rs f by (simp add: sched_inv_def queues_ok_def sched_start_def dllm_manager_init_def tok_ready_def in_free_group_def
        tok_init_def tok_clear_def) (simp add: rtp_init_def)
qed

lemma event_loop_turn_ok:
  assumes I: "sched_inv e U st" and room: "decode_room e st" and alg: "alg_ok e alg"
  shows "\<exists>st'. event_loop_turn e alg st = Inr st' \<and> sched_inv e U st'"
proof -
  obtain full where g: "get_next_batch_to_run e st
      = get_new_batch_dllm e (st\<lparr>sc_manager := filter_finished_reqs (pa_store st) (sc_manager st), batch_is_full := full\<rparr>)"
    using get_next_batch_eq by blast
  define st0 where "st0 = st\<lparr>sc_manager := filter_finished_reqs (pa_store st) (sc_manager st), batch_is_full := full\<rparr>"
  have I0: "sched_inv e U st0" "\<forall>i\<in>set (queued st0). \<not> done_req (pa_store st0 i)"
    using filter_finished_inv [OF I] by (simp_all add: st0_def)
  have "decode_room e st0" using room by (simp add: decode_room_def st0_def filter_finished_reqs_def)
  then obtain b st2 where B: "get_new_batch_dllm e st0 = Inr (b, st2)" "turn_decided e U b st2"
    using get_new_batch_inv [OF I0] by blast
  have g2: "get_next_batch_to_run e st = Inr (b, st2)" using g B(1) by (simp only: st0_def [symmetric])
  show ?thesis
  proof (cases b)
    case None
    then show ?thesis using g2 B(2) by (simp add: event_loop_turn_def turn_decided_def)
  next
    case (Some b)
    obtain result where r: "alg b (pa_mem st2) = Inr (result, pa_mem st2)" "db_mode b = DLLM_EXTEND \<Longrightarrow>
        length (next_token_ids result) = length (db_reqs b) \<and> (\<forall>j<length (db_reqs b). result_ok e result j)"
      using alg [unfolded alg_ok_def, THEN spec, of b, THEN spec, of "pa_mem st2"] by blast
    have "\<exists>st'. process_batch_result_dllm e b result st2 = Inr st' \<and> sched_inv e U st'"
      using B(2) Some r(2) batch_result_prompts [of e U "db_reqs b" st2 b result] batch_result_blocks [of e U "db_reqs b" st2 b result]
      by (auto simp: turn_decided_def)
    then show ?thesis using g2 Some r(1) by (auto simp: event_loop_turn_def)
  qed
qed


section \<open>An example\<close>

text \<open>A token pool, requests with prompts of four tokens, and an algorithm that returns two tokens in each round.\<close>

definition demo_dllm :: "(unit, allocator) dllm_env" where
  "demo_dllm = \<lparr>en_ao = tok_ops, en_tc = chunk_ops tok_ops False, en_free_group_begin = free_group_begin,
     en_free_group_end = free_group_end (\<lambda>xs s. Inr (tok_free xs s)), en_config = demo_config, en_page_size = 1,
     en_new_token_ratio = 1/2, en_max_prefill_tokens = 100, en_chunked_prefill_size = None, en_is_mixed_chunk = False,
     en_threshold = 0, en_prefill_max_requests = None, en_cp_enabled = False, en_priority_scheduling = False,
     en_pp_max_micro_batch_size = 4, en_pp_size = 1, en_truncation_align_size = None,
     en_preempt = \<lparr>low_first = False, retract_steps = 1, pr_page_size = 1, pr_spec = False, pr_strip = False\<rparr>,
     en_root_node = None, en_support_triton = False, en_emit_full_blocks = False, en_calc_priority = (\<lambda>_ q. q),
     en_decode = (\<lambda>_. []), en_re_search = (\<lambda>_ _. False)\<rparr>"

definition demo_alg :: "dllm_batch \<Rightarrow> (unit, allocator) kv_mem \<Rightarrow> (dllm_result \<times> (unit, allocator) kv_mem) res" where
  "demo_alg b m = Inr (\<lparr>next_token_ids = map (\<lambda>_. [5, 6]) (db_reqs b), next_token_logprobs = None,
     next_token_reveal_steps = None, next_token_entropy = None\<rparr>, m)"

definition demo_store :: "nat \<Rightarrow> req" where
  "demo_store i = demo_req\<lparr>rid := replicate i (CHR ''r''), req_dllm_config := Some demo_config, dllm_phase := Some INCOMING_PREFILL\<rparr>"

definition demo_mem :: "int \<Rightarrow> (unit, allocator) kv_mem" where
  "demo_mem n = \<lparr>mem_tree = (), mem_alloc = tok_init n False, mem_pool = rtp_init 4 32\<rparr>"

definition demo_adder :: adder where
  "demo_adder = \<lparr>pa_page_size = 1, new_token_ratio = 1/2, rem_input_tokens = 0, rem_chunk_tokens = None, pa_dllm_config = None,
     rem_dllm_tokens = 0, rem_total_token_offset = 0, cur_rem_token_offset = 0, req_states = None, can_run_list = [],
     preempt_list = [], new_chunked_req = None, log_hit_tokens = 0, log_input_tokens = 0, preemption_threshold = 0,
     prefill_max_requests = None, cp_enabled = False\<rparr>"

lemma demo_dllm_ok: "env_ok demo_dllm"
  by (simp add: env_ok_def tok_env_def demo_dllm_def demo_config_def)

lemma demo_alg_ok: "alg_ok demo_dllm demo_alg"
  by (simp add: alg_ok_def result_ok_def demo_alg_def demo_dllm_def demo_config_def)

lemma demo_fresh: "fresh_req demo_dllm 32 (demo_store i)"
  by (simp add: fresh_req_def sound_req_def demo_store_def demo_req_def demo_sampling_def demo_dllm_def demo_config_def finished_def max_new_def)

lemma demo_start_inv:
  "distinct rs \<Longrightarrow> sched_inv demo_dllm {1..n} (sched_start demo_dllm ad (demo_mem n) demo_store rs)"
  unfolding demo_mem_def using demo_dllm_ok demo_fresh
  by (intro sched_start_inv) (auto simp: demo_dllm_def demo_config_def demo_store_def distinct_map intro!: inj_onI dest: arg_cong [of _ _ length])


end
