(* ===== verification/Sched_Starvation.thy ===== *)
theory Sched_Starvation
  imports Sched_Liveness
begin

text \<open>
  How the diffusion scheduler stops. A new prompt that does not fit is tried before any decoding and marks the batch as full;
  only a batch clears that mark, so from then on no turn runs a batch, and the requests that could decode and give their
  slots back never do.
\<close>

section \<open>A full batch with nothing to run\<close>

definition blocked :: "('t, 's) dllm_env \<Rightarrow> ('t, 's) sched \<Rightarrow> bool" where
  "blocked e st \<longleftrightarrow> \<not> en_priority_scheduling e \<and> batch_is_full st \<and> last_batch st = None \<and> dm_config (sc_manager st) \<noteq> None
     \<and> staged st = [] \<and> waiting_queue st = []
     \<and> (\<forall>store. en_calc_priority e store [] = [])
     \<and> (\<exists>i\<in>set (queued st). \<not> finished (pa_store st i) \<and> dllm_phase (pa_store st i) = Some INCOMING_PREFILL)"

lemma process_incoming_full:
  "\<not> en_priority_scheduling e \<Longrightarrow> batch_is_full st \<Longrightarrow> process_incoming_prefill_reqs e rs st = Inr st"
  by (cases rs) (simp_all add: batch_full_stop_def Let_def)

lemma blocked_turn:
  assumes b: "blocked e st"
  shows "\<exists>st'. event_loop_turn e alg st = Inr st' \<and> blocked e st' \<and> pa_mem st' = pa_mem st \<and> pa_store st' = pa_store st"
proof -
  let ?m = "filter_finished_reqs (pa_store st) (sc_manager st)"
  let ?s1 = "st\<lparr>sc_manager := ?m\<rparr>"
  define s2 where "s2 = ?s1\<lparr>waiting_queue := [], pa_adder := create_dllm_prefill_adder e (?s1\<lparr>waiting_queue := []\<rparr>)\<rparr>"
  have f2: "pa_store s2 = pa_store st" "sc_manager s2 = ?m" "batch_is_full s2 = batch_is_full st" "waiting_queue s2 = []" "pa_mem s2 = pa_mem st"
    "can_run_list (pa_adder s2) = []"
    by (simp_all add: s2_def create_dllm_prefill_adder_def adder_init_def)
  let ?inc = "filter (\<lambda>i. dllm_phase (pa_store st i) = Some INCOMING_PREFILL) (dm_waiting_queue ?m)"
  obtain i where i: "i \<in> set (dm_waiting_queue ?m)" "dllm_phase (pa_store st i) = Some INCOMING_PREFILL"
    using b by (auto simp: blocked_def filter_finished_reqs_def)
  then have ne: "?inc \<noteq> []" by (auto simp: filter_empty_conv)
  have sk: "should_skip_prefill e ?s1 = (False, ?s1)" using i(1) b
    by (auto simp: should_skip_prefill_def dm_is_empty_def blocked_def filter_finished_reqs_def filter_empty_conv)
  have st: "staged ?s1 = []" using b by (simp add: blocked_def filter_finished_reqs_def)
  have "process_dllm_batches e s2 = Inr (EXTEND, s2)"
    using b ne process_incoming_full [of e s2] by (simp add: process_dllm_batches_def Let_def blocked_def f2)
  moreover have "prepare_staging_reqs s2 = Inr s2" using st f2(2) by (simp add: prepare_staging_reqs_def f2(1))
  moreover have "fetch_waiting_reqs e s2 = Inr s2" by (simp add: fetch_waiting_reqs_def f2)
  moreover have "get_next_batch_to_run e st = get_new_batch_dllm e ?s1" using b by (simp add: get_next_batch_to_run_def blocked_def)
  moreover have "get_new_batch_dllm e ?s1 = rbind (prepare_staging_reqs s2) (\<lambda>st. rbind (fetch_waiting_reqs e st) (\<lambda>st.
      rbind (process_dllm_batches e st) (\<lambda>(mode, st). let can_run = can_run_list (pa_adder st)
        in if can_run = [] then Inr (None, st)
           else rbind (create_dllm_batch e can_run mode (update_state_for_batch st)) (\<lambda>(b, st). Inr (Some b, st)))))"
    using b sk by (simp add: get_new_batch_dllm_def blocked_def s2_def Let_def)
  ultimately have "event_loop_turn e alg st = Inr (s2\<lparr>last_batch := None\<rparr>)" using f2(6) by (simp add: event_loop_turn_def)
  moreover have "blocked e (s2\<lparr>last_batch := None\<rparr>)"
    using b by (auto simp: blocked_def filter_finished_reqs_def f2)
  ultimately show ?thesis using f2 by auto
qed

lemma blocked_for_good:
  assumes "blocked e st"
  shows "\<exists>st'. event_loop_normal e alg n st = Inr st' \<and> blocked e st' \<and> pa_mem st' = pa_mem st \<and> pa_store st' = pa_store st"
  using assms
proof (induction n arbitrary: st)
  case (Suc n)
  obtain st1 where "event_loop_turn e alg st = Inr st1" "blocked e st1" "pa_mem st1 = pa_mem st" "pa_store st1 = pa_store st"
    using blocked_turn [OF Suc.prems] by blast
  moreover then obtain st' where "event_loop_normal e alg n st1 = Inr st'" "blocked e st'" "pa_mem st' = pa_mem st1" "pa_store st' = pa_store st1"
    using Suc.IH by blast
  ultimately show ?case by (intro exI [of _ st']) simp
qed simp

section \<open>A prompt that does not fit\<close>

text \<open>The requests that have not been started.\<close>

definition unstarted :: "('t, 's) sched \<Rightarrow> nat list" where
  "unstarted st = filter (\<lambda>i. \<not> finished (pa_store st i) \<and> req_pool_idx (pa_store st i) = None) (queued st)"

text \<open>What \<open>add_dllm_prompt_cache_req\<close> asks for.\<close>

definition prompt_cost :: "req \<Rightarrow> int" where
  "prompt_cost r = int (length (origin_input_ids r)) + min (max_new r) CLIP_MAX_NEW_TOKENS"

lemma refused_prompt:
  assumes np: "\<not> en_priority_scheduling e" and out: "output_ids (pa_store st i) = []" "0 \<le> max_new (pa_store st i)"
    and rem: "rem_total_tokens (en_ao e) (en_tc e) st \<le> of_int (prompt_cost (pa_store st i))"
  shows "\<exists>store. process_incoming_prefill_reqs e (i # rs) st = Inr (st\<lparr>pa_store := store, batch_is_full := True\<rparr>)
     \<and> (store = pa_store st \<or> store = (pa_store st)(i := prompt_input e (pa_store st i)))"
proof (cases "batch_is_full st \<or> get_num_allocatable_reqs e st \<le> int (length (can_run_list (pa_adder st)))")
  case True
  then show ?thesis using np by (intro exI [of _ "pa_store st"]) (auto simp: batch_full_stop_def Let_def)
next
  case False
  let ?st = "st\<lparr>pa_store := (pa_store st)(i := prompt_input e (pa_store st i))\<rparr>"
  have "rem_total_tokens (en_ao e) (en_tc e) ?st = rem_total_tokens (en_ao e) (en_tc e) st" by (simp add: rem_total_tokens_def)
  then have "add_dllm_prompt_cache_req (en_ao e) (en_tc e) i ?st = Inr (NO_TOKEN, ?st)"
    using out rem by (simp add: add_dllm_prompt_cache_req_def Let_def prompt_cost_def max_new_def)
  then show ?thesis using False
    by (intro exI [of _ "(pa_store st)(i := prompt_input e (pa_store st i))"]) (simp add: batch_full_stop_def Let_def prompt_input_def)
qed

lemma prepared_incoming:
  assumes "sched_prepared e U st"
  shows "filter (\<lambda>i. dllm_phase (pa_store st i) = Some INCOMING_PREFILL) (queued st) = unstarted st"
  unfolding unstarted_def using assms
  by (intro filter_cong) (auto simp: sched_prepared_def fresh_req_def decoding_req_def cached_req_def sound_req_def)

lemma unstarted_turn:
  assumes I: "sched_inv e U st" and w: "waiting_queue st = []" and u: "unstarted st = i # rs"
    and rem: "tok_available_size (mem_alloc (pa_mem st)) \<le> prompt_cost (pa_store st i)"
  shows "\<exists>st'. event_loop_turn e alg st = Inr st' \<and> blocked e st' \<and> pa_mem st' = pa_mem st \<and> (\<forall>i. same_text (pa_store st i) (pa_store st' i))"
proof -
  have uf: "unstarted st = filter (\<lambda>i. req_pool_idx (pa_store st i) = None) (unfinished st)"
    by (simp add: unstarted_def unfinished_def conj_commute)
  then have "unfinished st \<noteq> []" using u by auto
  then obtain st3 new where B: "get_next_batch_to_run e st = rbind (process_dllm_batches e st3) (\<lambda>(mode, st). let can_run = can_run_list (pa_adder st) in
         if can_run = [] then Inr (None, st) else rbind (create_dllm_batch e can_run mode (update_state_for_batch st)) (\<lambda>(b, st). Inr (Some b, st)))"
    "sched_prepared e U st3" "pa_adder st3 = create_dllm_prefill_adder e st3" "pa_mem st3 = pa_mem st" "queued st3 = unfinished st @ new"
    "mset (new @ waiting_queue st3) = mset (waiting_queue st)" "\<forall>i. same_core (pa_store st i) (pa_store st3 i)"
    using turn_prepare [OF I] by blast
  note J = B(2) [unfolded sched_prepared_def queues_ok_def env_ok_def]
  have new: "new = []" "waiting_queue st3 = []" using B(6) w by simp_all
  have c3: "same_core (pa_store st i) (pa_store st3 i)" for i using B(7) by simp
  have u3: "unstarted st3 = i # rs"
    unfolding u [symmetric] unstarted_def B(5) new(1) unfinished_def append_Nil2 filter_filter
    using B(7) by (intro filter_cong) (auto simp: same_core_def finished_def)
  have "i \<in> set (unstarted st3)" using u3 by simp
  then have q3: "i \<in> set (queued st3)" "req_pool_idx (pa_store st3 i) = None" by (simp_all add: unstarted_def)
  then have fresh: "fresh_req e (row_len st3) (pa_store st3 i)"
    using J unfolding decoding_req_def cached_req_def by blast
  have out: "output_ids (pa_store st3 i) = []" "int (length (output_ids (pa_store st3 i))) \<le> max_new (pa_store st3 i)"
    using fresh by (simp_all add: fresh_req_def sound_req_def)
  then have mx: "0 \<le> max_new (pa_store st3 i)" by linarith
  have "rem_total_tokens (en_ao e) (en_tc e) st3 = of_int (tok_available_size (mem_alloc (pa_mem st)))"
    using J B(3,4) by (simp add: create_dllm_prefill_adder_def adder_init_def tok_env_def rem_total_tokens_def
        available_and_evictable_def tok_ops_def chunk_ops_def)
  moreover have "prompt_cost (pa_store st3 i) = prompt_cost (pa_store st i)" using c3 [of i] by (simp add: prompt_cost_def same_core_def max_new_def)
  ultimately obtain store where S: "process_incoming_prefill_reqs e (i # rs) st3 = Inr (st3\<lparr>pa_store := store, batch_is_full := True\<rparr>)"
    "store = pa_store st3 \<or> store = (pa_store st3)(i := prompt_input e (pa_store st3 i))"
    using refused_prompt [OF _ out(1) mx, of e rs] rem J by auto
  let ?st' = "st3\<lparr>pa_store := store, batch_is_full := True\<rparr>"
  have "process_dllm_batches e st3 = Inr (EXTEND, ?st')"
    using S(1) prepared_incoming [OF B(2)] u3 by (simp add: process_dllm_batches_def Let_def)
  moreover have "can_run_list (pa_adder ?st') = []" using B(3) by (simp add: create_dllm_prefill_adder_def adder_init_def)
  ultimately have "get_next_batch_to_run e st = Inr (None, ?st')" unfolding B(1) by simp
  then have "event_loop_turn e alg st = Inr (?st'\<lparr>last_batch := None\<rparr>)" by (simp add: event_loop_turn_def)
  moreover have core: "same_core (pa_store st3 j) (store j)" for j using S(2) by (auto simp: prompt_input_core)
  moreover have "dllm_phase (store i) = Some INCOMING_PREFILL" "\<not> finished (store i)"
    using S(2) fresh by (auto simp: fresh_req_def sound_req_def finished_def prompt_input_def init_prompt_cache_input_def set_extend_input_len_def Let_def)
  moreover have "\<forall>store. en_calc_priority e store [] = []" using J by (metis mset.simps(1) mset_zero_iff)
  ultimately show ?thesis
    using J q3(1) new(2) B(4) same_core_text [OF same_core_trans [OF c3 core]]
    by (intro exI [of _ "?st'\<lparr>last_batch := None\<rparr>"] conjI) (auto simp: blocked_def)
qed

section \<open>Blocks that do not fit\<close>

lemma dry_turn:
  assumes I: "sched_inv e U st" and s: "started st" and ne: "unfinished st \<noteq> []"
    and whole: "whole_blocks e (pa_store st) (unfinished st) (tok_available_size (mem_alloc (pa_mem st)))"
    and dry: "tok_available_size (mem_alloc (pa_mem st)) < int (length (unfinished st) * dc_block_size (en_config e))"
  shows "event_loop_turn e alg st = Inl RuntimeError"
proof -
  obtain st3 new where B: "get_next_batch_to_run e st = rbind (process_dllm_batches e st3) (\<lambda>(mode, st). let can_run = can_run_list (pa_adder st) in
         if can_run = [] then Inr (None, st) else rbind (create_dllm_batch e can_run mode (update_state_for_batch st)) (\<lambda>(b, st). Inr (Some b, st)))"
    "sched_prepared e U st3" "pa_adder st3 = create_dllm_prefill_adder e st3" "pa_mem st3 = pa_mem st" "queued st3 = unfinished st @ new"
    "mset (new @ waiting_queue st3) = mset (waiting_queue st)" "\<forall>i. same_core (pa_store st i) (pa_store st3 i)"
    using turn_prepare [OF I ne] by blast
  note J = B(2) [unfolded sched_prepared_def queues_ok_def]
  have q3: "queued st3 = unfinished st" using B(5,6) s by (simp add: started_def)
  have row: "req_pool_idx (pa_store st3 i) \<noteq> None" if "i \<in> set (unfinished st)" for i
    using that started_cached [OF I s, of i] B(7) by (auto simp: unfinished_def done_req_def cached_req_def same_core_def)
  have dec: "\<forall>i\<in>set (queued st3). decoding_req e (mem_pool (pa_mem st3)) (pa_store st3 i)"
  proof
    fix i assume i: "i \<in> set (queued st3)"
    then have "fresh_req e (row_len st3) (pa_store st3 i) \<or> decoding_req e (mem_pool (pa_mem st3)) (pa_store st3 i)" using J by blast
    then show "decoding_req e (mem_pool (pa_mem st3)) (pa_store st3 i)" using row [of i] i q3 unfolding fresh_req_def by fastforce
  qed
  have "whole_blocks e (pa_store st3) (queued st3) (tok_available_size (mem_alloc (pa_mem st3)))"
    using whole whole_blocks_cong [of "unfinished st" "pa_store st3" "pa_store st" e] B(4,7) q3 by (simp add: same_core_def max_new_def)
  then obtain a' where L: "process_batch_by_phase e (queued st3) STAGING_DECODE INCOMING_DECODE st3 = Inr (st3\<lparr>pa_adder := a'\<rparr>)"
    "same_frame st3 (st3\<lparr>pa_adder := a'\<rparr>)" "can_run_list a' = queued st3" "preempt_list a' = []"
    using fill_blocks [OF B(2,3) dec] by blast
  have phase: "dllm_phase (pa_store st3 i) = Some STAGING_DECODE" if "i \<in> set (queued st3)" for i
    using dec that by (simp add: decoding_req_def)
  then have "filter (\<lambda>i. dllm_phase (pa_store st3 i) = Some INCOMING_PREFILL) (queued st3) = []"
    "get_prefill_requests (pa_store st3) (sc_manager st3) = []" "get_decode_requests (pa_store st3) (sc_manager st3) = queued st3"
    by (auto simp: get_prefill_requests_def get_decode_requests_def is_dllm_prefill_def filter_empty_conv filter_id_conv)
  then have pb: "process_dllm_batches e st3 = Inr (DLLM_EXTEND, st3\<lparr>pa_adder := a'\<rparr>)"
    using L(1) by (simp add: process_dllm_batches_def)
  have "create_dllm_batch e (queued st3) DLLM_EXTEND (update_state_for_batch (st3\<lparr>pa_adder := a'\<rparr>)) = Inl RuntimeError"
  proof (rule create_batch_dry [OF prepared_cong [OF B(2) L(2)]])
    show "tok_available_size (mem_alloc (pa_mem (st3\<lparr>pa_adder := a'\<rparr>)))
      < int (\<Sum>i\<leftarrow>queued st3. length (fill_ids (pa_store (st3\<lparr>pa_adder := a'\<rparr>) i)) - length (prefix_indices (pa_store (st3\<lparr>pa_adder := a'\<rparr>) i)))"
      using dry blocks_sum [OF B(2) dec] B(4) q3 by simp
  qed (use L(3,4) ne q3 J dec decoding_blocks(1) [OF B(2)] in \<open>simp_all add: accounted_def\<close>)
  then show ?thesis using B(1) pb L(3) ne q3 by (simp add: event_loop_turn_def)
qed


definition demo_full :: "(unit, allocator) sched" where
  "demo_full = demo_decoding
     \<lparr>pa_mem := (pa_mem demo_decoding)\<lparr>mem_alloc := (tok_init 4 False)\<lparr>free_pages := []\<rparr>\<rparr>\<rparr>"

lemma demo_full_inv: "sched_inv demo_dllm {1..4} demo_full"
proof -
  have f: "pa_store demo_full = pa_store demo_decoding" "mem_pool (pa_mem demo_full) = mem_pool (pa_mem demo_decoding)"
    "queued demo_full = [0]" "staged demo_full = [0]"
    by (simp_all add: demo_full_def demo_decoding_def)
  have D: "sched_inv demo_dllm {1..40} demo_decoding" by (rule demo_decoding_inv)
  then have acc: "accounted {1..40} (pa_mem demo_decoding) (pa_store demo_decoding) [0]"
    by (simp add: sched_inv_def queues_ok_def demo_decoding_def sched_start_def)
  have h: "held (mem_pool (pa_mem demo_decoding)) (pa_store demo_decoding 0) = [1, 2, 3, 4]"
    by (simp add: held_def demo_decoding_def sched_start_def rtp_row_def rtp_init_def)
  have "tok_inv (mem_alloc (pa_mem demo_full)) \<and> owns {1..4} (tok_pages (mem_alloc (pa_mem demo_full))) [1, 2, 3, 4]"
    by (auto simp: owns_def tok_inv_def tok_pages_def tok_init_def tok_clear_def pending_def in_free_group_def demo_full_def)
  then have "accounted {1..4} (pa_mem demo_full) (pa_store demo_full) [0]" using acc h by (simp add: accounted_def f)
  then have "queues_ok demo_dllm {1..4} demo_full"
    using demo_dllm_ok by (simp add: queues_ok_def f) (simp add: demo_full_def demo_decoding_def sched_start_def tok_ready_def
        in_free_group_def tok_init_def tok_clear_def demo_dllm_def demo_config_def rtp_init_def)
  then show ?thesis using D by (simp add: sched_inv_def f) (simp add: demo_decoding_def)
qed


section \<open>The whole queue waits\<close>


text \<open>
  Two requests of the example with a pool of sixteen slots: the first has its prompt in the cache and room to finish, and
  the second needs the slots of the first.
\<close>

definition demo_pair :: "(unit, allocator) sched" where
  "demo_pair = demo_decoding
     \<lparr>pa_mem := (pa_mem demo_decoding)\<lparr>mem_alloc := (tok_init 16 False)\<lparr>free_pages := [5..16]\<rparr>\<rparr>,
      sc_manager := \<lparr>dm_config = Some demo_config, max_running_reqs = 4, dm_waiting_queue = [0, 1], dm_staging_queue = [0]\<rparr>\<rparr>"

lemma demo_pair_inv: "sched_inv demo_dllm {1..16} demo_pair"
proof -
  have f: "pa_store demo_pair = pa_store demo_decoding" "mem_pool (pa_mem demo_pair) = mem_pool (pa_mem demo_decoding)" by (simp_all add: demo_pair_def)
  have "sched_inv demo_dllm {1..40} demo_decoding" by (rule demo_decoding_inv)
  then have D: "accounted {1..40} (pa_mem demo_decoding) (pa_store demo_decoding) [0]" "cached_req demo_dllm 32 (pa_store demo_decoding 0)"
    by (auto simp: sched_inv_def queues_ok_def demo_decoding_def sched_start_def rtp_init_def done_req_def finished_def)
  have s1: "pa_store demo_decoding (Suc 0) = demo_store 1" by (simp add: demo_decoding_def sched_start_def)
  have n1: "held p (demo_store i) = []" "row_of (demo_store i) = []" "kv_in_row p (demo_store i)" for p i
    by (simp_all add: held_def row_of_def kv_in_row_def demo_store_def demo_req_def)
  have h: "held (mem_pool (pa_mem demo_decoding)) (pa_store demo_decoding 0) = [1, 2, 3, 4]"
    by (simp add: held_def demo_decoding_def sched_start_def rtp_row_def rtp_init_def)
  have "tok_inv (mem_alloc (pa_mem demo_pair)) \<and> owns {1..16} (tok_pages (mem_alloc (pa_mem demo_pair))) [1, 2, 3, 4]"
    by (auto simp: owns_def tok_inv_def tok_pages_def tok_init_def tok_clear_def pending_def in_free_group_def demo_pair_def
        simp del: upto_rec_numeral)
  then have "accounted {1..16} (pa_mem demo_pair) (pa_store demo_pair) [0, 1]"
    using D(1) h n1 by (simp add: accounted_def f s1)
  then have "queues_ok demo_dllm {1..16} demo_pair"
    using demo_dllm_ok by (simp add: queues_ok_def demo_pair_def demo_decoding_def sched_start_def tok_ready_def in_free_group_def tok_init_def tok_clear_def
        demo_dllm_def demo_config_def rtp_init_def demo_store_def demo_req_def)
  then show ?thesis
    using D(2) demo_fresh [of 1] s1 by (auto simp: sched_inv_def f) (simp_all add: demo_pair_def demo_decoding_def sched_start_def rtp_init_def)
qed


end
