(* ===== verification/Spec2Isabelle.thy ===== *)
theory Spec2Isabelle
  imports KV_Pool Joint_Threshold Fast_Diffuser_Correct Linear_Spec_Correct Tidar_Run Req_To_Token_Correct Sched_Starvation
begin

text \<open>
  A verification development of the diffusion language model serving path of SGLang: the KV slot allocators, the
  decoding algorithms of \<open>dllm/algorithm/\<close>, the requests, and the tables that connect them. All paths are
  relative to \<open>src/python/sglang/srt/\<close>.

  \<^bold>\<open>The program.\<close> A diffusion language model fills a block of mask tokens at a time. The scheduler turns each
  request into a batch row (the prompt, the output so far and a block of masks), takes cache slots for the new
  tokens from an allocator, records them in \<open>req_to_token\<close>, and hands the batch to a decoding algorithm. The
  algorithm runs the model several times and returns the tokens it committed; the scheduler appends them, frees the
  slots of rejected tokens and checks the stop conditions.

  \<^bold>\<open>Theories.\<close>
  \<^item> \<open>SGL_Prelude\<close>: results with Python exceptions, slices, dictionaries, block-wise loops over a flat batch.
  \<^item> \<open>KV_Allocator\<close>, \<open>KV_Alloc_Correct\<close>, \<open>KV_Pool\<close>: \<open>mem_cache/allocator.py\<close>. The Triton kernels are
    functions of one program, run in sequence over the grid; they are shown equal to the torch reference, and both
    allocators to partition their pool over any sequence of operations (locale \<open>kv_pool\<close>, interpreted on both).
  \<^item> \<open>Dllm_Base\<close>: \<open>dllm/config.py\<close>, \<open>dllm/algorithm/base.py\<close> and the tensor idioms of a denoising step.
  \<^item> \<open>Low_Confidence\<close>, \<open>Joint_Threshold\<close>, \<open>Fast_Diffuser\<close> with \<open>FD_Commit\<close> and
    \<open>Fast_Diffuser_Correct\<close>: the denoising algorithms. Every run returns, fills every block, keeps the prompt, and
    reports log-probabilities and steps for exactly the generated tokens.
  \<^item> \<open>Linear_Spec\<close>, \<open>Linear_Spec_Correct\<close>: \<open>linear_spec.py\<close>. With a causal model a run returns the
    greedy continuation, whatever was drafted, and restores the weights it swaps.
  \<^item> \<open>Tidar_Inputs\<close>, \<open>Tidar_Inputs_Correct\<close>, \<open>Tidar\<close>, \<open>Tidar_Correct\<close>, \<open>Tidar_Run\<close>:
    \<open>tidar*.py\<close>. The pooled input builder equals the reference, the verification kernel finds the first rejected
    token, and a run over any slot allocator (locale \<open>kv_slot_pool\<close>) loses no slot and fills its blocks.
  \<^item> \<open>Request\<close>: \<open>Req\<close> of \<open>managers/schedule_batch.py\<close> and \<open>dllm/mixin/req.py\<close>.
  \<^item> \<open>Req_To_Token\<close>, \<open>Req_To_Token_Correct\<close>: \<open>ReqToTokenPool\<close>, \<open>mem_cache/common.py\<close>,
    \<open>mem_cache/chunk_cache.py\<close>.

  \<^bold>\<open>Conventions.\<close> A class is a record, a method a function from record to record, an exception \<open>Inl\<close> of a
  \<open>py_error\<close>. Tensors are lists, floating-point numbers are rationals, and \<open>-inf\<close> is \<open>None\<close> of an
  option. Code that is not in the repository is a parameter: the model's forward pass (with an opaque state), softmax,
  top-k, random numbers, the tokenizer, regular expressions. What is assumed of them is a named hypothesis
  (\<open>forward_ok\<close>, \<open>is_topk\<close>, \<open>fd_env_ok\<close>, \<open>causal_model\<close>, \<open>td_env_ok\<close>) and every property
  with a hypothesis is applied at a concrete input by the theorem \<open>_witness\<close> beside it.

  \<^bold>\<open>Loops.\<close> The loops of the algorithms are bounded in the source (\<open>block_size\<close>, \<open>max_steps\<close>,
  \<open>max_quad_iters\<close>); the models recurse on that bound, so no fuel is added, and the liveness theorems show that
  the bound suffices.

  \<^bold>\<open>Not modelled.\<close> Model execution, attention backends and GPU kernels outside those named above; networking,
  tokenization and the HTTP server; logging, profiling and statistics files; hybrid Mamba and sliding-window caches;
  hierarchical caches; disaggregation; the numerical error of floating point.
\<close>

end
